(* ===== verification/Prelude.thy ===== *)
theory Prelude
  imports Main "HOL-Library.Word" "HOL-Library.List_Lexorder" "HOL-Library.Char_ord"
begin

text \<open>
  What every component shares: the names of the Go types the model uses, the
  outcome of a fallible Go call, \<open>bytes.Compare\<close> and slicing, and generic lemmas on
  lists, sorted lists and machine words. A Go \<open>[]byte\<close> that is never nil is a
  \<open>bytes\<close>; where the code tells nil from empty it is a \<open>bytes option\<close> with
  \<open>None\<close> for nil.
\<close>

section \<open>Types and outcomes\<close>

type_synonym u8 = "8 word"
type_synonym u32 = "32 word"
type_synonym u64 = "64 word"
type_synonym bytes = "8 word list"

text \<open>A returned \<open>error\<close> and a panic are different outcomes of a Go function.\<close>

datatype go_err = Error string | Panic string

type_synonym 'a res = "go_err + 'a"

text \<open>\<open>if err != nil { return err }\<close> between two steps.\<close>

definition bind_res :: "'a res \<Rightarrow> ('a \<Rightarrow> 'b res) \<Rightarrow> 'b res" where
  "bind_res x f = (case x of Inl err \<Rightarrow> Inl err | Inr y \<Rightarrow> f y)"

abbreviation map_res :: "('a \<Rightarrow> 'b) \<Rightarrow> 'a res \<Rightarrow> 'b res" where
  "map_res f x \<equiv> bind_res x (\<lambda>y. Inr (f y))"

lemma bind_res_simps [simp]: "bind_res (Inl err) f = Inl err" "bind_res (Inr y) f = f y"
  by (simp_all add: bind_res_def)

lemma bind_res_cong [fundef_cong]:
  "x = x' \<Longrightarrow> (\<And>y. x' = Inr y \<Longrightarrow> f y = f' y) \<Longrightarrow> bind_res x f = bind_res x' f'"
  by (simp add: bind_res_def split: sum.split)

lemma bind_res_split: "P (bind_res x f) \<longleftrightarrow> (\<forall>err. x = Inl err \<longrightarrow> P (Inl err)) \<and> (\<forall>y. x = Inr y \<longrightarrow> P (f y))"
  by (cases x) auto

lemma bind_res_Inr: "bind_res x f = Inr z \<longleftrightarrow> (\<exists>y. x = Inr y \<and> f y = Inr z)"
  by (cases x) auto

lemma bind_map_res: "bind_res (map_res f x) g = bind_res x (\<lambda>y. g (f y))"
  by (cases x) simp_all

lemma map_bind_res: "map_res f (bind_res x g) = bind_res x (\<lambda>y. map_res f (g y))"
  by (cases x) simp_all

named_theorems go_defs \<open>definitions of the Go library operations the model uses\<close>
named_theorems word_conv \<open>reading machine words as natural numbers\<close>

section \<open>Slices and comparison\<close>

text \<open>\<open>bytes.Compare\<close>: lexicographic, a proper prefix is smaller.\<close>

fun bytes_compare :: "bytes \<Rightarrow> bytes \<Rightarrow> int" where
  "bytes_compare [] [] = 0"
| "bytes_compare [] (y # ys) = -1"
| "bytes_compare (x # xs) [] = 1"
| "bytes_compare (x # xs) (y # ys) =
     (if x < y then -1 else if y < x then 1 else bytes_compare xs ys)"

lemma bytes_compare_less [simp]: "bytes_compare a b = -1 \<longleftrightarrow> a < b"
  by (induction a b rule: bytes_compare.induct) auto

lemma bytes_compare_greater [simp]: "bytes_compare a b = 1 \<longleftrightarrow> b < a"
  by (induction a b rule: bytes_compare.induct) auto

lemma bytes_compare_eq [simp]: "bytes_compare a b = 0 \<longleftrightarrow> a = b"
  by (induction a b rule: bytes_compare.induct) auto

lemma bytes_compare_range: "bytes_compare a b \<in> {-1, 0, 1}"
  by (induction a b rule: bytes_compare.induct) auto

lemma bytes_compare_neg [simp]: "bytes_compare a b < 0 \<longleftrightarrow> a < b"
  by (induction a b rule: bytes_compare.induct) auto

lemma bytes_compare_nonneg [simp]: "0 \<le> bytes_compare a b \<longleftrightarrow> b \<le> a"
  using bytes_compare_neg [of a b] by (metis linorder_not_less)

lemma bytes_compare_nonpos [simp]: "bytes_compare a b \<le> 0 \<longleftrightarrow> a \<le> b"
  by (induction a b rule: bytes_compare.induct) (auto simp: not_le)

text \<open>
  \<open>buf[lo:hi]\<close>: panics (here \<open>None\<close>) unless \<open>lo \<le> hi \<le> len(buf)\<close>. The capacity of
  a slice is taken to be its length, as it is for the file buffers the code slices.
\<close>

definition slice :: "bytes \<Rightarrow> nat \<Rightarrow> nat \<Rightarrow> bytes option" where
  "slice buf lo hi = (if lo \<le> hi \<and> hi \<le> length buf then Some (take (hi - lo) (drop lo buf)) else None)"

lemma slice_Some_length: "slice buf lo hi = Some bz \<Longrightarrow> length bz = hi - lo"
  by (auto simp: slice_def split: if_splits)

lemma slice_append_left: "hi \<le> length a \<Longrightarrow> slice (a @ b) lo hi = slice a lo hi"
  by (auto simp: slice_def)

lemma slice_middle: "lo = length a \<Longrightarrow> hi = lo + length b \<Longrightarrow> slice (a @ b @ c) lo hi = Some b"
  by (simp add: slice_def)

section \<open>Words\<close>

lemma unat_max [word_conv]: "unat (max a b) = max (unat a) (unat (b :: 'a::len word))"
  by (simp add: max_def word_le_nat_alt)

lemma unat_plus_less [word_conv]:
  "unat a + unat b < 2 ^ LENGTH('a::len) \<Longrightarrow> unat (a + b :: 'a word) = unat a + unat b"
  by (simp add: unat_word_ariths)

lemma unat_minus_ge [word_conv]:
  "unat b \<le> unat a \<Longrightarrow> unat (a - b :: 'a::len word) = unat a - unat b"
  by (metis unat_sub word_le_nat_alt)

lemma unat_of_nat_less [word_conv]:
  "n < 2 ^ LENGTH('a::len) \<Longrightarrow> unat (of_nat n :: 'a word) = n"
  by (simp add: unat_of_nat)

lemma unat_ucast_less [word_conv]:
  "unat (a :: 'a::len word) < 2 ^ LENGTH('b::len) \<Longrightarrow> unat (ucast a :: 'b word) = unat a"
  by (simp add: unsigned_ucast_eq take_bit_nat_eq_self_iff)

lemma ucast_of_nat_down:
  assumes "LENGTH('b::len) \<le> LENGTH('a::len)"
  shows "(ucast (of_nat n :: 'a word) :: 'b word) = of_nat n"
  using assms by (simp add: unsigned_of_nat word_of_nat_eq_iff min_absorb1)

lemma ucast_up_inject:
  assumes "LENGTH('a::len) \<le> LENGTH('b::len)"
  shows "(ucast a :: 'b word) = ucast b \<longleftrightarrow> a = (b :: 'a word)"
proof
  assume eq: "(ucast a :: 'b word) = ucast b"
  have "unat (ucast c :: 'b word) = unat c" for c :: "'a word"
    by (rule unat_ucast_less, rule less_le_trans [OF unsigned_less]) (simp add: assms)
  from this [of a] this [of b] eq show "a = b"
    by (simp add: word_unat_eq_iff)
qed simp

section \<open>Sorted lists\<close>

abbreviation ascending :: "'a::linorder list \<Rightarrow> bool" where
  "ascending \<equiv> sorted_wrt (<)"

lemma ascending_append [simp]:
  "ascending (xs @ ys) \<longleftrightarrow> ascending xs \<and> ascending ys \<and> (\<forall>x \<in> set xs. \<forall>y \<in> set ys. x < y)"
  by (simp add: sorted_wrt_append)

lemma ascending_distinct: "ascending xs \<Longrightarrow> distinct xs"
  by (induction xs) auto

end
