(* ===== verification/Mem_Node.thy ===== *)
theory Mem_Node
  imports Prelude "HOL-Library.Monad_Syntax"
begin

text \<open>
  The nodes of an IAVL tree and the recursive operations on them:
  \<open>src/memiavl/mem_node.go\<close> and \<open>src/memiavl/node.go\<close>. A node is modelled by its value,
  so the copy-on-write argument \<open>cowVersion\<close>, which only chooses between cloning a
  \<open>MemNode\<close> and writing to it in place, does not occur here. \<open>None\<close> is the panic of a nil
  pointer: a rotation or a height update of a node that has no children. Heights, sizes
  and versions have the widths of the code (\<open>uint8\<close>, \<open>int64\<close>, \<open>uint32\<close>).
\<close>

section \<open>Nodes\<close>

text \<open>
  \<open>MemNode\<close>: a node of height 0 is a leaf and holds a value, any other node is a branch
  with two children. The cached \<open>hash\<close> field is a function of the rest.
\<close>

datatype node =
    Leaf (node_version: u32) (node_key: bytes) (leaf_value: bytes)
  | Branch u8 u64 (node_version: u32) (node_key: bytes) (node_left: node) (node_right: node)

fun node_height :: "node \<Rightarrow> u8" where
  "node_height (Leaf v k x) = 0"
| "node_height (Branch h s v k l r) = h"

fun node_size :: "node \<Rightarrow> u64" where
  "node_size (Leaf v k x) = 1"
| "node_size (Branch h s v k l r) = s"

definition isLeaf :: "node \<Rightarrow> bool" where
  "isLeaf node = (node_height node = 0)"

fun node_value :: "node \<Rightarrow> bytes option" where
  "node_value (Leaf v k x) = Some x"
| "node_value (Branch h s v k l r) = None"

definition newLeafNode :: "bytes \<Rightarrow> bytes \<Rightarrow> u32 \<Rightarrow> node" where
  "newLeafNode key value version = Leaf version key value"

text \<open>\<open>Mutate\<close>: the same node at the new version.\<close>

fun mutate :: "u32 \<Rightarrow> node \<Rightarrow> node" where
  "mutate version (Leaf v k x) = Leaf version k x"
| "mutate version (Branch h s v k l r) = Branch h s version k l r"

section \<open>Balancing\<close>

fun updateHeightSize :: "node \<Rightarrow> node option" where
  "updateHeightSize (Leaf v k x) = None"
| "updateHeightSize (Branch h s v k l r) =
     Some (Branch (max (node_height l) (node_height r) + 1) (node_size l + node_size r) v k l r)"

fun calcBalance :: "node \<Rightarrow> int option" where
  "calcBalance (Leaf v k x) = None"
| "calcBalance (Branch h s v k l r) = Some (int (unat (node_height l)) - int (unat (node_height r)))"

fun rotateRight :: "u32 \<Rightarrow> node \<Rightarrow> node option" where
  "rotateRight version (Leaf v k x) = None"
| "rotateRight version (Branch h s v k l r) =
     (case mutate version l of
        Leaf lv lk lx \<Rightarrow> None
      | Branch lh ls lv lk ll lr \<Rightarrow> do {
          node \<leftarrow> updateHeightSize (Branch h s v k lr r);
          updateHeightSize (Branch lh ls lv lk ll node)
        })"

fun rotateLeft :: "u32 \<Rightarrow> node \<Rightarrow> node option" where
  "rotateLeft version (Leaf v k x) = None"
| "rotateLeft version (Branch h s v k l r) =
     (case mutate version r of
        Leaf rv rk rx \<Rightarrow> None
      | Branch rh rs rv rk rl rr \<Rightarrow> do {
          node \<leftarrow> updateHeightSize (Branch h s v k l rl);
          updateHeightSize (Branch rh rs rv rk node rr)
        })"

fun reBalance :: "u32 \<Rightarrow> node \<Rightarrow> node option" where
  "reBalance version (Leaf v k x) = None"
| "reBalance version (Branch h s v k l r) = do {
     balance \<leftarrow> calcBalance (Branch h s v k l r);
     (if balance > 1 then do {
        leftBalance \<leftarrow> calcBalance l;
        (if leftBalance \<ge> 0 then rotateRight version (Branch h s v k l r)
         else do {
           l' \<leftarrow> rotateLeft version (mutate version l);
           rotateRight version (Branch h s v k l' r)
         })
      }
      else if balance < -1 then do {
        rightBalance \<leftarrow> calcBalance r;
        (if rightBalance \<le> 0 then rotateLeft version (Branch h s v k l r)
         else do {
           r' \<leftarrow> rotateRight version (mutate version r);
           rotateLeft version (Branch h s v k l r')
         })
      }
      else Some (Branch h s v k l r))
   }"

section \<open>Insertion and removal\<close>

text \<open>
  \<open>setRecursive\<close>: the new node and whether the key was there already (then neither
  heights nor sizes change).
\<close>

fun set_node :: "node \<Rightarrow> bytes \<Rightarrow> bytes \<Rightarrow> u32 \<Rightarrow> (node \<times> bool) option" where
  "set_node (Leaf v nodeKey x) key value version =
     (if bytes_compare key nodeKey = -1 then
        Some (Branch 1 2 version nodeKey (newLeafNode key value version) (Leaf v nodeKey x), False)
      else if bytes_compare key nodeKey = 1 then
        Some (Branch 1 2 version key (Leaf v nodeKey x) (newLeafNode key value version), False)
      else Some (Leaf version nodeKey value, True))"
| "set_node (Branch h s v nodeKey l r) key value version = do {
     (newNode, updated) \<leftarrow>
       (if bytes_compare key nodeKey = -1 then do {
          (newChild, updated) \<leftarrow> set_node l key value version;
          Some (Branch h s version nodeKey newChild r, updated)
        } else do {
          (newChild, updated) \<leftarrow> set_node r key value version;
          Some (Branch h s version nodeKey l newChild, updated)
        });
     (if updated then Some (newNode, True)
      else do {
        newNode \<leftarrow> updateHeightSize newNode;
        newNode \<leftarrow> reBalance version newNode;
        Some (newNode, False)
      })
   }"

definition setRecursive :: "node option \<Rightarrow> bytes \<Rightarrow> bytes \<Rightarrow> u32 \<Rightarrow> (node \<times> bool) option" where
  "setRecursive node key value version =
     (case node of None \<Rightarrow> Some (newLeafNode key value version, True)
      | Some n \<Rightarrow> set_node n key value version)"

text \<open>
  \<open>removeRecursive\<close> returns the removed value (nil when the key is absent), the new
  subtree (nil when the leaf itself was removed) and, when the smallest key of the
  subtree changed, the new smallest key.
\<close>

fun remove_node :: "node \<Rightarrow> bytes \<Rightarrow> u32 \<Rightarrow> (bytes option \<times> node option \<times> bytes option) option" where
  "remove_node (Leaf v k x) key version =
     (if k = key then Some (Some x, None, None) else Some (None, Some (Leaf v k x), None))"
| "remove_node (Branch h s v k l r) key version =
     (if bytes_compare key k = -1 then do {
        (value, newLeft, newKey) \<leftarrow> remove_node l key version;
        (case value of
           None \<Rightarrow> Some (None, Some (Branch h s v k l r), None)
         | Some _ \<Rightarrow>
             (case newLeft of
                None \<Rightarrow> Some (value, Some r, Some k)
              | Some newLeft \<Rightarrow> do {
                  newNode \<leftarrow> updateHeightSize (Branch h s version k newLeft r);
                  newNode \<leftarrow> reBalance version newNode;
                  Some (value, Some newNode, newKey)
                }))
      } else do {
        (value, newRight, newKey) \<leftarrow> remove_node r key version;
        (case value of
           None \<Rightarrow> Some (None, Some (Branch h s v k l r), None)
         | Some _ \<Rightarrow>
             (case newRight of
                None \<Rightarrow> Some (value, Some l, None)
              | Some newRight \<Rightarrow> do {
                  newNode \<leftarrow> updateHeightSize
                    (Branch h s version (case newKey of None \<Rightarrow> k | Some k' \<Rightarrow> k') l newRight);
                  newNode \<leftarrow> reBalance version newNode;
                  Some (value, Some newNode, None)
                }))
      })"

definition removeRecursive :: "node option \<Rightarrow> bytes \<Rightarrow> u32 \<Rightarrow> (bytes option \<times> node option \<times> bytes option) option" where
  "removeRecursive node key version =
     (case node of None \<Rightarrow> Some (None, None, None) | Some n \<Rightarrow> remove_node n key version)"

section \<open>Lookup\<close>

text \<open>\<open>Get\<close>: the value and the index of the key among the leaves, in \<open>uint32\<close> arithmetic.\<close>

fun node_get :: "node \<Rightarrow> bytes \<Rightarrow> bytes option \<times> u32" where
  "node_get (Leaf v k x) key =
     (if bytes_compare k key = -1 then (None, 1)
      else if bytes_compare k key = 1 then (None, 0)
      else (Some x, 0))"
| "node_get (Branch h s v k l r) key =
     (if bytes_compare key k = -1 then node_get l key
      else let (value, index) = node_get r key
           in (value, index + ucast s - ucast (node_size r)))"

fun node_getByIndex :: "node \<Rightarrow> u32 \<Rightarrow> (bytes \<times> bytes) option" where
  "node_getByIndex (Leaf v k x) index = (if index = 0 then Some (k, x) else None)"
| "node_getByIndex (Branch h s v k l r) index =
     (let leftSize = ucast (node_size l) in
      if index < leftSize then node_getByIndex l index
      else node_getByIndex r (index - leftSize))"

section \<open>The contents and the invariant of a tree\<close>

text \<open>
  The leaves from left to right, as (key, value, version); the true height and number of
  leaves. \<open>wf_node\<close> says that the cached height and size of every branch are the true ones,
  that its key is the smallest key of its right subtree, and that it is balanced;
  \<open>tree_inv\<close> adds that the keys ascend.
\<close>

type_synonym leaf = "bytes \<times> bytes \<times> u32"

fun leaves :: "node \<Rightarrow> leaf list" where
  "leaves (Leaf v k x) = [(k, x, v)]"
| "leaves (Branch h s v k l r) = leaves l @ leaves r"

fun hgt :: "node \<Rightarrow> nat" where
  "hgt (Leaf v k x) = 0"
| "hgt (Branch h s v k l r) = max (hgt l) (hgt r) + 1"

abbreviation nleaves :: "node \<Rightarrow> nat" where
  "nleaves t \<equiv> length (leaves t)"

abbreviation keys :: "node \<Rightarrow> bytes list" where
  "keys t \<equiv> map fst (leaves t)"

fun wf_node :: "node \<Rightarrow> bool" where
  "wf_node (Leaf v k x) = True"
| "wf_node (Branch h s v k l r) =
     (wf_node l \<and> wf_node r \<and> unat h = max (hgt l) (hgt r) + 1 \<and> unat s = nleaves l + nleaves r \<and>
      k = hd (keys r) \<and> hgt l \<le> hgt r + 1 \<and> hgt r \<le> hgt l + 1)"

definition tree_inv :: "node \<Rightarrow> bool" where
  "tree_inv t = (wf_node t \<and> ascending (keys t))"

definition lookup :: "node \<Rightarrow> bytes \<Rightarrow> bytes option" where
  "lookup t key = map_option fst (map_of (leaves t) key)"

text \<open>Membership, update and deletion on the list of leaves.\<close>

definition has_key :: "bytes \<Rightarrow> leaf list \<Rightarrow> bool" where
  "has_key key xs = (key \<in> fst ` set xs)"

fun upd_leaves :: "bytes \<Rightarrow> bytes \<Rightarrow> u32 \<Rightarrow> leaf list \<Rightarrow> leaf list" where
  "upd_leaves key value version [] = [(key, value, version)]"
| "upd_leaves key value version (x # xs) =
     (if key < fst x then (key, value, version) # x # xs
      else if key = fst x then (key, value, version) # xs
      else x # upd_leaves key value version xs)"

definition del_leaves :: "bytes \<Rightarrow> leaf list \<Rightarrow> leaf list" where
  "del_leaves key = filter (\<lambda>x. fst x \<noteq> key)"

lemma leaves_nonempty [simp]: "leaves t \<noteq> []"
  by (induction t) auto

lemma nleaves_pos [simp]: "0 < nleaves t"
  by simp

lemma hd_keys [simp]: "hd (keys (Branch h s v k l r)) = hd (keys l)"
  by simp

lemma node_height_wf: "wf_node t \<Longrightarrow> unat (node_height t) = hgt t"
  by (cases t) auto

lemma node_size_wf: "wf_node t \<Longrightarrow> unat (node_size t) = nleaves t"
  by (cases t) auto

lemma isLeaf_wf: "wf_node t \<Longrightarrow> isLeaf t \<longleftrightarrow> (\<exists>v k x. t = Leaf v k x)"
  by (cases t) (auto simp: isLeaf_def)

text \<open>A balanced tree of height \<open>h\<close> has at least \<open>2 ^ (h div 2)\<close> leaves.\<close>

lemma hgt_bound: "wf_node t \<Longrightarrow> 2 ^ (hgt t div 2) \<le> nleaves t"
proof (induction "hgt t" arbitrary: t rule: less_induct)
  case less
  show ?case
  proof (cases t)
    case (Branch h s v k l r)
    let ?m = "min (hgt l) (hgt r)"
    have bal: "hgt t div 2 \<le> Suc (?m div 2)" and wfs: "wf_node l" "wf_node r"
      using less.prems Branch by auto
    have "2 ^ (hgt l div 2) \<le> nleaves l" "2 ^ (hgt r div 2) \<le> nleaves r"
      using less.hyps [of l] less.hyps [of r] wfs Branch by auto
    moreover have "(2::nat) ^ (?m div 2) \<le> 2 ^ (hgt l div 2)" "(2::nat) ^ (?m div 2) \<le> 2 ^ (hgt r div 2)"
      by (auto intro!: power_increasing div_le_mono)
    moreover have "(2::nat) ^ (hgt t div 2) \<le> 2 ^ Suc (?m div 2)"
      using bal by (rule power_increasing) simp
    moreover have "nleaves t = nleaves l + nleaves r"
      using Branch by simp
    ultimately show ?thesis
      unfolding power_Suc by linarith
  qed simp
qed

lemma hgt_less: "hgt t < 2 * n" if "wf_node t" "nleaves t < 2 ^ n"
proof -
  have "(2::nat) ^ (hgt t div 2) < 2 ^ n"
    using hgt_bound [OF that(1)] that(2) by linarith
  then have "hgt t div 2 < n"
    by simp
  then show ?thesis
    by linarith
qed

section \<open>Balancing keeps the invariant\<close>

text \<open>The branch that \<open>updateHeightSize\<close> leaves behind.\<close>

definition mk_branch :: "u32 \<Rightarrow> bytes \<Rightarrow> node \<Rightarrow> node \<Rightarrow> node" where
  "mk_branch v k l r =
     Branch (max (node_height l) (node_height r) + 1) (node_size l + node_size r) v k l r"

lemma updateHeightSize_mk [simp]: "updateHeightSize (Branch h s v k l r) = Some (mk_branch v k l r)"
  by (simp add: mk_branch_def)

declare updateHeightSize.simps(2) [simp del]

lemma mk_branch_simps [simp]:
  "leaves (mk_branch v k l r) = leaves l @ leaves r"
  "hgt (mk_branch v k l r) = max (hgt l) (hgt r) + 1"
  by (simp_all add: mk_branch_def)

lemma wf_mk_branch [simp]:
  assumes "nleaves l + nleaves r < 2 ^ 63"
  shows "wf_node (mk_branch v k l r) \<longleftrightarrow>
    wf_node l \<and> wf_node r \<and> k = hd (keys r) \<and> hgt l \<le> hgt r + 1 \<and> hgt r \<le> hgt l + 1"
proof (cases "wf_node l \<and> wf_node r")
  case True
  have "hgt l < 126" "hgt r < 126"
    using hgt_less [of l 63] hgt_less [of r 63] True assms by auto
  then have "unat (max (node_height l) (node_height r) + 1) = max (hgt l) (hgt r) + 1"
    using True by (simp add: word_conv node_height_wf)
  moreover have "unat (node_size l + node_size r) = nleaves l + nleaves r"
    using True assms by (simp add: word_conv node_size_wf)
  ultimately show ?thesis
    using True by (auto simp: mk_branch_def)
qed (auto simp: mk_branch_def)

lemma mutate_simps [simp]:
  "leaves (mutate version (Branch h s v k l r)) = leaves l @ leaves r"
  "hgt (mutate version t) = hgt t" "keys (mutate version t) = keys t"
  "wf_node (mutate version t) = wf_node t" "calcBalance (mutate version t) = calcBalance t"
  by (cases t; simp)+

lemma calcBalance_wf:
  "wf_node l \<Longrightarrow> wf_node r \<Longrightarrow> calcBalance (Branch h s v k l r) = Some (int (hgt l) - int (hgt r))"
  by (simp add: node_height_wf)

lemma mutate_mk_branch [simp]: "mutate version (mk_branch v k l r) = mk_branch version k l r"
  by (simp add: mk_branch_def)

lemma case_mk_branch [simp]:
  "(case mk_branch v k l r of Leaf a b c \<Rightarrow> f a b c | Branch h s v' k' l' r' \<Rightarrow> g h s v' k' l' r') =
     g (max (node_height l) (node_height r) + 1) (node_size l + node_size r) v k l r"
  by (simp add: mk_branch_def)

text \<open>
  \<open>reBalance\<close> on a branch whose children differ in height by at most two: it does not
  panic, restores the balance, keeps the leaves in order, and lowers the height by at
  most one, and only when the children differed by two.
\<close>

lemma reBalance_wf:
  assumes wf: "wf_node l" "wf_node r" and k: "k = hd (keys r)" and cap: "nleaves l + nleaves r < 2 ^ 63"
    and bal: "hgt l \<le> hgt r + 2" "hgt r \<le> hgt l + 2"
  obtains t where "reBalance version (mk_branch v k l r) = Some t" "wf_node t"
    "leaves t = leaves l @ leaves r"
    "hgt t = max (hgt l) (hgt r) + 1 \<or>
     hgt t = max (hgt l) (hgt r) \<and> (hgt l = hgt r + 2 \<or> hgt r = hgt l + 2)"
proof -
  obtain h s where mk: "mk_branch v k l r = Branch h s v k l r"
    by (simp add: mk_branch_def)
  consider "hgt l = hgt r + 2" | "hgt r = hgt l + 2" | "hgt l \<le> hgt r + 1" "hgt r \<le> hgt l + 1"
    using bal by linarith
  then have "\<exists>t. reBalance version (Branch h s v k l r) = Some t \<and> wf_node t \<and>
      leaves t = leaves l @ leaves r \<and>
      (hgt t = max (hgt l) (hgt r) + 1 \<or>
       hgt t = max (hgt l) (hgt r) \<and> (hgt l = hgt r + 2 \<or> hgt r = hgt l + 2))"
  proof cases
    case 1
    then obtain lh ls lv lk ll lr where l: "l = Branch lh ls lv lk ll lr"
      by (cases l) auto
    show ?thesis
    proof (cases "hgt lr \<le> hgt ll")
      case True
      then show ?thesis
        using 1 wf k cap l by (auto simp: node_height_wf)
    next
      case False
      then obtain mh ms mv mk ml mr where lr: "lr = Branch mh ms mv mk ml mr"
        by (cases lr) auto
      then show ?thesis
        using False 1 wf k cap l by (auto simp: node_height_wf)
    qed
  next
    case 2
    then obtain rh rs rv rk rl rr where r: "r = Branch rh rs rv rk rl rr"
      by (cases r) auto
    show ?thesis
    proof (cases "hgt rl \<le> hgt rr")
      case True
      then show ?thesis
        using 2 wf k cap r by (auto simp: node_height_wf)
    next
      case False
      then obtain mh ms mv mk ml mr where rl: "rl = Branch mh ms mv mk ml mr"
        by (cases rl) auto
      then show ?thesis
        using False 2 wf k cap r by (auto simp: node_height_wf)
    qed
  next
    case 3
    then have "wf_node (Branch h s v k l r)"
      unfolding mk [symmetric] using wf k cap by simp
    with 3 show ?thesis
      using wf by (auto simp: node_height_wf)
  qed
  with mk have "\<exists>t. reBalance version (mk_branch v k l r) = Some t \<and> wf_node t \<and>
      leaves t = leaves l @ leaves r \<and>
      (hgt t = max (hgt l) (hgt r) + 1 \<or>
       hgt t = max (hgt l) (hgt r) \<and> (hgt l = hgt r + 2 \<or> hgt r = hgt l + 2))"
    by simp
  then show ?thesis
    using that by blast
qed

section \<open>Updates of the list of leaves\<close>

lemma upd_leaves_append:
  assumes "ascending (map fst (xs @ ys))" "ys \<noteq> []"
  shows "upd_leaves key value version (xs @ ys) =
    (if key < fst (hd ys) then upd_leaves key value version xs @ ys
     else xs @ upd_leaves key value version ys)"
  using assms
proof (induction xs)
  case Nil
  then show ?case by (cases ys) auto
next
  case (Cons x xs)
  then show ?case by (cases ys) auto
qed

lemma has_key_simps [simp]:
  "\<not> has_key key []"
  "has_key key (x # xs) \<longleftrightarrow> fst x = key \<or> has_key key xs"
  "has_key key (xs @ ys) \<longleftrightarrow> has_key key xs \<or> has_key key ys"
  by (auto simp: has_key_def)

lemma has_key_map_of: "has_key key xs \<longleftrightarrow> map_of xs key \<noteq> None"
  by (simp add: has_key_def map_of_eq_None_iff)

lemma set_keys_upd_leaves:
  "fst ` set (upd_leaves key value version xs) = insert key (fst ` set xs)"
  by (induction xs) auto

lemma length_upd_leaves:
  "ascending (map fst xs) \<Longrightarrow>
   length (upd_leaves key value version xs) = length xs + (if has_key key xs then 0 else 1)"
  by (induction xs) (auto simp: has_key_def)

lemma ascending_upd_leaves:
  "ascending (map fst xs) \<Longrightarrow> ascending (map fst (upd_leaves key value version xs))"
  by (induction xs) (auto simp: set_keys_upd_leaves image_iff)

lemma hd_upd_leaves:
  "xs \<noteq> [] \<Longrightarrow> fst (hd xs) \<le> key \<Longrightarrow> fst (hd (upd_leaves key value version xs)) = fst (hd xs)"
  by (cases xs) auto

lemma upd_leaves_nonempty [simp]: "upd_leaves key value version xs \<noteq> []"
  by (cases xs) auto

lemma map_of_upd_leaves:
  "map_of (upd_leaves key value version xs) = (map_of xs)(key \<mapsto> (value, version))"
  by (induction xs) auto

lemma del_leaves_simps [simp]:
  "del_leaves key [] = []"
  "del_leaves key (x # xs) = (if fst x = key then del_leaves key xs else x # del_leaves key xs)"
  "del_leaves key (xs @ ys) = del_leaves key xs @ del_leaves key ys"
  by (simp_all add: del_leaves_def)

lemma del_leaves_idle: "\<not> has_key key xs \<Longrightarrow> del_leaves key xs = xs"
  by (induction xs) auto

lemma map_of_del_leaves: "map_of (del_leaves key xs) = (map_of xs)(key := None)"
  by (induction xs) auto

lemma ascending_del_leaves: "ascending (map fst xs) \<Longrightarrow> ascending (map fst (del_leaves key xs))"
  by (induction xs) (auto simp: del_leaves_def)

section \<open>Insertion\<close>

lemma hd_keys_leaves: "hd (keys t) = fst (hd (leaves t))"
  by (simp add: hd_map)

lemma ascending_left: "ascending (keys l @ keys r) \<Longrightarrow> has_key key (leaves l) \<Longrightarrow> key < hd (keys r)"
  by (cases "leaves r") (auto simp: has_key_def)

lemma ascending_right: "ascending (keys r) \<Longrightarrow> has_key key (leaves r) \<Longrightarrow> hd (keys r) \<le> key"
  by (cases "leaves r") (auto simp: has_key_def)

lemma set_node_wf:
  assumes "wf_node t" "ascending (keys t)" "nleaves t < 2 ^ 62"
  shows "\<exists>t'. set_node t key value version = Some (t', has_key key (leaves t)) \<and> wf_node t' \<and>
    leaves t' = upd_leaves key value version (leaves t) \<and>
    hgt t \<le> hgt t' \<and> hgt t' \<le> hgt t + (if has_key key (leaves t) then 0 else 1)"
  using assms
proof (induction t)
  case (Leaf v k x)
  then show ?case
    by (cases key k rule: linorder_cases) (auto simp: newLeafNode_def)
next
  case (Branch h s v k l r)
  have k: "k = hd (keys r)" and wf: "wf_node l" "wf_node r"
    and asc: "ascending (keys l)" "ascending (keys r)" "ascending (keys l @ keys r)"
    and cap: "nleaves l + nleaves r < 2 ^ 62" and bal: "hgt l \<le> hgt r + 1" "hgt r \<le> hgt l + 1"
    using Branch.prems by auto
  have upd: "upd_leaves key value version (leaves l @ leaves r) =
      (if key < k then upd_leaves key value version (leaves l) @ leaves r
       else leaves l @ upd_leaves key value version (leaves r))"
    using upd_leaves_append [of "leaves l" "leaves r"] asc(3) k by (simp add: hd_map)
  show ?case
  proof (cases "key < k")
    case True
    let ?u = "has_key key (leaves l)"
    obtain l' where l': "set_node l key value version = Some (l', ?u)" "wf_node l'"
      "leaves l' = upd_leaves key value version (leaves l)"
      "hgt l \<le> hgt l'" "hgt l' \<le> hgt l + (if ?u then 0 else 1)"
      using Branch.IH(1) wf asc cap by force
    have len: "nleaves l' = nleaves l + (if ?u then 0 else 1)"
      using l'(3) length_upd_leaves [OF asc(1)] by simp
    have mem: "\<not> has_key key (leaves r)"
      using True k ascending_right [OF asc(2)] by force
    show ?thesis
    proof (cases ?u)
      case u: True
      then have "hgt l' = hgt l"
        using l'(4,5) by simp
      with u show ?thesis
        using True Branch.prems l'(1,2,3) len upd by simp
    next
      case False
      obtain t where t: "reBalance version (mk_branch version k l' r) = Some t" "wf_node t"
        "leaves t = leaves l' @ leaves r"
        "hgt t = max (hgt l') (hgt r) + 1 \<or>
         hgt t = max (hgt l') (hgt r) \<and> (hgt l' = hgt r + 2 \<or> hgt r = hgt l' + 2)"
        by (rule reBalance_wf [of l' r k version version]) (use l' len False wf k cap bal in auto)
      then show ?thesis
        using True False l' mem upd bal by (auto simp: max_def split: if_splits)
    qed
  next
    case False
    let ?u = "has_key key (leaves r)"
    obtain r' where r': "set_node r key value version = Some (r', ?u)" "wf_node r'"
      "leaves r' = upd_leaves key value version (leaves r)"
      "hgt r \<le> hgt r'" "hgt r' \<le> hgt r + (if ?u then 0 else 1)"
      using Branch.IH(2) wf asc cap by force
    have len: "nleaves r' = nleaves r + (if ?u then 0 else 1)"
      using r'(3) length_upd_leaves [OF asc(2)] by simp
    have mem: "\<not> has_key key (leaves l)"
      using False k ascending_left [OF asc(3)] by blast
    have k': "k = hd (keys r')"
      using False k r'(3) hd_upd_leaves [of "leaves r" key] by (simp add: hd_map)
    show ?thesis
    proof (cases ?u)
      case u: True
      then have "hgt r' = hgt r"
        using r'(4,5) by simp
      with u show ?thesis
        using False Branch.prems r'(1,2,3) len upd k' by simp
    next
      case u: False
      obtain t where "reBalance version (mk_branch version k l r') = Some t" "wf_node t"
        "leaves t = leaves l @ leaves r'"
        "hgt t = max (hgt l) (hgt r') + 1 \<or>
         hgt t = max (hgt l) (hgt r') \<and> (hgt l = hgt r' + 2 \<or> hgt r' = hgt l + 2)"
        by (rule reBalance_wf [of l r' k version version]) (use r' len u wf k' cap bal in auto)
      then show ?thesis
        using False u r' mem upd bal by (auto simp: max_def split: if_splits)
    qed
  qed
qed

section \<open>Removal\<close>

text \<open>
  What \<open>removeRecursive\<close> returns for a subtree: the subtree itself when the key is
  absent, nothing when the subtree was the removed leaf, and otherwise a valid subtree
  without the key, with its new smallest key when the smallest was removed.
\<close>

inductive remove_result :: "node \<Rightarrow> bytes \<Rightarrow> bytes option \<times> node option \<times> bytes option \<Rightarrow> bool"
  for t key where
  absent: "\<not> has_key key (leaves t) \<Longrightarrow> remove_result t key (None, Some t, None)"
| emptied: "t = Leaf v key x \<Longrightarrow> remove_result t key (Some x, None, None)"
| removed: "lookup t key = Some x \<Longrightarrow> wf_node t' \<Longrightarrow> leaves t' = del_leaves key (leaves t) \<Longrightarrow>
    hgt t' \<le> hgt t \<Longrightarrow> hgt t \<le> hgt t' + 1 \<Longrightarrow>
    newKey = (if key = hd (keys t) then Some (hd (keys t')) else None) \<Longrightarrow>
    remove_result t key (Some x, Some t', newKey)"

lemma lookup_simps [simp]:
  "lookup (Leaf v k x) key = (if key = k then Some x else None)"
  "\<not> has_key key (leaves l) \<Longrightarrow> lookup (Branch h s v k l r) key = lookup r key"
  "\<not> has_key key (leaves r) \<Longrightarrow> lookup (Branch h s v k l r) key = lookup l key"
  by (auto simp: lookup_def has_key_map_of map_add_def simp del: not_None_eq split: option.splits)

lemma lookup_None: "lookup t key = None \<longleftrightarrow> \<not> has_key key (leaves t)"
  by (simp add: lookup_def has_key_map_of del: not_None_eq)

lemma lookup_Some: "lookup t key = Some x \<Longrightarrow> has_key key (leaves t)"
  using lookup_None [of t key] by auto

lemma length_del_leaves:
  "ascending (map fst xs) \<Longrightarrow> has_key key xs \<Longrightarrow> Suc (length (del_leaves key xs)) = length xs"
proof (induction xs)
  case (Cons x xs)
  then have "fst x = key \<Longrightarrow> \<not> has_key key xs"
    by (auto simp: has_key_def)
  with Cons show ?case
    by (auto simp: del_leaves_idle)
qed simp

lemma hd_del_leaves:
  "xs \<noteq> [] \<Longrightarrow> key \<noteq> fst (hd xs) \<Longrightarrow> hd (del_leaves key xs) = hd xs"
  by (cases xs) auto

lemma remove_node_wf:
  assumes "wf_node t" "ascending (keys t)" "nleaves t < 2 ^ 62"
  shows "\<exists>res. remove_node t key version = Some res \<and> remove_result t key res"
  using assms
proof (induction t)
  case (Leaf v k x)
  then show ?case
    by (auto intro: remove_result.intros)
next
  case (Branch h s v k l r)
  let ?t = "Branch h s v k l r"
  have k: "k = hd (keys r)" and wf: "wf_node l" "wf_node r"
    and asc: "ascending (keys l)" "ascending (keys r)" "ascending (keys l @ keys r)"
    and cap: "nleaves l + nleaves r < 2 ^ 62" and bal: "hgt l \<le> hgt r + 1" "hgt r \<le> hgt l + 1"
    using Branch.prems by auto
  show ?case
  proof (cases "key < k")
    case True
    obtain val l' nk where l': "remove_node l key version = Some (val, l', nk)"
      "remove_result l key (val, l', nk)"
      using Branch.IH(1) wf asc cap by force
    have mem: "\<not> has_key key (leaves r)"
      using True k ascending_right [OF asc(2)] by force
    note look = lookup_simps(3) [OF mem, of h s v k l] del_leaves_idle [OF mem]
    from l'(2) show ?thesis
    proof cases
      case absent
      then show ?thesis
        using True l'(1) mem by (auto intro: remove_result.absent)
    next
      case (emptied v x)
      then show ?thesis
        using True l'(1) look bal wf k by (auto intro!: remove_result.removed)
    next
      case (removed x l'')
      have len: "Suc (length (del_leaves key (leaves l))) = nleaves l"
        using removed(3) length_del_leaves [OF asc(1)] lookup_Some by blast
      have ne: "del_leaves key (leaves l) \<noteq> []"
        using removed(5) leaves_nonempty [of l''] by simp
      obtain t where t: "reBalance version (mk_branch version k l'' r) = Some t" "wf_node t"
        "leaves t = leaves l'' @ leaves r"
        "hgt t = max (hgt l'') (hgt r) + 1 \<or>
         hgt t = max (hgt l'') (hgt r) \<and> (hgt l'' = hgt r + 2 \<or> hgt r = hgt l'' + 2)"
        by (rule reBalance_wf [of l'' r k version version]) (use removed len wf k cap bal in auto)
      have "remove_result ?t key (Some x, Some t, nk)"
        by (rule remove_result.removed) (use t removed ne look bal in auto)
      then show ?thesis
        using True removed l'(1) t(1) by simp
    qed
  next
    case False
    obtain val r' nk where r': "remove_node r key version = Some (val, r', nk)"
      "remove_result r key (val, r', nk)"
      using Branch.IH(2) wf asc cap by force
    have mem: "\<not> has_key key (leaves l)"
      using False k ascending_left [OF asc(3)] by blast
    then have "key \<noteq> hd (keys l)"
      by (cases "leaves l") auto
    note look = this lookup_simps(2) [OF mem, of h s v k r] del_leaves_idle [OF mem]
    from r'(2) show ?thesis
    proof cases
      case absent
      then show ?thesis
        using False r'(1) mem by (auto intro: remove_result.absent)
    next
      case (emptied v x)
      then show ?thesis
        using False r'(1) look bal wf k by (auto intro!: remove_result.removed)
    next
      case (removed x r'')
      have len: "Suc (length (del_leaves key (leaves r))) = nleaves r"
        using removed(3) length_del_leaves [OF asc(2)] lookup_Some by blast
      have ne: "del_leaves key (leaves r) \<noteq> []"
        using removed(5) leaves_nonempty [of r''] by simp
      let ?k = "case nk of None \<Rightarrow> k | Some k' \<Rightarrow> k'"
      have k': "?k = hd (keys r'')"
        using removed k ne hd_del_leaves [of "leaves r" key] by (auto simp: hd_map)
      obtain t where t: "reBalance version (mk_branch version ?k l r'') = Some t" "wf_node t"
        "leaves t = leaves l @ leaves r''"
        "hgt t = max (hgt l) (hgt r'') + 1 \<or>
         hgt t = max (hgt l) (hgt r'') \<and> (hgt l = hgt r'' + 2 \<or> hgt r'' = hgt l + 2)"
        by (rule reBalance_wf [of l r'' ?k version version]) (use removed len wf k' cap bal in auto)
      have "remove_result ?t key (Some x, Some t, None)"
        by (rule remove_result.removed) (use t removed look bal in auto)
      then show ?thesis
        using False removed r'(1) t(1) by simp
    qed
  qed
qed

section \<open>Lookup by key and by index\<close>

text \<open>The number of leaves with a smaller key.\<close>

definition rank :: "bytes \<Rightarrow> leaf list \<Rightarrow> nat" where
  "rank key xs = length (filter (\<lambda>x. fst x < key) xs)"

lemma rank_simps [simp]:
  "rank key [] = 0"
  "rank key (x # xs) = (if fst x < key then 1 else 0) + rank key xs"
  "rank key (xs @ ys) = rank key xs + rank key ys"
  by (simp_all add: rank_def)

lemma rank_le: "rank key xs \<le> length xs"
  by (simp add: rank_def)

lemma rank_all: "\<forall>x \<in> set xs. fst x < key \<Longrightarrow> rank key xs = length xs"
  by (simp add: rank_def)

lemma rank_none: "\<forall>x \<in> set xs. key \<le> fst x \<Longrightarrow> rank key xs = 0"
  by (auto simp: rank_def filter_empty_conv)

lemma nth_rank:
  "ascending (map fst xs) \<Longrightarrow> map_of xs key = Some y \<Longrightarrow>
   rank key xs < length xs \<and> xs ! rank key xs = (key, y)"
proof (induction xs)
  case (Cons x xs)
  then have "rank key xs = 0" if "fst x = key"
    using that by (auto intro!: rank_none)
  moreover have "fst x < key" if "fst x \<noteq> key"
    using Cons.prems that map_of_SomeD [of xs key y] by force
  ultimately show ?case
    using Cons by (cases x) (auto split: if_splits)
qed simp

lemma hd_keys_least: "ascending (keys r) \<Longrightarrow> x \<in> set (leaves r) \<Longrightarrow> hd (keys r) \<le> fst x"
  by (cases "leaves r") auto

lemma hd_keys_above: "ascending (keys l @ keys r) \<Longrightarrow> x \<in> set (leaves l) \<Longrightarrow> fst x < hd (keys r)"
  by (cases "leaves r") auto

lemma node_get_wf:
  assumes "wf_node t" "ascending (keys t)"
  shows "node_get t key = (lookup t key, of_nat (rank key (leaves t)))"
  using assms
proof (induction t)
  case (Branch h s v k l r)
  then have k: "k = hd (keys r)" and asc: "ascending (keys r)" "ascending (keys l @ keys r)"
    and s: "unat s = nleaves l + nleaves r" "unat (node_size r) = nleaves r"
    by (auto simp: node_size_wf)
  show ?case
  proof (cases "key < k")
    case True
    then have *: "\<And>x. x \<in> set (leaves r) \<Longrightarrow> key < fst x"
      using hd_keys_least [OF asc(1)] k by force
    then have "\<not> has_key key (leaves r)" "rank key (leaves r) = 0"
      by (auto simp: has_key_def intro!: rank_none less_imp_le)
    then show ?thesis
      using True Branch by simp
  next
    case False
    then have *: "\<And>x. x \<in> set (leaves l) \<Longrightarrow> fst x < key"
      using hd_keys_above [OF asc(2)] k by force
    then have "\<not> has_key key (leaves l)" "rank key (leaves l) = nleaves l"
      by (auto simp: has_key_def rank_all)
    moreover have "(ucast s :: u32) = of_nat (nleaves l + nleaves r)"
      by (simp only: s(1) [symmetric] of_nat_unat)
    moreover have "(ucast (node_size r) :: u32) = of_nat (nleaves r)"
      by (simp only: s(2) [symmetric] of_nat_unat)
    ultimately show ?thesis
      using False Branch by simp
  qed
qed auto

lemma node_getByIndex_wf:
  assumes "wf_node t" "nleaves t < 2 ^ 32"
  shows "node_getByIndex t index =
    (if unat index < nleaves t then let (k, x, v) = leaves t ! unat index in Some (k, x) else None)"
  using assms
proof (induction t arbitrary: index)
  case (Leaf v k x)
  then show ?case
    by (auto simp: unat_eq_zero)
next
  case (Branch h s v k l r)
  then have "unat (ucast (node_size l) :: u32) = nleaves l"
    by (auto simp: word_conv node_size_wf)
  then show ?case
    using Branch by (auto simp: Let_def word_less_nat_alt unat_minus_ge nth_append)
qed

section \<open>The operations on a root, which is nil for the empty tree\<close>

definition root_leaves :: "node option \<Rightarrow> leaf list" where
  "root_leaves root = (case root of None \<Rightarrow> [] | Some t \<Rightarrow> leaves t)"

definition root_inv :: "node option \<Rightarrow> bool" where
  "root_inv root = (case root of None \<Rightarrow> True | Some t \<Rightarrow> tree_inv t)"

definition root_lookup :: "node option \<Rightarrow> bytes \<Rightarrow> bytes option" where
  "root_lookup root = (case root of None \<Rightarrow> \<lambda>_. None | Some t \<Rightarrow> lookup t)"

lemma root_simps [simp]:
  "root_leaves None = []" "root_leaves (Some t) = leaves t"
  "root_inv None" "root_inv (Some t) = tree_inv t"
  "root_lookup None = (\<lambda>_. None)" "root_lookup (Some t) = lookup t"
  by (simp_all add: root_leaves_def root_inv_def root_lookup_def)

lemma root_lookup_leaves: "root_lookup root key = map_option fst (map_of (root_leaves root) key)"
  by (cases root) (auto simp: lookup_def)

lemma root_inv_ascending: "root_inv root \<Longrightarrow> ascending (map fst (root_leaves root))"
  by (cases root) (auto simp: tree_inv_def)

lemma setRecursive_wf:
  assumes "root_inv root" "length (root_leaves root) < 2 ^ 62"
  obtains t where "setRecursive root key value version = Some (t, root = None \<or> has_key key (root_leaves root))"
    "tree_inv t" "leaves t = upd_leaves key value version (root_leaves root)"
    "lookup t = (root_lookup root)(key \<mapsto> value)"
proof (cases root)
  case None
  then show ?thesis
    using that [of "newLeafNode key value version"]
    by (fastforce simp: setRecursive_def newLeafNode_def tree_inv_def)
next
  case (Some n)
  then obtain t where t: "set_node n key value version = Some (t, has_key key (leaves n))" "wf_node t"
    "leaves t = upd_leaves key value version (leaves n)"
    using set_node_wf [of n key "value" version] assms by (auto simp: tree_inv_def)
  have "tree_inv t"
    using t assms Some ascending_upd_leaves [of "leaves n"] by (simp add: tree_inv_def)
  moreover have "lookup t = (lookup n)(key \<mapsto> value)"
    by (auto simp: lookup_def t(3) map_of_upd_leaves)
  ultimately show ?thesis
    using that [of t] t Some by (simp add: setRecursive_def)
qed

lemma removeRecursive_wf:
  assumes "root_inv root" "length (root_leaves root) < 2 ^ 62"
  obtains root' newKey where
    "removeRecursive root key version = Some (root_lookup root key, root', newKey)"
    "root_inv root'" "root_leaves root' = del_leaves key (root_leaves root)"
    "root_lookup root' = (root_lookup root)(key := None)"
proof (cases root)
  case None
  then show ?thesis
    using that by (auto simp: removeRecursive_def)
next
  case (Some n)
  then obtain res where res: "remove_node n key version = Some res" "remove_result n key res"
    using remove_node_wf [of n key version] assms by (auto simp: tree_inv_def)
  obtain val root' newKey where r: "res = (val, root', newKey)" by (cases res)
  have n: "tree_inv n" using assms Some by simp
  have "val = lookup n key \<and> root_inv root' \<and> root_leaves root' = del_leaves key (leaves n)"
    using res(2) n unfolding r
    by cases (auto simp: tree_inv_def ascending_del_leaves del_leaves_idle
      intro: lookup_None [THEN iffD2, symmetric])
  moreover from this have "root_lookup root' = (lookup n)(key := None)"
    by (auto simp: root_lookup_leaves lookup_def map_of_del_leaves)
  ultimately show ?thesis
    using that [of root' newKey] res(1) r Some by (simp add: removeRecursive_def)
qed

section \<open>Correctness of the operations\<close>

text \<open>
  C6: \<open>setRecursive\<close> on a valid tree of fewer than 2^62 leaves never panics and returns a
  valid tree (balanced, heights and sizes exact, branch keys the smallest key on the right,
  keys ascending) whose leaves are the old ones with the new leaf put in its place at the
  new version, and whose contents are the old contents with the key mapped to the value.
  The flag says whether the key was there (and is true for the first leaf of a tree).
\<close>

theorem setRecursive_correct:
  assumes "root_inv root" "length (root_leaves root) < 2 ^ 62"
  shows "\<exists>t. setRecursive root key value version = Some (t, root = None \<or> root_lookup root key \<noteq> None) \<and>
    tree_inv t \<and> leaves t = upd_leaves key value version (root_leaves root) \<and>
    lookup t = (root_lookup root)(key \<mapsto> value)"
proof -
  obtain t where t: "setRecursive root key value version = Some (t, root = None \<or> has_key key (root_leaves root))"
    "tree_inv t" "leaves t = upd_leaves key value version (root_leaves root)"
    "lookup t = (root_lookup root)(key \<mapsto> value)"
    using assms by (rule setRecursive_wf)
  moreover have "has_key key (root_leaves root) \<longleftrightarrow> root_lookup root key \<noteq> None"
    by (simp only: has_key_map_of root_lookup_leaves option.map_disc_iff)
  ultimately show ?thesis by auto
qed

text \<open>
  C7: \<open>removeRecursive\<close> on a valid tree never panics, returns the value the key had (nil
  when it was absent), and leaves a valid tree whose leaves are the old ones without the
  key, and whose contents are the old contents without it.
\<close>

theorem removeRecursive_correct:
  assumes "root_inv root" "length (root_leaves root) < 2 ^ 62"
  shows "\<exists>root' newKey. removeRecursive root key version = Some (root_lookup root key, root', newKey) \<and>
    root_inv root' \<and> root_leaves root' = del_leaves key (root_leaves root) \<and>
    root_lookup root' = (root_lookup root)(key := None)"
  using removeRecursive_wf [OF assms, of key version] by metis

text \<open>
  C8: \<open>Get\<close> on a valid tree of fewer than 2^32 leaves returns the value of the key and, as
  the index, the number of smaller keys: the position of the key, or the one it would
  have. \<open>GetByIndex\<close> returns the leaf at that position, so it inverts \<open>Get\<close>.
\<close>

theorem get_and_getByIndex_correct:
  assumes "tree_inv t" "nleaves t < 2 ^ 32"
  shows "fst (node_get t key) = lookup t key \<and>
    unat (snd (node_get t key)) = rank key (leaves t) \<and>
    (\<forall>x. lookup t key = Some x \<longrightarrow> node_getByIndex t (snd (node_get t key)) = Some (key, x)) \<and>
    (\<forall>index. nleaves t \<le> unat index \<longrightarrow> node_getByIndex t index = None)"
proof -
  have get: "node_get t key = (lookup t key, of_nat (rank key (leaves t)))"
    using assms by (simp add: node_get_wf tree_inv_def)
  have rank: "unat (of_nat (rank key (leaves t)) :: u32) = rank key (leaves t)"
    using rank_le [of key "leaves t"] assms(2) by (simp add: word_conv)
  have "node_getByIndex t (of_nat (rank key (leaves t))) = Some (key, x)"
    if look: "lookup t key = Some x" for x
  proof -
    obtain v where "map_of (leaves t) key = Some (x, v)"
      using look by (auto simp: lookup_def)
    then show ?thesis
      using nth_rank [of "leaves t" key "(x, v)"] assms rank
      by (simp add: node_getByIndex_wf tree_inv_def)
  qed
  then show ?thesis
    using get rank assms by (auto simp: node_getByIndex_wf tree_inv_def)
qed


section \<open>Instances\<close>

lemma two_leaves_inv: "tree_inv (Branch 1 2 7 [3] (Leaf 5 [1] [10]) (Leaf 7 [3] [30]))"
  by (simp add: tree_inv_def)

theorem setRecursive_correct_witness:
  "\<exists>t. setRecursive (Some (Branch 1 2 7 [3] (Leaf 5 [1] [10]) (Leaf 7 [3] [30]))) [2] [20] 8 = Some (t, False) \<and>
    leaves t = [([1], [10], 5), ([2], [20], 8), ([3], [30], 7)]"
  using setRecursive_correct [of "Some (Branch 1 2 7 [3] (Leaf 5 [1] [10]) (Leaf 7 [3] [30]))" "[2]" "[20]" 8]
    two_leaves_inv by (auto simp: lookup_def)

theorem removeRecursive_correct_witness:
  "\<exists>root' newKey. removeRecursive (Some (Branch 1 2 7 [3] (Leaf 5 [1] [10]) (Leaf 7 [3] [30]))) [1] 8 =
      Some (Some [10], root', newKey) \<and> root_leaves root' = [([3], [30], 7)]"
  using removeRecursive_correct [of "Some (Branch 1 2 7 [3] (Leaf 5 [1] [10]) (Leaf 7 [3] [30]))" "[1]" 8]
    two_leaves_inv by (auto simp: lookup_def)

theorem get_and_getByIndex_correct_witness:
  "node_getByIndex (Branch 1 2 7 [3] (Leaf 5 [1] [10]) (Leaf 7 [3] [30]))
     (snd (node_get (Branch 1 2 7 [3] (Leaf 5 [1] [10]) (Leaf 7 [3] [30])) [3])) = Some ([3], [30])"
  using get_and_getByIndex_correct [OF two_leaves_inv, of "[3]"] by (simp add: lookup_def)


end
