(* ===== verification/Go_Binary.thy ===== *)
theory Go_Binary
  imports Prelude
begin

text \<open>
  The parts of Go's \<open>encoding/binary\<close> that the sources use: little-endian integers and
  the variable-length integers of \<open>PutUvarint\<close>, \<open>PutVarint\<close>, \<open>Uvarint\<close> and \<open>ReadUvarint\<close>.
  A \<open>Put\<close> function is modelled by the bytes it writes.
\<close>

unbundle bit_operations_syntax

section \<open>Fixed width\<close>

definition le_put32 :: "u32 \<Rightarrow> bytes" where
  "le_put32 v = [ucast v, ucast (drop_bit 8 v), ucast (drop_bit 16 v), ucast (drop_bit 24 v)]"

fun le_uint32 :: "bytes \<Rightarrow> u32 option" where
  "le_uint32 (b0 # b1 # b2 # b3 # rest) =
     Some (ucast b0 OR push_bit 8 (ucast b1) OR push_bit 16 (ucast b2) OR push_bit 24 (ucast b3))"
| "le_uint32 _ = None"

definition le_put64 :: "u64 \<Rightarrow> bytes" where
  "le_put64 v = le_put32 (ucast v) @ le_put32 (ucast (drop_bit 32 v))"

definition le_uint64 :: "bytes \<Rightarrow> u64 option" where
  "le_uint64 b = (case (le_uint32 b, le_uint32 (drop 4 b)) of
     (Some lo, Some hi) \<Rightarrow> Some (ucast lo OR push_bit 32 (ucast hi)) | _ \<Rightarrow> None)"

section \<open>Variable length\<close>

function putUvarint :: "u64 \<Rightarrow> bytes" where
  "putUvarint x = (if x \<ge> 0x80 then (ucast x OR 0x80) # putUvarint (drop_bit 7 x) else [ucast x])"
  by auto
termination
  by (relation "measure unat") (auto simp: drop_bit_eq_div unat_div word_le_nat_alt)

declare putUvarint.simps [simp del]

text \<open>\<open>PutVarint\<close> of an \<open>int64\<close>, given by its two's complement.\<close>

definition putVarint :: "u64 \<Rightarrow> bytes" where
  "putVarint x = (let ux = push_bit 1 x in putUvarint (if sint x < 0 then NOT ux else ux))"

text \<open>
  \<open>Uvarint\<close>: the value and the number of bytes read; 0 when the buffer is too small,
  negative on overflow.
\<close>

fun uvarint_loop :: "nat \<Rightarrow> u64 \<Rightarrow> nat \<Rightarrow> bytes \<Rightarrow> u64 \<times> int" where
  "uvarint_loop i x s [] = (0, 0)"
| "uvarint_loop i x s (b # buf) =
     (if i = 10 then (0, - (int i + 1))
      else if b < 0x80 then
        (if i = 9 \<and> b > 1 then (0, - (int i + 1)) else (x OR push_bit s (ucast b), int i + 1))
      else uvarint_loop (i + 1) (x OR push_bit s (ucast (b AND 0x7f))) (s + 7) buf)"

definition uvarint :: "bytes \<Rightarrow> u64 \<times> int" where
  "uvarint buf = uvarint_loop 0 0 0 buf"

text \<open>\<open>ReadUvarint\<close> on a byte reader: the value and the rest of the stream.\<close>

fun readUvarint_loop :: "nat \<Rightarrow> u64 \<Rightarrow> nat \<Rightarrow> bytes \<Rightarrow> (u64 \<times> bytes) res" where
  "readUvarint_loop i x s [] =
     (if i \<ge> 10 then Inl (Error ''binary: varint overflows a 64-bit integer'')
      else if i > 0 then Inl (Error ''unexpected EOF'') else Inl (Error ''EOF''))"
| "readUvarint_loop i x s (b # r) =
     (if i \<ge> 10 then Inl (Error ''binary: varint overflows a 64-bit integer'')
      else if b < 0x80 then
        (if i = 9 \<and> b > 1 then Inl (Error ''binary: varint overflows a 64-bit integer'')
         else Inr (x OR push_bit s (ucast b), r))
      else readUvarint_loop (i + 1) (x OR push_bit s (ucast (b AND 0x7f))) (s + 7) r)"

definition readUvarint :: "bytes \<Rightarrow> (u64 \<times> bytes) res" where
  "readUvarint r = readUvarint_loop 0 0 0 r"

section \<open>Round trips of fixed-width integers\<close>

lemma length_le_put [simp]: "length (le_put32 v) = 4" "length (le_put64 w) = 8"
  by (simp_all add: le_put32_def le_put64_def)

lemma le_uint32_put [simp]: "le_uint32 (le_put32 v @ rest) = Some v"
proof -
  have "ucast (ucast v :: u8) OR push_bit 8 (ucast (ucast (drop_bit 8 v) :: u8)) OR
      push_bit 16 (ucast (ucast (drop_bit 16 v) :: u8)) OR
      push_bit 24 (ucast (ucast (drop_bit 24 v) :: u8)) = v" (is "?w = v")
  proof (rule bit_word_eqI)
    show "bit ?w n = bit v n" if "n < LENGTH(32)" for n
      using that by (cases "n < 8"; cases "n < 16"; cases "n < 24") (auto simp: bit_simps)
  qed
  then show ?thesis
    by (simp add: le_put32_def)
qed

lemma le_uint64_put [simp]: "le_uint64 (le_put64 v @ rest) = Some v"
proof -
  have "ucast (ucast v :: u32) OR push_bit 32 (ucast (ucast (drop_bit 32 v) :: u32)) = v"
    by (rule bit_word_eqI) (auto simp: bit_simps)
  then show ?thesis
    by (simp add: le_put64_def le_uint64_def)
qed

lemma le_uint_put_only [simp]: "le_uint32 (le_put32 v) = Some v" "le_uint64 (le_put64 w) = Some w"
  using le_uint32_put [of v "[]"] le_uint64_put [of w "[]"] by simp_all

section \<open>Round trips of variable-length integers\<close>

lemma low7: "x AND 0x7f = take_bit 7 (x :: 'a::len word)"
  by (simp add: take_bit_eq_mask mask_eq_exp_minus_1)

lemma take_bit_step:
  "take_bit s x OR push_bit s (take_bit 7 (drop_bit s x)) = take_bit (s + 7) (x :: u64)"
  by (rule bit_word_eqI) (auto simp: bit_simps)

lemma take_bit_last: "take_bit s x OR push_bit s (drop_bit s x) = (x :: u64)"
proof (rule bit_word_eqI)
  show "bit (take_bit s x OR push_bit s (drop_bit s x)) n = bit x n" if "n < LENGTH(64)" for n
    using that by (cases "n < s") (auto simp: bit_simps)
qed

lemma high_bit_set: "\<not> (b OR 0x80) < (0x80 :: u8)"
  by (simp add: le_word_or1 not_less)

lemma payload7: "ucast ((ucast y OR 0x80) AND (0x7f :: u8)) = take_bit 7 (y :: u64)"
  unfolding low7 by (rule bit_word_eqI) (auto simp: bit_simps)

lemma drop_bit_63: "drop_bit 63 (x :: u64) \<le> 1"
proof -
  have "unat x < 2 * 2 ^ 63"
    using unsigned_less [of x] by simp
  then have "unat x div 2 ^ 63 < 2"
    using less_mult_imp_div_less by blast
  then show ?thesis
    by (simp add: word_le_nat_alt drop_bit_eq_div unat_div)
qed

lemma small_byte:
  assumes "y < (0x80 :: u64)"
  shows "ucast (ucast y :: u8) = y" "(ucast y :: u8) < 0x80" "(ucast y :: u8) > 1 \<longleftrightarrow> y > 1"
proof -
  have u: "unat (ucast y :: u8) = unat y"
    using assms by (simp add: word_less_nat_alt word_conv)
  show "(ucast y :: u8) < 0x80" "(ucast y :: u8) > 1 \<longleftrightarrow> y > 1"
    using assms by (simp_all add: word_less_nat_alt u)
  show "ucast (ucast y :: u8) = y"
    using u by (metis of_nat_unat ucast_id)
qed

lemma putUvarint_small: "y < 0x80 \<Longrightarrow> putUvarint y = [ucast y]"
  by (subst putUvarint.simps) (simp only: not_le [symmetric] if_False)

lemma putUvarint_large:
  "\<not> y < 0x80 \<Longrightarrow> putUvarint y = (ucast y OR 0x80) # putUvarint (drop_bit 7 y)"
  using putUvarint.simps [of y] by (simp only: not_less if_True)

lemma uvarint_loop_put:
  assumes "i \<le> 9"
  shows "uvarint_loop i (take_bit (7 * i) x) (7 * i) (putUvarint (drop_bit (7 * i) x) @ rest) =
    (x, int (i + length (putUvarint (drop_bit (7 * i) x))))"
  using assms
proof (induction "9 - i" arbitrary: i)
  case 0
  have "drop_bit 63 x < 0x80" "\<not> drop_bit 63 x > 1"
    using drop_bit_63 [of x] by (simp_all add: word_le_nat_alt word_less_nat_alt)
  then show ?case
    using 0 small_byte [of "drop_bit 63 x"] take_bit_last [of 63 x]
    by (simp add: putUvarint_small)
next
  case (Suc d)
  let ?y = "drop_bit (7 * i) x"
  have i: "i < 9" using Suc by simp
  show ?case
  proof (cases "?y < 0x80")
    case True
    then show ?thesis
      using small_byte [OF True] take_bit_last [of "7 * i" x] i by (simp add: putUvarint_small)
  next
    case False
    have next_byte: "drop_bit 7 ?y = drop_bit (7 * Suc i) x"
      by (simp add: drop_bit_drop_bit add.commute)
    have "uvarint_loop i (take_bit (7 * i) x) (7 * i) (putUvarint ?y @ rest) =
      uvarint_loop (Suc i) (take_bit (7 * Suc i) x) (7 * Suc i) (putUvarint (drop_bit 7 ?y) @ rest)"
      using False i take_bit_step [of "7 * i" x]
      by (simp add: putUvarint_large high_bit_set payload7 add.commute)
    then show ?thesis
      using Suc.hyps(1) [of "Suc i"] Suc.hyps(2) i False next_byte
      by (simp add: putUvarint_large)
  qed
qed

lemma uvarint_put: "uvarint (putUvarint x @ rest) = (x, int (length (putUvarint x)))"
  using uvarint_loop_put [of 0 x rest] by (simp add: uvarint_def)

text \<open>\<open>Uvarint\<close> and \<open>ReadUvarint\<close> agree: one reports the bytes read, the other consumes them.\<close>

lemma uvarint_loop_shift:
  "uvarint_loop i x s buf = (y, n) \<Longrightarrow> 0 < n \<Longrightarrow> i < nat n"
  by (induction i x s buf rule: uvarint_loop.induct) (fastforce split: if_splits)+

lemma readUvarint_loop_uvarint:
  "uvarint_loop i x s buf = (y, n) \<Longrightarrow> 0 < n \<Longrightarrow> i \<le> 10 \<Longrightarrow>
   readUvarint_loop i x s buf = Inr (y, drop (nat n - i) buf)"
proof (induction i x s buf rule: uvarint_loop.induct)
  case (2 i x s b buf)
  show ?case
  proof (cases "b < 0x80")
    case False
    with 2 show ?thesis
      using uvarint_loop_shift [of "i + 1" "x OR push_bit s (ucast (b AND 0x7f))" "s + 7" buf y n]
      by (auto split: if_splits simp: drop_Cons')
  qed (use 2 in \<open>auto split: if_splits simp: nat_add_distrib\<close>)
qed simp

lemma readUvarint_put: "readUvarint (putUvarint x @ rest) = Inr (x, rest)"
proof -
  have "0 < length (putUvarint x)"
    by (simp add: putUvarint.simps [of x])
  then show ?thesis
    using readUvarint_loop_uvarint [OF uvarint_put [of x rest, unfolded uvarint_def]]
    by (simp add: readUvarint_def)
qed

text \<open>A varint fits the buffers of \<open>MaxVarintLen64\<close> bytes.\<close>

lemma uvarint_loop_bound: "i \<le> 10 \<Longrightarrow> uvarint_loop i x s buf = (y, n) \<Longrightarrow> n \<le> 10"
  by (induction i x s buf rule: uvarint_loop.induct) (auto split: if_splits)

lemma length_putUvarint: "length (putUvarint x) \<le> 10"
  using uvarint_loop_bound [OF _ uvarint_put [of x "[]", unfolded uvarint_def]] by simp

end
