(* ===== verification/Sha256.thy ===== *)
theory Sha256
  imports Prelude
begin

text \<open>
  \<open>Sum256\<close> of Go's \<open>crypto/sha256\<close>: the hash function of FIPS 180-4 on byte strings. The
  sources hash the nodes of a tree with it; the development uses that it is a function
  into strings of 32 bytes.
\<close>

unbundle bit_operations_syntax

text \<open>
  The constants are the first 32 bits of the fractional parts of the cube roots of the
  first 64 primes, and of the square roots of the first eight, in decimal.
\<close>

definition sha256_k :: "u32 list" where
  "sha256_k =
  [1116352408, 1899447441, 3049323471, 3921009573, 961987163, 1508970993, 2453635748, 2870763221,
   3624381080, 310598401, 607225278, 1426881987, 1925078388, 2162078206, 2614888103, 3248222580,
   3835390401, 4022224774, 264347078, 604807628, 770255983, 1249150122, 1555081692, 1996064986,
   2554220882, 2821834349, 2952996808, 3210313671, 3336571891, 3584528711, 113926993, 338241895,
   666307205, 773529912, 1294757372, 1396182291, 1695183700, 1986661051, 2177026350, 2456956037,
   2730485921, 2820302411, 3259730800, 3345764771, 3516065817, 3600352804, 4094571909, 275423344,
   430227734, 506948616, 659060556, 883997877, 958139571, 1322822218, 1537002063, 1747873779,
   1955562222, 2024104815, 2227730452, 2361852424, 2428436474, 2756734187, 3204031479, 3329325298]"

type_synonym sha256_state = "u32 \<times> u32 \<times> u32 \<times> u32 \<times> u32 \<times> u32 \<times> u32 \<times> u32"

definition sha256_init :: sha256_state where
  "sha256_init = (1779033703, 3144134277, 1013904242, 2773480762,
     1359893119, 2600822924, 528734635, 1541459225)"

definition sha256_pad :: "bytes \<Rightarrow> bytes" where
  "sha256_pad msg =
     (let n = length msg; w = of_nat (8 * n) :: u64
      in msg @ 0x80 # replicate ((119 - n mod 64) mod 64) 0 @ map (\<lambda>i. ucast (drop_bit (8 * i) w)) [7, 6, 5, 4, 3, 2, 1, 0])"

fun be_words :: "bytes \<Rightarrow> u32 list" where
  "be_words (a # b # c # d # rest) =
     (push_bit 24 (ucast a) OR push_bit 16 (ucast b) OR push_bit 8 (ucast c) OR ucast d) # be_words rest"
| "be_words _ = []"

text \<open>The message schedule is extended one word at a time; the list holds it in reverse.\<close>

fun sha256_schedule :: "nat \<Rightarrow> u32 list \<Rightarrow> u32 list" where
  "sha256_schedule 0 ws = ws"
| "sha256_schedule (Suc n) ws =
     (let v1 = ws ! 1; v2 = ws ! 14;
          t1 = word_rotr 17 v1 XOR word_rotr 19 v1 XOR drop_bit 10 v1;
          t2 = word_rotr 7 v2 XOR word_rotr 18 v2 XOR drop_bit 3 v2
      in sha256_schedule n ((t1 + ws ! 6 + t2 + ws ! 15) # ws))"

fun sha256_round :: "u32 \<times> u32 \<Rightarrow> sha256_state \<Rightarrow> sha256_state" where
  "sha256_round (k, w) (a, b, c, d, e, f, g, h) =
     (let t1 = h + (word_rotr 6 e XOR word_rotr 11 e XOR word_rotr 25 e) + ((e AND f) XOR (NOT e AND g)) + k + w;
          t2 = (word_rotr 2 a XOR word_rotr 13 a XOR word_rotr 22 a) + ((a AND b) XOR (a AND c) XOR (b AND c))
      in (t1 + t2, a, b, c, d + t1, e, f, g))"

fun sha256_add :: "sha256_state \<Rightarrow> sha256_state \<Rightarrow> sha256_state" where
  "sha256_add (a, b, c, d, e, f, g, h) (a', b', c', d', e', f', g', h') =
     (a + a', b + b', c + c', d + d', e + e', f + f', g + g', h + h')"

definition sha256_block :: "bytes \<Rightarrow> sha256_state \<Rightarrow> sha256_state" where
  "sha256_block p st =
     sha256_add st (fold sha256_round (zip sha256_k (rev (sha256_schedule 48 (rev (be_words p))))) st)"

function sha256_blocks :: "bytes \<Rightarrow> sha256_state \<Rightarrow> sha256_state" where
  "sha256_blocks p st =
     (if length p < 64 then st else sha256_blocks (drop 64 p) (sha256_block (take 64 p) st))"
  by auto
termination
  by (relation "measure (\<lambda>(p, st). length p)") auto

declare sha256_blocks.simps [simp del]

definition be_put32 :: "u32 \<Rightarrow> bytes" where
  "be_put32 v = [ucast (drop_bit 24 v), ucast (drop_bit 16 v), ucast (drop_bit 8 v), ucast v]"

fun sha256_digest :: "sha256_state \<Rightarrow> bytes" where
  "sha256_digest (a, b, c, d, e, f, g, h) = concat (map be_put32 [a, b, c, d, e, f, g, h])"

definition sha256 :: "bytes \<Rightarrow> bytes" where
  "sha256 msg = sha256_digest (sha256_blocks (sha256_pad msg) sha256_init)"

lemma length_sha256 [simp]: "length (sha256 msg) = 32"
  unfolding sha256_def
  by (cases "sha256_blocks (sha256_pad msg) sha256_init" rule: sha256_digest.cases)
     (simp add: be_put32_def)

text \<open>The padded message is a whole number of blocks: the loop over blocks drops no byte.\<close>

lemma sha256_pad_arith: "r < 64 \<Longrightarrow> 64 dvd 64 * q + r + 9 + (119 - r) mod 64" for q r :: nat
proof -
  assume r: "r < 64"
  show ?thesis
  proof (cases "r \<le> 55")
    case True
    then have "119 - r = (55 - r) + 64" by simp
    then have "(119 - r) mod 64 = 55 - r" by (simp only: mod_add_self2) simp
    then have "64 * q + r + 9 + (119 - r) mod 64 = 64 * (q + 1)"
      using True by simp
    then show ?thesis by (metis dvd_triv_left)
  next
    case False
    then have "64 * q + r + 9 + (119 - r) mod 64 = 64 * (q + 2)"
      using r by simp
    then show ?thesis by (metis dvd_triv_left)
  qed
qed

lemma length_sha256_pad: "64 dvd length (sha256_pad msg)"
proof -
  have "length (sha256_pad msg) = length msg + 9 + (119 - length msg mod 64) mod 64"
    by (simp add: sha256_pad_def Let_def)
  then show ?thesis
    using sha256_pad_arith [of "length msg mod 64" "length msg div 64"] by simp
qed

end
