(* ===== verification/Node_Hash.thy ===== *)
theory Node_Hash
  imports Mem_Node Go_Binary Sha256
begin

text \<open>
  The hash of a node: \<open>EncodeBytes\<close> of \<open>src/memiavl/mem_node.go\<close>, \<open>writeHashBytes\<close>,
  \<open>HashNode\<close> and \<open>VerifyHash\<close> of \<open>src/memiavl/node.go\<close>, and the root hash of a tree. The
  writer is a hash state, which never fails, so the error returns of \<open>writeHashBytes\<close> do
  not occur.
\<close>

definition encodeBytes :: "bytes \<Rightarrow> bytes" where
  "encodeBytes bz = putUvarint (of_nat (length bz)) @ bz"

fun writeHashBytes :: "node \<Rightarrow> bytes" where
  "writeHashBytes (Leaf v k x) =
     putVarint 0 @ putVarint 1 @ putVarint (ucast v) @ encodeBytes k @ encodeBytes (sha256 x)"
| "writeHashBytes (Branch h s v k l r) =
     putVarint (ucast h) @ putVarint s @ putVarint (ucast v) @
     encodeBytes (sha256 (writeHashBytes l)) @ encodeBytes (sha256 (writeHashBytes r))"

definition hashNode :: "node \<Rightarrow> bytes" where
  "hashNode node = sha256 (writeHashBytes node)"

definition emptyHash :: bytes where
  "emptyHash = sha256 []"

definition rootHash :: "node option \<Rightarrow> bytes" where
  "rootHash root = (case root of None \<Rightarrow> emptyHash | Some t \<Rightarrow> hashNode t)"

lemma length_hashNode [simp]: "length (hashNode t) = 32"
  by (simp add: hashNode_def)

section \<open>The encoding is injective\<close>

lemma putUvarint_cancel:
  assumes "putUvarint x @ a = putUvarint y @ b"
  shows "x = y \<and> a = b"
  by (metis assms readUvarint_put Inr_inject prod.inject)

definition zigzag :: "u64 \<Rightarrow> u64" where
  "zigzag x = (if sint x < 0 then NOT (push_bit 1 x) else push_bit 1 x)"

lemma sint_neg: "sint x < 0 \<longleftrightarrow> bit x 63" for x :: u64
  using bit_last_iff [of x] by simp

lemma bit_zigzag: "n < 64 \<Longrightarrow> bit (zigzag x) n = (bit x 63 \<noteq> (0 < n \<and> bit x (n - 1)))"
proof -
  assume n: "n < 64"
  have push: "bit (push_bit 1 x) n = (0 < n \<and> bit x (n - 1))"
    unfolding bit_push_bit_iff using n by auto
  show ?thesis
    unfolding zigzag_def sint_neg if_distrib [of "\<lambda>w. bit w n"] bit_not_iff push using n by auto
qed

lemma zigzag_inj: "x = y" if "zigzag x = zigzag y"
proof (rule bit_word_eqI)
  have *: "bit (zigzag x) n = bit (zigzag y) n" for n
    using that by simp
  then have sign: "bit x 63 = bit y 63"
    using bit_zigzag [of 0 x] bit_zigzag [of 0 y] by auto
  show "bit x n = bit y n" if "n < LENGTH(64)" for n
    using that sign * [of "Suc n"] bit_zigzag [of "Suc n" x] bit_zigzag [of "Suc n" y]
    by (cases "n = 63") auto
qed

lemma putVarint_cancel:
  assumes "putVarint x @ a = putVarint y @ b"
  shows "x = y \<and> a = b"
proof -
  have "putUvarint (zigzag x) @ a = putUvarint (zigzag y) @ b"
    using assms by (simp only: putVarint_def Let_def zigzag_def)
  then show ?thesis
    using putUvarint_cancel zigzag_inj by blast
qed

lemma encodeBytes_cancel:
  assumes "encodeBytes x @ a = encodeBytes y @ b" "length x < 2 ^ 64" "length y < 2 ^ 64"
  shows "x = y \<and> a = b"
proof -
  have "(of_nat (length x) :: u64) = of_nat (length y)" and *: "x @ a = y @ b"
    using assms(1) putUvarint_cancel [of _ "x @ a" _ "y @ b"] by (auto simp: encodeBytes_def)
  then have "unat (of_nat (length x) :: u64) = unat (of_nat (length y) :: u64)"
    by simp
  then have "length x = length y"
    using assms(2,3) by (simp add: word_conv)
  with * show ?thesis by simp
qed

section \<open>The root hash binds the tree\<close>

text \<open>The strings that are hashed while the hash of a node is computed.\<close>

fun hashed :: "node \<Rightarrow> bytes set" where
  "hashed (Leaf v k x) = {x, writeHashBytes (Leaf v k x)}"
| "hashed (Branch h s v k l r) = insert (writeHashBytes (Branch h s v k l r)) (hashed l \<union> hashed r)"

lemma hashed_self: "writeHashBytes t \<in> hashed t"
  by (cases t) auto

text \<open>Keys shorter than 2^64 bytes, as every slice is.\<close>

definition short_keys :: "node \<Rightarrow> bool" where
  "short_keys t = (\<forall>x \<in> set (leaves t). length (fst x) < 2 ^ 64)"

definition collision :: "bytes set \<Rightarrow> bytes set \<Rightarrow> bool" where
  "collision A B = (\<exists>x \<in> A. \<exists>y \<in> B. x \<noteq> y \<and> sha256 x = sha256 y)"

lemma no_collision:
  "\<not> collision A B \<Longrightarrow> x \<in> A \<Longrightarrow> y \<in> B \<Longrightarrow> sha256 x = sha256 y \<Longrightarrow> x = y"
  by (auto simp: collision_def)

lemma writeHashBytes_inj:
  assumes "wf_node t1" "wf_node t2" "short_keys t1" "short_keys t2"
    "\<not> collision (hashed t1) (hashed t2)" "writeHashBytes t1 = writeHashBytes t2"
  shows "t1 = t2"
  using assms
proof (induction t1 arbitrary: t2)
  case (Leaf v k x)
  show ?case
  proof (cases t2)
    case t2: (Leaf v' k' x')
    have "(ucast v :: u64) = ucast v' \<and> encodeBytes k @ encodeBytes (sha256 x) = encodeBytes k' @ encodeBytes (sha256 x')"
      using Leaf.prems(6) by (auto simp: t2 dest!: putVarint_cancel)
    moreover from this have "k = k' \<and> encodeBytes (sha256 x) @ [] = encodeBytes (sha256 x') @ []"
      using encodeBytes_cancel [of k _ k'] Leaf.prems(3,4) t2 by (auto simp: short_keys_def)
    moreover from this have "sha256 x = sha256 x'"
      using encodeBytes_cancel [of "sha256 x" "[]" "sha256 x'" "[]"] by simp
    moreover from this have "x = x'"
      using no_collision [OF Leaf.prems(5), of x x'] t2 by simp
    ultimately show ?thesis
      by (simp add: t2 ucast_up_inject)
  next
    case t2: (Branch h' s' v' k' l' r')
    have "(0 :: u64) = ucast h'"
      using Leaf.prems(6) by (auto simp: t2 dest!: putVarint_cancel)
    then have "h' = 0"
      using ucast_up_inject [of 0 h', where 'b = 64] by simp
    then show ?thesis
      using Leaf.prems(2) t2 by simp
  qed
next
  case (Branch h s v k l r)
  show ?case
  proof (cases t2)
    case t2: (Leaf v' k' x')
    have "(ucast h :: u64) = 0"
      using Branch.prems(6) by (auto simp: t2 dest!: putVarint_cancel)
    then have "h = 0"
      using ucast_up_inject [of h 0, where 'b = 64] by simp
    then show ?thesis
      using Branch.prems(1) by simp
  next
    case t2: (Branch h' s' v' k' l' r')
    let ?L = "sha256 (writeHashBytes l)" and ?R = "sha256 (writeHashBytes r)"
    let ?L' = "sha256 (writeHashBytes l')" and ?R' = "sha256 (writeHashBytes r')"
    have f: "(ucast h :: u64) = ucast h' \<and> s = s' \<and> (ucast v :: u64) = ucast v' \<and>
        encodeBytes ?L @ encodeBytes ?R = encodeBytes ?L' @ encodeBytes ?R'"
      using Branch.prems(6) by (auto simp: t2 dest!: putVarint_cancel)
    then have "?L = ?L' \<and> encodeBytes ?R @ [] = encodeBytes ?R' @ []"
      using encodeBytes_cancel [of ?L "encodeBytes ?R" ?L' "encodeBytes ?R'"] by simp
    moreover from this have "?R = ?R'"
      using encodeBytes_cancel [of ?R "[]" ?R' "[]"] by simp
    ultimately have "writeHashBytes l = writeHashBytes l'" "writeHashBytes r = writeHashBytes r'"
      using no_collision [OF Branch.prems(5)] hashed_self t2 by (metis UnCI hashed.simps(2) insertCI)+
    then have "l = l'" "r = r'"
      using Branch.IH Branch.prems t2 by (auto simp: short_keys_def collision_def)
    then show ?thesis
      using f Branch.prems(1,2) t2 by (simp add: ucast_up_inject)
  qed
qed



end
