(* ===== verification/Snapshot.thy ===== *)
theory Snapshot
  imports Node_Hash
begin

text \<open>
  Snapshots on disk: the file layout of \<open>src/memiavl/layout_little_endian.go\<close>, the reader and
  the writer of \<open>src/memiavl/snapshot.go\<close>, and \<open>PersistedNode\<close>
  (\<open>src/memiavl/persisted_node.go\<close>), the node that lives in the mapped files. A file is its
  contents; the failures of the file system itself are not modelled. \<open>None\<close> is the panic of
  a slice that leaves the mapped file.
\<close>

section \<open>File layout\<close>

abbreviation (input) SizeHash :: nat where "SizeHash \<equiv> 32"
abbreviation (input) SizeNode :: nat where "SizeNode \<equiv> 48"
abbreviation (input) SizeLeaf :: nat where "SizeLeaf \<equiv> 48"
abbreviation (input) SizeMetadata :: nat where "SizeMetadata \<equiv> 12"

definition SnapshotFileMagic :: u32 where "SnapshotFileMagic = 1280721225"
definition SnapshotFormat :: u32 where "SnapshotFormat = 0"

text \<open>\<open>NodeLayout\<close> and \<open>LeafLayout\<close>: 48 bytes with little-endian fields.\<close>

definition layout_Node :: "bytes \<Rightarrow> u32 \<Rightarrow> bytes option" where
  "layout_Node data i = slice data (unat i * SizeNode) (unat i * SizeNode + SizeNode)"

definition node_Height :: "bytes \<Rightarrow> u8" where "node_Height d = d ! 0"
definition node_PreTrees :: "bytes \<Rightarrow> u8" where "node_PreTrees d = d ! 1"
definition node_Version :: "bytes \<Rightarrow> u32 option" where "node_Version d = slice d 4 8 \<bind> le_uint32"
definition node_Size :: "bytes \<Rightarrow> u32 option" where "node_Size d = slice d 8 12 \<bind> le_uint32"
definition node_KeyLeaf :: "bytes \<Rightarrow> u32 option" where "node_KeyLeaf d = slice d 12 16 \<bind> le_uint32"
definition node_Hash :: "bytes \<Rightarrow> bytes option" where "node_Hash d = slice d 16 48"

definition layout_Leaf :: "bytes \<Rightarrow> u32 \<Rightarrow> bytes option" where
  "layout_Leaf data i = slice data (unat i * SizeLeaf) (unat i * SizeLeaf + SizeLeaf)"

definition leaf_Version :: "bytes \<Rightarrow> u32 option" where "leaf_Version d = slice d 0 4 \<bind> le_uint32"
definition leaf_KeyLength :: "bytes \<Rightarrow> u32 option" where "leaf_KeyLength d = slice d 4 8 \<bind> le_uint32"
definition leaf_KeyOffset :: "bytes \<Rightarrow> u64 option" where "leaf_KeyOffset d = slice d 8 16 \<bind> le_uint64"
definition leaf_Hash :: "bytes \<Rightarrow> bytes option" where "leaf_Hash d = slice d 16 48"

section \<open>Snapshots\<close>

text \<open>A \<open>PersistedNode\<close> names a leaf or a branch of the snapshot by its index.\<close>

record persisted_node =
  p_isLeaf :: bool
  p_index :: u32

record snapshot =
  snap_nodes :: bytes
  snap_leaves :: bytes
  snap_kvs :: bytes
  snap_version :: u32
  snap_root :: "persisted_node option"

record snapshot_dir =
  file_metadata :: bytes
  file_nodes :: bytes
  file_leaves :: bytes
  file_kvs :: bytes

definition NewEmptySnapshot :: "u32 \<Rightarrow> snapshot" where
  "NewEmptySnapshot version =
     \<lparr>snap_nodes = [], snap_leaves = [], snap_kvs = [], snap_version = version, snap_root = None\<rparr>"

definition OpenSnapshot :: "snapshot_dir \<Rightarrow> snapshot res" where
  "OpenSnapshot dir =
     (let bz = file_metadata dir; nodes = file_nodes dir; leaves = file_leaves dir in
      if length bz \<noteq> SizeMetadata then Inl (Error ''wrong metadata file size'')
      else if le_uint32 bz \<noteq> Some SnapshotFileMagic then Inl (Error ''invalid metadata file magic'')
      else if le_uint32 (drop 4 bz) \<noteq> Some SnapshotFormat then Inl (Error ''unknown snapshot format'')
      else if length nodes mod SizeNode \<noteq> 0 then
        Inl (Error ''corrupted snapshot, nodes file size is not a multiple'')
      else if length leaves mod SizeLeaf \<noteq> 0 then
        Inl (Error ''corrupted snapshot, leaves file size is not a multiple'')
      else let nodesLen = length nodes div SizeNode; leavesLen = length leaves div SizeLeaf in
        if (leavesLen > 0 \<and> nodesLen + 1 \<noteq> leavesLen) \<or> (leavesLen = 0 \<and> nodesLen \<noteq> 0) then
          Inl (Error ''corrupted snapshot, branch nodes size don't match leaves size'')
        else (case le_uint32 (drop 8 bz) of
            None \<Rightarrow> Inl (Panic ''index out of range'')
          | Some version \<Rightarrow> Inr
              \<lparr>snap_nodes = nodes, snap_leaves = leaves, snap_kvs = file_kvs dir, snap_version = version,
               snap_root =
                 (if nodesLen > 0 then Some \<lparr>p_isLeaf = False, p_index = of_nat (nodesLen - 1)\<rparr>
                  else if leavesLen > 0 then Some \<lparr>p_isLeaf = True, p_index = 0\<rparr>
                  else None)\<rparr>))"

definition snap_Close :: "snapshot \<Rightarrow> snapshot" where
  "snap_Close snapshot = NewEmptySnapshot (snap_version snapshot)"

definition snap_IsEmpty :: "snapshot \<Rightarrow> bool" where
  "snap_IsEmpty snapshot = (snap_root snapshot = None)"

definition nodesLen :: "snapshot \<Rightarrow> nat" where
  "nodesLen snapshot = length (snap_nodes snapshot) div SizeNode"

definition leavesLen :: "snapshot \<Rightarrow> nat" where
  "leavesLen snapshot = length (snap_leaves snapshot) div SizeLeaf"

text \<open>\<open>Key\<close> and \<open>KeyValue\<close> read a length-prefixed entry of the kvs file at an offset.\<close>

definition snap_Key :: "snapshot \<Rightarrow> u64 \<Rightarrow> bytes option" where
  "snap_Key snapshot offset = do {
     keyLen \<leftarrow> le_uint32 (drop (unat offset) (snap_kvs snapshot));
     let offset = offset + 4;
     slice (snap_kvs snapshot) (unat offset) (unat (offset + ucast keyLen))
   }"

definition snap_KeyValue :: "snapshot \<Rightarrow> u64 \<Rightarrow> (bytes \<times> bytes) option" where
  "snap_KeyValue snapshot offset = do {
     len \<leftarrow> le_uint32 (drop (unat offset) (snap_kvs snapshot));
     let offset = offset + 4;
     key \<leftarrow> slice (snap_kvs snapshot) (unat offset) (unat (offset + ucast len));
     let offset = offset + ucast len;
     len \<leftarrow> le_uint32 (drop (unat offset) (snap_kvs snapshot));
     let offset = offset + 4;
     val \<leftarrow> slice (snap_kvs snapshot) (unat offset) (unat (offset + ucast len));
     Some (key, val)
   }"

definition LeafKey :: "snapshot \<Rightarrow> u32 \<Rightarrow> bytes option" where
  "LeafKey snapshot index = do {
     leaf \<leftarrow> layout_Leaf (snap_leaves snapshot) index;
     keyOffset \<leftarrow> leaf_KeyOffset leaf;
     keyLength \<leftarrow> leaf_KeyLength leaf;
     let offset = keyOffset + 4;
     slice (snap_kvs snapshot) (unat offset) (unat (offset + ucast keyLength))
   }"

definition LeafKeyValue :: "snapshot \<Rightarrow> u32 \<Rightarrow> (bytes \<times> bytes) option" where
  "LeafKeyValue snapshot index = do {
     leaf \<leftarrow> layout_Leaf (snap_leaves snapshot) index;
     keyOffset \<leftarrow> leaf_KeyOffset leaf;
     keyLength \<leftarrow> leaf_KeyLength leaf;
     let offset = keyOffset + 4;
     key \<leftarrow> slice (snap_kvs snapshot) (unat offset) (unat (offset + ucast keyLength));
     let offset = offset + ucast keyLength;
     len \<leftarrow> le_uint32 (drop (unat offset) (snap_kvs snapshot));
     let offset = offset + 4;
     val \<leftarrow> slice (snap_kvs snapshot) (unat offset) (unat (offset + ucast len));
     Some (key, val)
   }"

section \<open>Persisted nodes\<close>

definition getStartLeaf :: "u32 \<Rightarrow> u32 \<Rightarrow> u32 \<Rightarrow> u32" where
  "getStartLeaf index count preTrees = index + 2 - count + preTrees"

definition getEndLeaf :: "u32 \<Rightarrow> u32 \<Rightarrow> u32" where
  "getEndLeaf index preTrees = index + preTrees + 1"

definition getLeftBranch :: "u32 \<Rightarrow> u32 \<Rightarrow> u32" where
  "getLeftBranch keyLeaf preTrees = keyLeaf - preTrees - 2"

definition branchNode :: "snapshot \<Rightarrow> persisted_node \<Rightarrow> bytes option" where
  "branchNode snapshot node = layout_Node (snap_nodes snapshot) (p_index node)"

definition leafNode :: "snapshot \<Rightarrow> persisted_node \<Rightarrow> bytes option" where
  "leafNode snapshot node = layout_Leaf (snap_leaves snapshot) (p_index node)"

definition p_Height :: "snapshot \<Rightarrow> persisted_node \<Rightarrow> u8 option" where
  "p_Height snapshot node =
     (if p_isLeaf node then Some 0 else map_option node_Height (branchNode snapshot node))"

definition p_Version :: "snapshot \<Rightarrow> persisted_node \<Rightarrow> u32 option" where
  "p_Version snapshot node =
     (if p_isLeaf node then leafNode snapshot node \<bind> leaf_Version
      else branchNode snapshot node \<bind> node_Version)"

definition p_Size :: "snapshot \<Rightarrow> persisted_node \<Rightarrow> u64 option" where
  "p_Size snapshot node =
     (if p_isLeaf node then Some 1
      else map_option ucast (branchNode snapshot node \<bind> node_Size))"

definition p_Key :: "snapshot \<Rightarrow> persisted_node \<Rightarrow> bytes option" where
  "p_Key snapshot node =
     (if p_isLeaf node then LeafKey snapshot (p_index node)
      else branchNode snapshot node \<bind> node_KeyLeaf \<bind> LeafKey snapshot)"

text \<open>The value of a leaf; nil, the inner \<open>None\<close>, for a branch.\<close>

definition p_Value :: "snapshot \<Rightarrow> persisted_node \<Rightarrow> bytes option option" where
  "p_Value snapshot node =
     (if \<not> p_isLeaf node then Some None
      else map_option (\<lambda>(key, val). Some val) (LeafKeyValue snapshot (p_index node)))"

definition p_Left :: "snapshot \<Rightarrow> persisted_node \<Rightarrow> persisted_node option" where
  "p_Left snapshot node =
     (if p_isLeaf node then None
      else do {
        data \<leftarrow> branchNode snapshot node;
        let preTrees = ucast (node_PreTrees data);
        size \<leftarrow> node_Size data;
        let startLeaf = getStartLeaf (p_index node) size preTrees;
        keyLeaf \<leftarrow> node_KeyLeaf data;
        Some (if startLeaf + 1 = keyLeaf then \<lparr>p_isLeaf = True, p_index = startLeaf\<rparr>
              else \<lparr>p_isLeaf = False, p_index = getLeftBranch keyLeaf preTrees\<rparr>)
      })"

definition p_Right :: "snapshot \<Rightarrow> persisted_node \<Rightarrow> persisted_node option" where
  "p_Right snapshot node =
     (if p_isLeaf node then None
      else do {
        data \<leftarrow> branchNode snapshot node;
        keyLeaf \<leftarrow> node_KeyLeaf data;
        let preTrees = ucast (node_PreTrees data);
        Some (if keyLeaf = getEndLeaf (p_index node) preTrees then \<lparr>p_isLeaf = True, p_index = keyLeaf\<rparr>
              else \<lparr>p_isLeaf = False, p_index = p_index node - 1\<rparr>)
      })"

definition p_Hash :: "snapshot \<Rightarrow> persisted_node \<Rightarrow> bytes option" where
  "p_Hash snapshot node =
     (if p_isLeaf node then leafNode snapshot node \<bind> leaf_Hash
      else branchNode snapshot node \<bind> node_Hash)"

text \<open>
  \<open>sort.Search\<close>: the smallest index in \<open>[i, j)\<close> at which a monotone predicate holds, found by
  bisection; the predicate may panic.
\<close>

function sort_search :: "(nat \<Rightarrow> bool option) \<Rightarrow> nat \<Rightarrow> nat \<Rightarrow> nat option" where
  "sort_search f i j =
     (if i < j then
        let h = (i + j) div 2 in
        case f h of
          None \<Rightarrow> None
        | Some True \<Rightarrow> sort_search f i h
        | Some False \<Rightarrow> sort_search f (h + 1) j
      else Some i)"
  by auto
termination
  by (relation "measure (\<lambda>(f, i, j). j - i)") auto

declare sort_search.simps [simp del]

definition p_Get :: "snapshot \<Rightarrow> persisted_node \<Rightarrow> bytes \<Rightarrow> (bytes option \<times> u32) option" where
  "p_Get snapshot node key = do {
     (start, count) \<leftarrow>
       (if p_isLeaf node then Some (p_index node, 1)
        else do {
          data \<leftarrow> branchNode snapshot node;
          let preTrees = ucast (node_PreTrees data);
          count \<leftarrow> node_Size data;
          Some (getStartLeaf (p_index node) count preTrees, count)
        });
     i \<leftarrow> sort_search
       (\<lambda>i. map_option (\<lambda>leafKey. bytes_compare leafKey key \<ge> 0) (LeafKey snapshot (start + of_nat i)))
       0 (unat count);
     let i = of_nat i;
     let leaf = i + start;
     (if leaf \<ge> start + count then Some (None, i)
      else do {
        (nodeKey, val) \<leftarrow> LeafKeyValue snapshot leaf;
        Some (if nodeKey \<noteq> key then None else Some val, i)
      })
   }"

definition p_GetByIndex :: "snapshot \<Rightarrow> persisted_node \<Rightarrow> u32 \<Rightarrow> (bytes \<times> bytes) option option" where
  "p_GetByIndex snapshot node leafIndex =
     (if p_isLeaf node then
        (if leafIndex \<noteq> 0 then Some None else map_option Some (LeafKeyValue snapshot (p_index node)))
      else do {
        data \<leftarrow> branchNode snapshot node;
        let preTrees = ucast (node_PreTrees data);
        size \<leftarrow> node_Size data;
        let startLeaf = getStartLeaf (p_index node) size preTrees;
        let endLeaf = getEndLeaf (p_index node) preTrees;
        let i = startLeaf + leafIndex;
        (if i > endLeaf then Some None else map_option Some (LeafKeyValue snapshot i))
      })"

definition snap_RootHash :: "snapshot \<Rightarrow> bytes option" where
  "snap_RootHash snapshot =
     (case snap_root snapshot of None \<Rightarrow> Some emptyHash | Some root \<Rightarrow> p_Hash snapshot root)"

section \<open>The writer\<close>

record snapshotWriter =
  w_nodes :: bytes
  w_leaves :: bytes
  w_kvs :: bytes
  branchCounter :: u32
  leafCounter :: u32
  kvsOffset :: u64

definition newSnapshotWriter :: snapshotWriter where
  "newSnapshotWriter = \<lparr>w_nodes = [], w_leaves = [], w_kvs = [], branchCounter = 0, leafCounter = 0, kvsOffset = 0\<rparr>"

definition writeKeyValue :: "bytes \<Rightarrow> bytes \<Rightarrow> snapshotWriter \<Rightarrow> snapshotWriter" where
  "writeKeyValue key value w = w\<lparr>
     w_kvs := w_kvs w @ le_put32 (of_nat (length key)) @ key @ le_put32 (of_nat (length value)) @ value,
     kvsOffset := kvsOffset w + (4 + 4 + of_nat (length key) + of_nat (length value))\<rparr>"

text \<open>\<open>ctx_done n\<close>: the context has been cancelled when the n-th leaf is about to be written.\<close>

definition writeLeaf :: "(u32 \<Rightarrow> bool) \<Rightarrow> u32 \<Rightarrow> bytes \<Rightarrow> bytes \<Rightarrow> bytes \<Rightarrow> snapshotWriter \<Rightarrow> snapshotWriter res" where
  "writeLeaf ctx_done version key value hash w =
     (if leafCounter w mod 1000 = 0 \<and> ctx_done (leafCounter w) then Inl (Error ''context canceled'')
      else
        let buf = le_put32 version @ le_put32 (of_nat (length key)) @ le_put64 (kvsOffset w);
            w = writeKeyValue key value w;
            w = w\<lparr>w_leaves := w_leaves w @ buf\<rparr>;
            w = w\<lparr>w_leaves := w_leaves w @ hash\<rparr>
        in Inr (w\<lparr>leafCounter := leafCounter w + 1\<rparr>))"

definition writeBranch :: "u32 \<Rightarrow> u32 \<Rightarrow> u8 \<Rightarrow> u8 \<Rightarrow> u32 \<Rightarrow> bytes \<Rightarrow> snapshotWriter \<Rightarrow> snapshotWriter" where
  "writeBranch version count height preTrees keyLeaf hash w =
     (let buf = [height, preTrees, 0, 0] @ le_put32 version @ le_put32 count @ le_put32 keyLeaf;
          w = w\<lparr>w_nodes := w_nodes w @ buf\<rparr>;
          w = w\<lparr>w_nodes := w_nodes w @ hash\<rparr>
      in w\<lparr>branchCounter := branchCounter w + 1\<rparr>)"

fun writeRecursive :: "(u32 \<Rightarrow> bool) \<Rightarrow> node \<Rightarrow> snapshotWriter \<Rightarrow> snapshotWriter res" where
  "writeRecursive ctx_done (Leaf v k x) w = writeLeaf ctx_done v k x (hashNode (Leaf v k x)) w"
| "writeRecursive ctx_done (Branch h s v k l r) w =
     (let preTrees = ucast (leafCounter w - branchCounter w) in
      case writeRecursive ctx_done l w of
        Inl err \<Rightarrow> Inl err
      | Inr w \<Rightarrow>
          (let keyLeaf = leafCounter w in
           case writeRecursive ctx_done r w of
             Inl err \<Rightarrow> Inl err
           | Inr w \<Rightarrow>
               Inr (writeBranch v (ucast s) h preTrees keyLeaf (hashNode (Branch h s v k l r)) w)))"

text \<open>
  \<open>writeSnapshot\<close>: the three data files are flushed only when leaves were written, the metadata
  file always follows.
\<close>

definition writeSnapshot :: "u32 \<Rightarrow> (snapshotWriter \<Rightarrow> (u32 \<times> snapshotWriter) res) \<Rightarrow> snapshot_dir res" where
  "writeSnapshot version doWrite =
     (case doWrite newSnapshotWriter of
        Inl err \<Rightarrow> Inl err
      | Inr (n, w) \<Rightarrow>
          Inr \<lparr>file_metadata = le_put32 SnapshotFileMagic @ le_put32 SnapshotFormat @ le_put32 version,
               file_nodes = (if n > 0 then w_nodes w else []),
               file_leaves = (if n > 0 then w_leaves w else []),
               file_kvs = (if n > 0 then w_kvs w else [])\<rparr>)"

definition WriteSnapshotWithContext :: "(u32 \<Rightarrow> bool) \<Rightarrow> u32 \<Rightarrow> node option \<Rightarrow> snapshot_dir res" where
  "WriteSnapshotWithContext ctx_done version root =
     writeSnapshot version (\<lambda>w.
       case root of
         None \<Rightarrow> Inr (0, w)
       | Some t \<Rightarrow>
           (case writeRecursive ctx_done t w of Inl err \<Rightarrow> Inl err | Inr w \<Rightarrow> Inr (leafCounter w, w)))"

section \<open>What the writer leaves in the files\<close>

text \<open>
  The records of a subtree: \<open>n\<close> leaves come before it, \<open>pre\<close> finished subtrees are
  pending before it, its key-value entries start at offset \<open>off\<close>.
\<close>

definition leaf_rec :: "u32 \<Rightarrow> bytes \<Rightarrow> nat \<Rightarrow> bytes \<Rightarrow> bytes" where
  "leaf_rec v k off hash = le_put32 v @ le_put32 (of_nat (length k)) @ le_put64 (of_nat off) @ hash"

definition branch_rec :: "u8 \<Rightarrow> nat \<Rightarrow> u32 \<Rightarrow> u32 \<Rightarrow> nat \<Rightarrow> bytes \<Rightarrow> bytes" where
  "branch_rec h pre v s keyLeaf hash =
     [h, of_nat pre, 0, 0] @ le_put32 v @ le_put32 s @ le_put32 (of_nat keyLeaf) @ hash"

definition kv_rec :: "bytes \<Rightarrow> bytes \<Rightarrow> bytes" where
  "kv_rec k x = le_put32 (of_nat (length k)) @ k @ le_put32 (of_nat (length x)) @ x"

fun kv_recs :: "node \<Rightarrow> bytes" where
  "kv_recs (Leaf v k x) = kv_rec k x"
| "kv_recs (Branch h s v k l r) = kv_recs l @ kv_recs r"

fun leaf_recs :: "node \<Rightarrow> nat \<Rightarrow> bytes" where
  "leaf_recs (Leaf v k x) off = leaf_rec v k off (hashNode (Leaf v k x))"
| "leaf_recs (Branch h s v k l r) off = leaf_recs l off @ leaf_recs r (off + length (kv_recs l))"

fun branch_recs :: "node \<Rightarrow> nat \<Rightarrow> nat \<Rightarrow> bytes" where
  "branch_recs (Leaf v k x) n pre = []"
| "branch_recs (Branch h s v k l r) n pre =
     branch_recs l n pre @ branch_recs r (n + nleaves l) (pre + 1) @
     branch_rec h pre v (ucast s) (n + nleaves l) (hashNode (Branch h s v k l r))"

lemma length_recs [simp]:
  "length (leaf_recs t off) = 48 * nleaves t"
  "length (branch_recs t n pre) = 48 * (nleaves t - 1)"
proof -
  show "length (leaf_recs t off) = 48 * nleaves t"
    by (induction t arbitrary: off) (auto simp: leaf_rec_def)
  show "length (branch_recs t n pre) = 48 * (nleaves t - 1)"
  proof (induction t arbitrary: n pre)
    case (Branch h s v k l r)
    moreover have "0 < nleaves l" "0 < nleaves r" by simp_all
    ultimately show ?case
      by (simp add: branch_rec_def del: nleaves_pos length_greater_0_conv)
  qed simp
qed

lemma of_nat_diff_word: "B \<le> L \<Longrightarrow> of_nat L - of_nat B = (of_nat (L - B) :: 'a::len word)"
  by (simp add: of_nat_diff)

lemma writeRecursive_recs:
  assumes "\<And>n. \<not> ctx_done n"
    and "leafCounter w = of_nat (B + pre)" "branchCounter w = of_nat B" "kvsOffset w = of_nat off"
  shows "writeRecursive ctx_done t w = Inr (w\<lparr>
    w_nodes := w_nodes w @ branch_recs t (B + pre) pre,
    w_leaves := w_leaves w @ leaf_recs t off,
    w_kvs := w_kvs w @ kv_recs t,
    leafCounter := of_nat (B + pre + nleaves t),
    branchCounter := of_nat (B + nleaves t - 1),
    kvsOffset := of_nat (off + length (kv_recs t))\<rparr>)"
  using assms(2-)
proof (induction t arbitrary: w B pre off)
  case (Leaf v k x)
  then show ?case
    by (simp add: assms(1) writeLeaf_def writeKeyValue_def leaf_rec_def kv_rec_def Let_def ac_simps)
next
  case (Branch h s v k l r)
  let ?n = "nleaves l"
  have n: "0 < ?n" "0 < nleaves r" by simp_all
  let ?w = "w\<lparr>w_nodes := w_nodes w @ branch_recs l (B + pre) pre, w_leaves := w_leaves w @ leaf_recs l off,
    w_kvs := w_kvs w @ kv_recs l, leafCounter := of_nat (B + pre + ?n),
    branchCounter := of_nat (B + ?n - 1), kvsOffset := of_nat (off + length (kv_recs l))\<rparr>"
  have l: "writeRecursive ctx_done l w = Inr ?w"
    using Branch by blast
  have L: "B + pre + ?n = (B + ?n - 1) + (pre + 1)"
    using n by simp
  have r: "writeRecursive ctx_done r ?w = Inr (?w\<lparr>
    w_nodes := w_nodes ?w @ branch_recs r (B + pre + ?n) (pre + 1),
    w_leaves := w_leaves ?w @ leaf_recs r (off + length (kv_recs l)),
    w_kvs := w_kvs ?w @ kv_recs r,
    leafCounter := of_nat (B + pre + ?n + nleaves r),
    branchCounter := of_nat (B + ?n - 1 + nleaves r - 1),
    kvsOffset := of_nat (off + length (kv_recs l) + length (kv_recs r))\<rparr>)"
    unfolding L by (rule Branch.IH(2)) simp_all
  have pre: "(ucast (leafCounter w - branchCounter w) :: u8) = of_nat pre"
    unfolding Branch.prems(1,2) by (simp add: of_nat_diff_word ucast_of_nat_down)
  have count: "1 + of_nat (nleaves r + (B + ?n - Suc 0) - Suc 0) = (of_nat (B + (?n + nleaves r) - Suc 0) :: u32)"
  proof -
    obtain a b where "?n = Suc a" "nleaves r = Suc b"
      using n gr0_implies_Suc by metis
    then show ?thesis by (simp add: ac_simps)
  qed
  show ?case
    unfolding writeRecursive.simps l Let_def sum.case r pre
    by (simp add: writeBranch_def branch_rec_def count Let_def ac_simps)
qed

end
