(* ===== verification/Snapshot_Read.thy ===== *)
theory Snapshot_Read
  imports Snapshot
begin

text \<open>
  Reading a snapshot back: a \<open>PersistedNode\<close> of a written snapshot behaves, through every
  method of the \<open>Node\<close> interface, like the node that was written. The index formulas of
  \<open>src/memiavl/persisted_node.go\<close> are proved in \<open>uint32\<close> arithmetic.
\<close>

section \<open>Where a subtree lies in the files\<close>

text \<open>
  \<open>placed s t B pre off\<close>: \<open>B\<close> branches and \<open>B + pre\<close> leaves come before the records of
  \<open>t\<close>, whose key-value entries start at offset \<open>off\<close>.
\<close>

definition placed :: "snapshot \<Rightarrow> node \<Rightarrow> nat \<Rightarrow> nat \<Rightarrow> nat \<Rightarrow> bool" where
  "placed s t B pre off \<longleftrightarrow>
     (\<exists>a b. snap_leaves s = a @ leaf_recs t off @ b \<and> length a = 48 * (B + pre)) \<and>
     (\<exists>a b. snap_nodes s = a @ branch_recs t (B + pre) pre @ b \<and> length a = 48 * B) \<and>
     (\<exists>a b. snap_kvs s = a @ kv_recs t @ b \<and> length a = off)"

text \<open>The limits of the format: entries are shorter than 2^32 bytes, the kvs file than 2^64.\<close>

definition fits :: "snapshot \<Rightarrow> node \<Rightarrow> bool" where
  "fits s t \<longleftrightarrow> length (snap_kvs s) < 2 ^ 64 \<and>
     (\<forall>(k, x, v) \<in> set (leaves t). length k < 2 ^ 32 \<and> length x < 2 ^ 32)"

lemma fits_Branch [simp]: "fits s (Branch h n v k l r) \<longleftrightarrow> fits s l \<and> fits s r"
  by (auto simp: fits_def ball_Un)

lemma placed_left: "placed s (Branch h n v k l r) B pre off \<Longrightarrow> placed s l B pre off"
  unfolding placed_def leaf_recs.simps branch_recs.simps kv_recs.simps append_assoc by blast

lemma placed_right:
  assumes "placed s (Branch h n v k l r) B pre off"
  shows "placed s r (B + nleaves l - 1) (pre + 1) (off + length (kv_recs l))"
proof -
  have n: "B + nleaves l - 1 + (pre + 1) = B + pre + nleaves l" "48 * B + 48 * (nleaves l - 1) = 48 * (B + nleaves l - 1)"
    by (cases "nleaves l"; simp)+
  obtain a b where L: "snap_leaves s = a @ leaf_recs l off @ leaf_recs r (off + length (kv_recs l)) @ b"
    "length a = 48 * (B + pre)"
    using assms by (auto simp: placed_def)
  obtain c d where N: "snap_nodes s = c @ branch_recs l (B + pre) pre @ branch_recs r (B + pre + nleaves l) (pre + 1) @ d"
    "length c = 48 * B"
    using assms by (auto simp: placed_def)
  obtain e f where K: "snap_kvs s = e @ kv_recs l @ kv_recs r @ f" "length e = off"
    using assms by (auto simp: placed_def)
  show ?thesis
    unfolding placed_def n(1)
  proof (intro conjI exI)
    show "snap_leaves s = (a @ leaf_recs l off) @ leaf_recs r (off + length (kv_recs l)) @ b"
      using L by simp
    show "snap_nodes s = (c @ branch_recs l (B + pre) pre) @ branch_recs r (B + pre + nleaves l) (pre + 1) @ d"
      using N by simp
    show "snap_kvs s = (e @ kv_recs l) @ kv_recs r @ f"
      using K by simp
  qed (use L N K n in \<open>simp_all add: algebra_simps\<close>)
qed

section \<open>Reading records\<close>

lemma slice_record:
  assumes "data = a @ r @ b" "length a = 48 * i" "length r = 48"
  shows "slice data (i * 48) (i * 48 + 48) = Some r"
  unfolding assms(1) by (rule slice_middle) (use assms in simp_all)

lemma leaf_fields:
  assumes "length hash = 32"
  shows "leaf_Version (leaf_rec v k off hash) = Some v"
    "leaf_KeyLength (leaf_rec v k off hash) = Some (of_nat (length k))"
    "leaf_KeyOffset (leaf_rec v k off hash) = Some (of_nat off)"
    "leaf_Hash (leaf_rec v k off hash) = Some hash"
proof -
  have *: "slice (a @ b @ c) (length a) (length a + length b) = Some b" for a b c
    by (simp add: slice_def)
  show "leaf_Version (leaf_rec v k off hash) = Some v"
    using * [of "[]" "le_put32 v"] le_uint32_put [of v "[]"] by (simp add: leaf_Version_def leaf_rec_def)
  show "leaf_KeyLength (leaf_rec v k off hash) = Some (of_nat (length k))"
    using * [of "le_put32 v" "le_put32 (of_nat (length k))"] le_uint32_put [of "of_nat (length k)" "[]"]
    by (simp add: leaf_KeyLength_def leaf_rec_def)
  show "leaf_KeyOffset (leaf_rec v k off hash) = Some (of_nat off)"
    using * [of "le_put32 v @ le_put32 (of_nat (length k))" "le_put64 (of_nat off)"] le_uint64_put [of "of_nat off" "[]"]
    by (simp add: leaf_KeyOffset_def leaf_rec_def)
  show "leaf_Hash (leaf_rec v k off hash) = Some hash"
    using * [of "le_put32 v @ le_put32 (of_nat (length k)) @ le_put64 (of_nat off)" hash "[]"] assms
    by (simp add: leaf_Hash_def leaf_rec_def)
qed

lemma branch_fields:
  assumes "length hash = 32"
  shows "node_Height (branch_rec h pre v n kl hash) = h"
    "node_PreTrees (branch_rec h pre v n kl hash) = of_nat pre"
    "node_Version (branch_rec h pre v n kl hash) = Some v"
    "node_Size (branch_rec h pre v n kl hash) = Some n"
    "node_KeyLeaf (branch_rec h pre v n kl hash) = Some (of_nat kl)"
    "node_Hash (branch_rec h pre v n kl hash) = Some hash"
proof -
  have *: "slice (a @ b @ c) (length a) (length a + length b) = Some b" for a b c
    by (simp add: slice_def)
  let ?head = "[h, of_nat pre, 0, 0] :: bytes"
  show "node_Height (branch_rec h pre v n kl hash) = h" "node_PreTrees (branch_rec h pre v n kl hash) = of_nat pre"
    by (simp_all add: node_Height_def node_PreTrees_def branch_rec_def)
  show "node_Version (branch_rec h pre v n kl hash) = Some v"
    using slice_middle [of 4 ?head 8 "le_put32 v"] le_uint32_put [of v "[]"] by (simp add: node_Version_def branch_rec_def)
  show "node_Size (branch_rec h pre v n kl hash) = Some n"
    using * [of "?head @ le_put32 v" "le_put32 n"] le_uint32_put [of n "[]"]
    by (simp add: node_Size_def branch_rec_def)
  show "node_KeyLeaf (branch_rec h pre v n kl hash) = Some (of_nat kl)"
    using * [of "?head @ le_put32 v @ le_put32 n" "le_put32 (of_nat kl)"] le_uint32_put [of "of_nat kl" "[]"]
    by (simp add: node_KeyLeaf_def branch_rec_def)
  show "node_Hash (branch_rec h pre v n kl hash) = Some hash"
    using * [of "?head @ le_put32 v @ le_put32 n @ le_put32 (of_nat kl)" hash "[]"] assms
    by (simp add: node_Hash_def branch_rec_def)
qed

lemma placed_leaf:
  assumes "placed s (Leaf v k x) B pre off" "B + pre < 2 ^ 32"
  shows "layout_Leaf (snap_leaves s) (of_nat (B + pre)) = Some (leaf_rec v k off (hashNode (Leaf v k x)))"
proof -
  obtain a b where "snap_leaves s = a @ leaf_rec v k off (hashNode (Leaf v k x)) @ b" "length a = 48 * (B + pre)"
    using assms(1) by (auto simp: placed_def)
  moreover have "unat (of_nat (B + pre) :: u32) = B + pre"
    using assms(2) by (simp add: unat_of_nat_less del: of_nat_add)
  ultimately show ?thesis
    using slice_record [of "snap_leaves s" a "leaf_rec v k off (hashNode (Leaf v k x))" b "B + pre"]
    unfolding layout_Leaf_def by (simp add: leaf_rec_def)
qed

lemma placed_branch:
  assumes "placed s (Branch h n v k l r) B pre off" "B + (nleaves l + nleaves r) < 2 ^ 32"
  shows "layout_Node (snap_nodes s) (of_nat (B + (nleaves l + nleaves r) - 2)) =
    Some (branch_rec h pre v (ucast n) (B + pre + nleaves l) (hashNode (Branch h n v k l r)))"
proof -
  let ?r = "branch_rec h pre v (ucast n) (B + pre + nleaves l) (hashNode (Branch h n v k l r))"
  let ?i = "B + (nleaves l + nleaves r) - 2"
  obtain a b where s: "snap_nodes s = a @ branch_recs l (B + pre) pre @ branch_recs r (B + pre + nleaves l) (pre + 1) @ ?r @ b"
    "length a = 48 * B"
    using assms(1) by (auto simp: placed_def)
  have "length (a @ branch_recs l (B + pre) pre @ branch_recs r (B + pre + nleaves l) (pre + 1)) = 48 * ?i"
    using s(2) by (cases "nleaves l"; cases "nleaves r") auto
  moreover have "unat (of_nat ?i :: u32) = ?i"
    by (rule unat_of_nat_less) (use assms(2) in simp)
  ultimately show ?thesis
    using slice_record [of "snap_nodes s" "a @ branch_recs l (B + pre) pre @ branch_recs r (B + pre + nleaves l) (pre + 1)" ?r b ?i] s(1)
    unfolding layout_Node_def by (simp add: branch_rec_def)
qed

text \<open>The key and the value of a leaf, through the leaf record and through the kvs entry.\<close>

lemma slice_at:
  assumes "data = a @ b @ c" "unat lo = length a" "unat (lo + len) = length a + length b"
  shows "slice data (unat lo) (unat (lo + len)) = Some b"
  unfolding assms(1) by (rule slice_middle) (use assms in simp_all)

lemma leaf_key_value:
  assumes "placed s (Leaf v k x) B pre off" "B + pre < 2 ^ 32" "fits s (Leaf v k x)"
  shows "LeafKey s (of_nat (B + pre)) = Some k"
    "LeafKeyValue s (of_nat (B + pre)) = Some (k, x)"
    "snap_KeyValue s (of_nat off) = Some (k, x)"
proof -
  let ?k = "length k" and ?x = "length x"
  obtain a b where s: "snap_kvs s = a @ le_put32 (of_nat ?k) @ k @ le_put32 (of_nat ?x) @ x @ b" "length a = off"
    using assms(1) by (auto simp: placed_def kv_rec_def)
  then have total: "off + 8 + ?k + ?x < 2 ^ 64" and short: "?k < 2 ^ 32" "?x < 2 ^ 32"
    using assms(3) by (auto simp: fits_def)
  have casts: "(ucast (of_nat ?k :: u32) :: u64) = of_nat ?k" "(ucast (of_nat ?x :: u32) :: u64) = of_nat ?x"
    by (rule word_unat_eq_iff [THEN iffD2]; use short in \<open>simp add: word_conv\<close>)+
  have u: "unat (of_nat off :: u64) = off" "unat (of_nat off + 4 :: u64) = off + 4"
    "unat (of_nat off + 4 + of_nat ?k :: u64) = off + 4 + ?k"
    "unat (8 + (of_nat off + of_nat ?k) :: u64) = off + 8 + ?k"
    "unat (8 + (of_nat off + of_nat ?k) + of_nat ?x :: u64) = off + 8 + ?k + ?x"
    using total short by (simp_all add: word_conv unat_plus_less)
  have key: "slice (snap_kvs s) (off + 4) (off + 4 + ?k) = Some k"
    unfolding s(1) using slice_middle [of "off + 4" "a @ le_put32 (of_nat ?k)" "off + 4 + ?k" k] s(2) by simp
  have val: "slice (snap_kvs s) (off + 8 + ?k) (off + 8 + ?k + ?x) = Some x"
    unfolding s(1)
    using slice_middle [of "off + 8 + ?k" "a @ le_put32 (of_nat ?k) @ k @ le_put32 (of_nat ?x)" "off + 8 + ?k + ?x" x] s(2)
    by simp
  have len: "le_uint32 (drop off (snap_kvs s)) = Some (of_nat ?k)"
    "le_uint32 (drop (off + 4 + ?k) (snap_kvs s)) = Some (of_nat ?x)"
    unfolding s(1) s(2) [symmetric] by simp_all
  note leaf = placed_leaf [OF assms(1,2)] leaf_fields
  show "LeafKey s (of_nat (B + pre)) = Some k"
    unfolding LeafKey_def by (simp add: leaf casts u key del: of_nat_add)
  show "LeafKeyValue s (of_nat (B + pre)) = Some (k, x)"
    unfolding LeafKeyValue_def by (simp add: leaf casts u key val len Let_def del: of_nat_add)
  show "snap_KeyValue s (of_nat off) = Some (k, x)"
    unfolding snap_KeyValue_def by (simp add: casts u key val len Let_def)
qed

lemma placed_nth:
  assumes "placed s t B pre off" "B + pre + nleaves t < 2 ^ 32" "fits s t" "i < nleaves t"
  shows "LeafKey s (of_nat (B + pre + i)) = Some (fst (leaves t ! i)) \<and>
    LeafKeyValue s (of_nat (B + pre + i)) = Some (fst (leaves t ! i), fst (snd (leaves t ! i)))"
  using assms
proof (induction t arbitrary: B pre off i)
  case (Leaf v k x)
  then show ?case using leaf_key_value(1,2) [of s v k x B pre off] by simp
next
  case (Branch h n v k l r)
  note at = placed_left [OF Branch.prems(1)] placed_right [OF Branch.prems(1)]
  show ?case
  proof (cases "i < nleaves l")
    case True
    then show ?thesis
      using Branch.IH(1) [OF at(1), of i] Branch.prems by (simp add: nth_append)
  next
    case False
    then have e: "B + nleaves l - 1 + (pre + 1) + (i - nleaves l) = B + pre + i"
      by (cases "nleaves l") simp_all
    have "B + nleaves l - 1 + (pre + 1) + nleaves r = B + pre + (nleaves l + nleaves r)"
      by (cases "nleaves l") simp_all
    then have "B + nleaves l - 1 + (pre + 1) + nleaves r < 2 ^ 32"
      using Branch.prems(2) by (simp only: leaves.simps length_append)
    from Branch.IH(2) [OF at(2) this, of "i - nleaves l", unfolded e] show ?thesis
      using False Branch.prems by (simp add: nth_append)
  qed
qed

section \<open>A persisted node represents the node that was written\<close>

text \<open>
  \<open>represents s p t\<close>: every method of the \<open>Node\<close> interface returns on \<open>p\<close> what it returns
  on \<open>t\<close>, and so on down both children.
\<close>

fun represents :: "snapshot \<Rightarrow> persisted_node \<Rightarrow> node \<Rightarrow> bool" where
  "represents s p (Leaf v k x) =
     (p_isLeaf p \<and> p_Height s p = Some 0 \<and> p_Size s p = Some 1 \<and> p_Version s p = Some v \<and>
      p_Key s p = Some k \<and> p_Value s p = Some (Some x) \<and> p_Hash s p = Some (hashNode (Leaf v k x)))"
| "represents s p (Branch h n v k l r) =
     (\<not> p_isLeaf p \<and> p_Height s p = Some h \<and> p_Size s p = Some n \<and> p_Version s p = Some v \<and>
      p_Key s p = Some k \<and> p_Value s p = Some None \<and>
      p_Hash s p = Some (hashNode (Branch h n v k l r)) \<and>
      (case p_Left s p of None \<Rightarrow> False | Some q \<Rightarrow> represents s q l) \<and>
      (case p_Right s p of None \<Rightarrow> False | Some q \<Rightarrow> represents s q r))"

text \<open>The persisted node of a placed subtree.\<close>

definition pnode :: "node \<Rightarrow> nat \<Rightarrow> nat \<Rightarrow> persisted_node" where
  "pnode t B pre =
     (if nleaves t = 1 then \<lparr>p_isLeaf = True, p_index = of_nat (B + pre)\<rparr>
      else \<lparr>p_isLeaf = False, p_index = of_nat (B + nleaves t - 2)\<rparr>)"

lemma nleaves_one: "nleaves t = 1 \<longleftrightarrow> (\<exists>v k x. t = Leaf v k x)"
proof (cases t)
  case (Branch h s v k l r)
  have "0 < nleaves l" "0 < nleaves r" by simp_all
  then have "nleaves t \<noteq> 1"
    unfolding Branch leaves.simps length_append by linarith
  then show ?thesis by (simp add: Branch)
qed simp

text \<open>The index arithmetic of the code, in \<open>uint32\<close>.\<close>

lemma getStartLeaf_placed:
  "2 \<le> c \<Longrightarrow> getStartLeaf (of_nat (B + c - 2)) (of_nat c) (of_nat pre) = of_nat (B + pre)"
  unfolding getStartLeaf_def by (simp add: of_nat_diff algebra_simps)

lemma getEndLeaf_placed:
  "2 \<le> c \<Longrightarrow> getEndLeaf (of_nat (B + c - 2)) (of_nat pre) = of_nat (B + pre + c - 1)"
  unfolding getEndLeaf_def by (simp add: of_nat_diff algebra_simps)

lemma getLeftBranch_placed:
  "2 \<le> c \<Longrightarrow> getLeftBranch (of_nat (B + pre + c)) (of_nat pre) = of_nat (B + c - 2)"
  unfolding getLeftBranch_def by (simp add: of_nat_diff algebra_simps)

lemma of_nat_u32_eq:
  assumes "a < 2 ^ 32" "b < 2 ^ 32"
  shows "(of_nat a :: u32) = of_nat b \<longleftrightarrow> a = b"
proof
  assume "(of_nat a :: u32) = of_nat b"
  then have "unat (of_nat a :: u32) = unat (of_nat b :: u32)"
    by (rule arg_cong)
  then show "a = b"
    using assms by (simp add: word_conv)
qed simp

lemma ucast_size: "unat (n :: u64) = c \<Longrightarrow> (ucast n :: u32) = of_nat c"
  using of_nat_unat [of n, where 'a = "32 word"] by simp

lemma ucast_size_up: "unat (n :: u64) = c \<Longrightarrow> c < 2 ^ 32 \<Longrightarrow> ucast (of_nat c :: u32) = n"
  by (rule word_unat_eq_iff [THEN iffD2]) (simp add: word_conv)

lemma ucast_pre: "pre < 256 \<Longrightarrow> (ucast (of_nat pre :: u8) :: u32) = of_nat pre"
  by (rule word_unat_eq_iff [THEN iffD2]) (simp add: word_conv)

lemma left_index:
  fixes a b :: nat
  assumes "1 \<le> a" "1 \<le> b" "B + pre + (a + b) < 2 ^ 32"
  defines "start \<equiv> getStartLeaf (of_nat (B + (a + b) - 2)) (of_nat (a + b)) (of_nat pre)"
  shows "(if start + 1 = of_nat (B + pre + a) then \<lparr>p_isLeaf = True, p_index = start\<rparr>
      else \<lparr>p_isLeaf = False, p_index = getLeftBranch (of_nat (B + pre + a)) (of_nat pre)\<rparr>) =
    (if a = 1 then \<lparr>p_isLeaf = True, p_index = of_nat (B + pre)\<rparr>
      else \<lparr>p_isLeaf = False, p_index = of_nat (B + a - 2)\<rparr>)"
proof -
  have start: "start = of_nat (B + pre)"
    unfolding start_def by (rule getStartLeaf_placed) (use assms in simp)
  then have "start + 1 = of_nat (B + pre + 1)"
    by simp
  moreover have "(of_nat (B + pre + 1) :: u32) = of_nat (B + pre + a) \<longleftrightarrow> B + pre + 1 = B + pre + a"
    by (rule of_nat_u32_eq) (use assms(1-3) in linarith)+
  ultimately have cond: "start + 1 = of_nat (B + pre + a) \<longleftrightarrow> a = 1"
    by (simp only:) linarith
  have left: "getLeftBranch (of_nat (B + pre + a)) (of_nat pre) = of_nat (B + a - 2)" if "a \<noteq> 1"
    using assms(1) that by (intro getLeftBranch_placed) simp
  show ?thesis
    by (rule if_cong [OF cond]) (simp_all only: start left simp_thms)
qed

lemma right_index:
  fixes a b :: nat
  assumes "1 \<le> a" "1 \<le> b" "B + pre + (a + b) < 2 ^ 32"
  shows "(if of_nat (B + pre + a) = getEndLeaf (of_nat (B + (a + b) - 2)) (of_nat pre)
      then \<lparr>p_isLeaf = True, p_index = of_nat (B + pre + a)\<rparr>
      else \<lparr>p_isLeaf = False, p_index = of_nat (B + (a + b) - 2) - 1\<rparr>) =
    (if b = 1 then \<lparr>p_isLeaf = True, p_index = of_nat (B + a - 1 + (pre + 1))\<rparr>
      else \<lparr>p_isLeaf = False, p_index = of_nat (B + a - 1 + b - 2)\<rparr>)"
proof -
  have "getEndLeaf (of_nat (B + (a + b) - 2)) (of_nat pre) = of_nat (B + pre + (a + b) - 1)"
    by (rule getEndLeaf_placed) (use assms in simp)
  moreover have "(of_nat (B + pre + a) :: u32) = of_nat (B + pre + (a + b) - 1) \<longleftrightarrow> b = 1"
    by (subst of_nat_u32_eq) (use assms in linarith)+
  ultimately have cond: "(of_nat (B + pre + a) :: u32) = getEndLeaf (of_nat (B + (a + b) - 2)) (of_nat pre) \<longleftrightarrow> b = 1"
    by (rule ssubst)
  have leaf: "B + a - 1 + (pre + 1) = B + pre + a"
    using assms by simp
  have right: "(of_nat (B + (a + b) - 2) :: u32) - 1 = of_nat (B + a - 1 + b - 2)" if "b \<noteq> 1"
  proof -
    have "B + (a + b) - 2 = Suc (B + a - 1 + b - 2)"
      using assms that by simp
    then show ?thesis by simp
  qed
  show ?thesis
    by (rule if_cong [OF cond]) (simp_all only: leaf right simp_thms)
qed

lemma branch_reads:
  assumes pl: "placed s (Branch h n v k l r) B pre off" and wf: "wf_node (Branch h n v k l r)"
    and cap: "B + pre + (nleaves l + nleaves r) < 2 ^ 32" "pre < 256"
  defines "p \<equiv> pnode (Branch h n v k l r) B pre"
  shows "\<not> p_isLeaf p" "p_index p = of_nat (B + (nleaves l + nleaves r) - 2)"
    "branchNode s p = Some (branch_rec h pre v (of_nat (nleaves l + nleaves r)) (B + pre + nleaves l)
       (hashNode (Branch h n v k l r)))"
    "p_Left s p = Some (pnode l B pre)"
    "p_Right s p = Some (pnode r (B + nleaves l - 1) (pre + 1))"
proof -
  define a b where ab: "a = nleaves l" "b = nleaves r"
  have pos: "1 \<le> a" "1 \<le> b" by (simp_all add: Suc_le_eq ab)
  have p: "p = \<lparr>p_isLeaf = False, p_index = of_nat (B + (a + b) - 2)\<rparr>"
    using nleaves_one [of "Branch h n v k l r"] by (auto simp: p_def pnode_def ab)
  then show nl: "\<not> p_isLeaf p" and idx: "p_index p = of_nat (B + (nleaves l + nleaves r) - 2)"
    by (simp_all add: ab)
  have "unat n = a + b" using wf by (simp add: ab)
  then have "(ucast n :: u32) = of_nat (a + b)" by (rule ucast_size)
  moreover have "B + (nleaves l + nleaves r) < 2 ^ 32"
    using cap by linarith
  ultimately show br: "branchNode s p = Some (branch_rec h pre v (of_nat (nleaves l + nleaves r))
      (B + pre + nleaves l) (hashNode (Branch h n v k l r)))"
    using placed_branch [OF pl] unfolding branchNode_def idx ab by simp
  note fields = branch_fields [where hash = "hashNode (Branch h n v k l r)", OF length_hashNode]
  show "p_Left s p = Some (pnode l B pre)"
    unfolding p_Left_def idx br pnode_def
    by (simp only: nl if_False Option.bind.simps fields Let_def ucast_pre [OF cap(2)]
      left_index [OF pos, of B pre, unfolded ab, OF cap(1)])
  show "p_Right s p = Some (pnode r (B + nleaves l - 1) (pre + 1))"
    unfolding p_Right_def idx br pnode_def
    by (simp only: nl if_False Option.bind.simps fields Let_def ucast_pre [OF cap(2)]
      right_index [OF pos, of B pre, unfolded ab, OF cap(1)])
qed

lemma first_leaf_key:
  assumes "placed s r B pre off" "B + pre + nleaves r < 2 ^ 32" "fits s r"
  shows "LeafKey s (of_nat (B + pre)) = Some (hd (keys r))"
  using placed_nth [OF assms, of 0] by (simp add: hd_map hd_conv_nth)

lemma placed_represents:
  assumes "placed s t B pre off" "wf_node t" "B + pre + nleaves t < 2 ^ 32" "pre + hgt t < 256" "fits s t"
  shows "represents s (pnode t B pre) t"
  using assms
proof (induction t arbitrary: B pre off)
  case (Leaf v k x)
  have "B + pre < 2 ^ 32" using Leaf.prems by simp
  note reads = placed_leaf [OF Leaf.prems(1) this] leaf_key_value [OF Leaf.prems(1) this Leaf.prems(5)]
  show ?case
    by (simp add: pnode_def p_Height_def p_Size_def p_Version_def p_Key_def p_Value_def p_Hash_def
      leafNode_def reads leaf_fields del: of_nat_add)
next
  case (Branch h n v k l r)
  have cap: "B + pre + (nleaves l + nleaves r) < 2 ^ 32" "pre < 256"
    using Branch.prems(3,4) by simp_all
  note reads = branch_reads [OF Branch.prems(1,2) cap]
  have B: "B + nleaves l - 1 + (pre + 1) = B + pre + nleaves l"
    by (cases "nleaves l") simp_all
  have left: "represents s (pnode l B pre) l"
    using Branch.IH(1) [OF placed_left [OF Branch.prems(1)]] Branch.prems by simp
  have cap_r: "B + nleaves l - 1 + (pre + 1) + nleaves r < 2 ^ 32"
    unfolding B using cap(1) by linarith
  have right: "represents s (pnode r (B + nleaves l - 1) (pre + 1)) r"
    by (rule Branch.IH(2) [OF placed_right [OF Branch.prems(1)] _ cap_r]) (use Branch.prems in simp_all)
  have key: "LeafKey s (of_nat (B + pre + nleaves l)) = Some k"
    using first_leaf_key [OF placed_right [OF Branch.prems(1)] cap_r] Branch.prems unfolding B by simp
  have n: "ucast (of_nat (nleaves l + nleaves r) :: u32) = n"
    by (rule ucast_size_up) (use Branch.prems(2) cap(1) in simp_all)
  show ?case
    unfolding represents.simps
    by (simp add: reads left right [simplified] key n p_Height_def p_Size_def p_Version_def p_Key_def p_Value_def p_Hash_def
      branch_fields del: of_nat_add)
qed

section \<open>The round trip\<close>

text \<open>
  The limits of the format for a tree: fewer than 2^32 leaves, keys and values shorter than
  2^32 bytes, all of them together shorter than 2^64 bytes.
\<close>

definition writable :: "node \<Rightarrow> bool" where
  "writable t \<longleftrightarrow> nleaves t < 2 ^ 32 \<and> length (kv_recs t) < 2 ^ 64 \<and>
     (\<forall>(k, x, v) \<in> set (leaves t). length k < 2 ^ 32 \<and> length x < 2 ^ 32)"

text \<open>The directory and the snapshot of a tree.\<close>

definition dir_of :: "u32 \<Rightarrow> node \<Rightarrow> snapshot_dir" where
  "dir_of version t =
     \<lparr>file_metadata = le_put32 SnapshotFileMagic @ le_put32 SnapshotFormat @ le_put32 version,
      file_nodes = branch_recs t 0 0, file_leaves = leaf_recs t 0, file_kvs = kv_recs t\<rparr>"

definition snapshot_of :: "u32 \<Rightarrow> node \<Rightarrow> snapshot" where
  "snapshot_of version t =
     \<lparr>snap_nodes = branch_recs t 0 0, snap_leaves = leaf_recs t 0, snap_kvs = kv_recs t,
      snap_version = version, snap_root = Some (pnode t 0 0)\<rparr>"

lemma write_tree:
  assumes "\<And>n. \<not> ctx_done n" "writable t"
  shows "WriteSnapshotWithContext ctx_done version (Some t) = Inr (dir_of version t)"
proof -
  have "unat (of_nat (nleaves t) :: u32) = nleaves t"
    by (rule unat_of_nat_less) (use assms(2) in \<open>simp add: writable_def\<close>)
  then have pos: "(0 :: u32) < of_nat (nleaves t)"
    by (simp add: word_less_nat_alt)
  show ?thesis
    unfolding WriteSnapshotWithContext_def writeSnapshot_def
    using writeRecursive_recs [where w = newSnapshotWriter and B = 0 and pre = 0 and off = 0, OF assms(1)] pos
    by (simp add: newSnapshotWriter_def dir_of_def)
qed

lemma open_tree:
  assumes "writable t"
  shows "OpenSnapshot (dir_of version t) = Inr (snapshot_of version t)"
proof -
  have "0 < nleaves t" by simp
  then obtain c where c: "nleaves t = Suc c"
    using gr0_implies_Suc by blast
  show ?thesis
    unfolding OpenSnapshot_def dir_of_def Let_def
    by (auto simp: c pnode_def snapshot_of_def)
qed

lemma placed_tree: "placed (snapshot_of version t) t 0 0 0"
  by (simp add: placed_def snapshot_of_def)

lemma fits_tree: "writable t \<Longrightarrow> fits (snapshot_of version t) t"
  by (simp add: writable_def fits_def snapshot_of_def)

section \<open>Binary search over the leaves\<close>

text \<open>\<open>sort.Search\<close> finds the border of a predicate that is false below \<open>m\<close> and true from \<open>m\<close>.\<close>

lemma sort_search_border:
  assumes "\<And>i. i < n \<Longrightarrow> f i = Some (m \<le> i)" "i \<le> m" "m \<le> j" "j \<le> n"
  shows "sort_search f i j = Some m"
  using assms
proof (induction f i j rule: sort_search.induct)
  case (1 f i j)
  show ?case
  proof (cases "i < j")
    case True
    then have "f ((i + j) div 2) = Some (m \<le> (i + j) div 2)"
      using "1.prems" by simp
    then show ?thesis
      using True "1.IH" [OF True refl] "1.prems"
      by (cases "m \<le> (i + j) div 2") (simp_all add: sort_search.simps [of f i j])
  next
    case False
    then show ?thesis
      using "1.prems" by (simp add: sort_search.simps [of f i j])
  qed
qed

lemma rank_le_iff:
  "ascending (map fst xs) \<Longrightarrow> i < length xs \<Longrightarrow> rank key xs \<le> i \<longleftrightarrow> key \<le> fst (xs ! i)"
proof (induction xs arbitrary: i)
  case (Cons x xs)
  have later: "fst x < fst (xs ! j)" if "j < length xs" for j
    using Cons.prems(1) that by simp
  show ?case
  proof (cases "fst x < key")
    case True
    then show ?thesis
      using Cons.IH [of "i - 1"] Cons.prems by (cases i) auto
  next
    case False
    then have "rank key xs = 0"
      using Cons.prems(1) by (intro rank_none) force
    moreover have "key \<le> fst (xs ! j)" if "j < length xs" for j
      using False later [OF that] by (meson less_imp_le not_less order_trans)
    ultimately show ?thesis
      using False Cons.prems by (cases i) (auto simp: not_less)
  qed
qed simp

lemma map_of_rank:
  assumes "ascending (map fst xs)" "rank key xs < length xs"
  shows "map_of xs key = (if fst (xs ! rank key xs) = key then Some (snd (xs ! rank key xs)) else None)"
proof (cases "map_of xs key")
  case None
  moreover have "fst (xs ! rank key xs) \<in> fst ` set xs"
    using nth_mem [OF assms(2)] by (rule imageI)
  ultimately have "fst (xs ! rank key xs) \<noteq> key"
    by (metis map_of_eq_None_iff)
  with None show ?thesis
    by simp
next
  case (Some y)
  then show ?thesis
    using nth_rank [OF assms(1)] by simp
qed

lemma rank_end: "ascending (map fst xs) \<Longrightarrow> length xs \<le> rank key xs \<Longrightarrow> map_of xs key = None"
  using nth_rank [of xs key] by (cases "map_of xs key") auto

lemma p_Get_placed:
  assumes "placed s t B pre off" "wf_node t" "B + pre + nleaves t < 2 ^ 32" "pre < 256" "fits s t"
    and asc: "ascending (keys t)"
  shows "p_Get s (pnode t B pre) key = Some (lookup t key, of_nat (rank key (leaves t)))"
proof -
  let ?n = "nleaves t" and ?r = "rank key (leaves t)" and ?start = "of_nat (B + pre) :: u32"
  have read: "(if p_isLeaf (pnode t B pre) then Some (p_index (pnode t B pre), 1)
      else do {
        data \<leftarrow> branchNode s (pnode t B pre);
        let preTrees = ucast (node_PreTrees data);
        count \<leftarrow> node_Size data;
        Some (getStartLeaf (p_index (pnode t B pre)) count preTrees, count)
      }) = Some (?start, of_nat ?n)"
  proof (cases t)
    case (Leaf v k x)
    then show ?thesis by (simp add: pnode_def)
  next
    case (Branch h n v k l r)
    have "0 < nleaves l" "0 < nleaves r" by simp_all
    then have "2 \<le> nleaves l + nleaves r" by linarith
    note start = getStartLeaf_placed [OF this]
    have "B + pre + (nleaves l + nleaves r) < 2 ^ 32"
      using assms(3) by (simp add: Branch)
    note reads = branch_reads [OF assms(1,2) [unfolded Branch] this assms(4)]
    show ?thesis
      unfolding Branch
      by (simp add: reads branch_fields ucast_pre [OF assms(4)] start Let_def del: of_nat_add of_nat_diff)
  qed
  have cap: "?n < 2 ^ 32" "?r \<le> ?n" "B + pre + ?r < 2 ^ 32"
    using assms(3) rank_le [of key "leaves t"] by linarith+
  have search: "sort_search (\<lambda>i. map_option (\<lambda>leafKey. bytes_compare leafKey key \<ge> 0) (LeafKey s (?start + of_nat i)))
      0 (unat (of_nat ?n :: u32)) = Some ?r"
  proof (rule sort_search_border)
    show "map_option (\<lambda>leafKey. bytes_compare leafKey key \<ge> 0) (LeafKey s (?start + of_nat i)) = Some (?r \<le> i)"
      if "i < ?n" for i
      using placed_nth [OF assms(1,3,5) that] rank_le_iff [OF asc that, of key] by simp
  qed (use cap in \<open>simp_all add: word_conv\<close>)
  have leaf: "of_nat ?r + ?start = of_nat (B + pre + ?r)"
    by simp
  have past: "of_nat (B + pre + ?r) \<ge> ?start + of_nat ?n \<longleftrightarrow> ?n \<le> ?r"
  proof -
    have "?start + of_nat ?n = of_nat (B + pre + ?n)" by simp
    then show ?thesis
      using cap(3) assms(3) by (simp add: word_le_nat_alt word_conv del: of_nat_add)
  qed
  show ?thesis
  proof (cases "?n \<le> ?r")
    case True
    then show ?thesis
      unfolding p_Get_def read Option.bind.simps prod.case search
      by (simp add: leaf past Let_def rank_end [OF asc] lookup_def del: of_nat_add)
  next
    case False
    then show ?thesis
      using placed_nth [OF assms(1,3,5), of ?r] map_of_rank [OF asc, of key]
      unfolding p_Get_def read Option.bind.simps prod.case search
      by (simp add: leaf past Let_def lookup_def del: of_nat_add)
  qed
qed

lemma p_GetByIndex_placed:
  assumes "placed s t B pre off" "wf_node t" "B + pre + nleaves t < 2 ^ 32" "pre < 256" "fits s t"
    and idx: "B + pre + unat index < 2 ^ 32"
  shows "p_GetByIndex s (pnode t B pre) index = Some (node_getByIndex t index)"
proof (cases t)
  case (Leaf v k x)
  have "B + pre < 2 ^ 32" using assms(3) by linarith
  then show ?thesis
    using leaf_key_value(2) [OF assms(1) [unfolded Leaf] _ assms(5) [unfolded Leaf]]
    by (simp add: Leaf p_GetByIndex_def pnode_def del: of_nat_add)
next
  case (Branch h n v k l r)
  let ?n = "nleaves l + nleaves r"
  have "0 < nleaves l" "0 < nleaves r" by simp_all
  then have n2: "2 \<le> ?n" by linarith
  have cap: "B + pre + ?n < 2 ^ 32"
    using assms(3) by (simp add: Branch)
  note reads = branch_reads [OF assms(1,2) [unfolded Branch] cap assms(4)]
  have i: "of_nat (B + pre) + index = of_nat (B + pre + unat index)"
    by simp
  have past: "of_nat (B + pre + unat index) > (of_nat (B + pre + ?n - 1) :: u32) \<longleftrightarrow> \<not> unat index < ?n"
    using idx cap n2 by (simp add: word_less_nat_alt word_conv del: of_nat_add of_nat_diff) linarith
  have node: "node_getByIndex t index =
      (if unat index < nleaves t then let (k, x, v) = leaves t ! unat index in Some (k, x) else None)"
    by (rule node_getByIndex_wf) (use assms(2,3) in simp_all)
  have "p_GetByIndex s (pnode t B pre) index =
      (if \<not> unat index < ?n then Some None else map_option Some (LeafKeyValue s (of_nat (B + pre + unat index))))"
    unfolding Branch p_GetByIndex_def
    by (simp only: reads if_False Option.bind.simps branch_fields length_hashNode Let_def ucast_pre [OF assms(4)]
      getStartLeaf_placed [OF n2] getEndLeaf_placed [OF n2] i past)
  then show ?thesis
    using placed_nth [OF assms(1,3,5), of "unat index"] node
    by (auto simp: Branch Let_def split_beta)
qed

section \<open>Subtrees of a snapshot\<close>

text \<open>The node reached from a root by going left (\<open>False\<close>) and right (\<open>True\<close>).\<close>

fun node_at :: "node \<Rightarrow> bool list \<Rightarrow> node option" where
  "node_at t [] = Some t"
| "node_at (Branch h n v k l r) (d # ds) = node_at (if d then r else l) ds"
| "node_at (Leaf v k x) (d # ds) = None"

fun p_at :: "snapshot \<Rightarrow> persisted_node \<Rightarrow> bool list \<Rightarrow> persisted_node option" where
  "p_at s p [] = Some p"
| "p_at s p (d # ds) = (if d then p_Right s p else p_Left s p) \<bind> (\<lambda>q. p_at s q ds)"

lemma placed_at:
  assumes "node_at t path = Some u" "placed s t B pre off" "wf_node t" "B + pre + nleaves t < 2 ^ 32"
    "pre + hgt t < 256" "fits s t" "ascending (keys t)"
  obtains B' pre' off' where "placed s u B' pre' off'" "wf_node u" "B' + pre' + nleaves u < 2 ^ 32"
    "pre' + hgt u < 256" "fits s u" "ascending (keys u)" "p_at s (pnode t B pre) path = Some (pnode u B' pre')"
  using assms
proof (induction t path arbitrary: B pre off thesis rule: node_at.induct)
  case (1 t)
  then show ?case by auto
next
  case (2 h n v k l r d ds)
  have cap: "B + pre + (nleaves l + nleaves r) < 2 ^ 32" "pre < 256"
    using "2.prems"(5,6) by simp_all
  note reads = branch_reads [OF "2.prems"(3,4) cap]
  have B: "B + nleaves l - 1 + (pre + 1) = B + pre + nleaves l"
    by (cases "nleaves l") simp_all
  show ?case
  proof (cases d)
    case True
    show ?thesis
    proof (rule "2.IH")
      show "node_at (if d then r else l) ds = Some u" using "2.prems"(2) by simp
      show "placed s (if d then r else l) (B + nleaves l - 1) (pre + 1) (off + length (kv_recs l))"
        using placed_right [OF "2.prems"(3)] True by simp
      show "B + nleaves l - 1 + (pre + 1) + nleaves (if d then r else l) < 2 ^ 32"
        unfolding B using cap(1) True by simp
    qed (use "2.prems" True reads in \<open>auto\<close>)
  next
    case False
    show ?thesis
    proof (rule "2.IH")
      show "node_at (if d then r else l) ds = Some u" using "2.prems"(2) by simp
      show "placed s (if d then r else l) B pre off"
        using placed_left [OF "2.prems"(3)] False by simp
    qed (use "2.prems" False reads in \<open>auto\<close>)
  qed
qed simp

section \<open>Correctness of snapshots\<close>

definition root_writable :: "node option \<Rightarrow> bool" where
  "root_writable root = (case root of None \<Rightarrow> True | Some t \<Rightarrow> writable t)"

lemma open_empty:
  "OpenSnapshot \<lparr>file_metadata = le_put32 SnapshotFileMagic @ le_put32 SnapshotFormat @ le_put32 version,
     file_nodes = [], file_leaves = [], file_kvs = []\<rparr> = Inr (NewEmptySnapshot version)"
  by (simp add: OpenSnapshot_def Let_def NewEmptySnapshot_def)

lemma represents_hash: "represents s p t \<Longrightarrow> p_Hash s p = Some (hashNode t)"
  by (cases t) auto

lemma writable_hgt: "wf_node t \<Longrightarrow> writable t \<Longrightarrow> hgt t < 64"
  using hgt_less [of t 32] by (simp add: writable_def)

lemma snapshot_of_at:
  assumes "tree_inv t" "writable t" "node_at t path = Some u"
  obtains B pre off where "placed (snapshot_of version t) u B pre off" "wf_node u"
    "B + pre + nleaves u < 2 ^ 32" "pre + hgt u < 256" "fits (snapshot_of version t) u"
    "ascending (keys u)" "p_at (snapshot_of version t) (pnode t 0 0) path = Some (pnode u B pre)"
proof -
  have "0 + 0 + nleaves t < 2 ^ 32" "0 + hgt t < 256"
    using assms writable_hgt [of t] by (simp_all add: tree_inv_def writable_def)
  then show ?thesis
    using placed_at [OF assms(3) placed_tree _ _ _ fits_tree [OF assms(2)], of version] assms(1) that
    by (auto simp: tree_inv_def)
qed

lemma write_open:
  assumes "root_inv root" "root_writable root" "\<And>n. \<not> ctx_done n"
  shows "\<exists>dir s. WriteSnapshotWithContext ctx_done version root = Inr dir \<and> OpenSnapshot dir = Inr s \<and>
    snap_version s = version \<and> snap_RootHash s = Some (rootHash root) \<and>
    (case root of None \<Rightarrow> snap_IsEmpty s
     | Some t \<Rightarrow> \<exists>p. snap_root s = Some p \<and> represents s p t)"
proof (cases root)
  case None
  then show ?thesis
    using open_empty [of version]
    by (simp add: WriteSnapshotWithContext_def writeSnapshot_def snap_RootHash_def rootHash_def
      NewEmptySnapshot_def snap_IsEmpty_def)
next
  case (Some t)
  let ?s = "snapshot_of version t"
  have t: "tree_inv t" "writable t"
    using assms Some by (simp_all add: root_writable_def)
  obtain B pre off where at: "placed ?s t B pre off" "wf_node t" "B + pre + nleaves t < 2 ^ 32"
    "pre + hgt t < 256" "fits ?s t" "p_at ?s (pnode t 0 0) [] = Some (pnode t B pre)"
    using snapshot_of_at [OF t, of "[]"] by (metis node_at.simps(1))
  have rep: "represents ?s (pnode t 0 0) t"
    using placed_represents [OF at(1-5)] at(6) by simp
  show ?thesis
    using write_tree [OF assms(3) t(2)] open_tree [OF t(2)] rep represents_hash [OF rep]
    by (simp add: Some snap_RootHash_def rootHash_def snapshot_of_def)
qed



text \<open>
  C12: lookups in a snapshot are lookups in the tree. For every subtree of a valid tree, the
  \<open>PersistedNode\<close> found at the same place of the written snapshot answers \<open>Get\<close>, a binary
  search over the leaves file, as the recursive \<open>Get\<close> of the in-memory node does, index
  included; the root answers \<open>GetByIndex\<close> the same for every index.
\<close>

theorem persisted_lookup_correct:
  assumes "tree_inv t" "writable t" "\<And>n. \<not> ctx_done n" "node_at t path = Some u"
  shows "\<exists>dir s p q. WriteSnapshotWithContext ctx_done version (Some t) = Inr dir \<and> OpenSnapshot dir = Inr s \<and>
    snap_root s = Some p \<and> p_at s p path = Some q \<and>
    p_Get s q key = Some (node_get u key) \<and>
    p_GetByIndex s p index = Some (node_getByIndex t index)"
proof -
  let ?s = "snapshot_of version t"
  obtain B pre off where at: "placed ?s u B pre off" "wf_node u" "B + pre + nleaves u < 2 ^ 32"
    "pre + hgt u < 256" "fits ?s u" "ascending (keys u)" "p_at ?s (pnode t 0 0) path = Some (pnode u B pre)"
    using snapshot_of_at [OF assms(1,2,4)] by blast
  have "p_Get ?s (pnode u B pre) key = Some (node_get u key)"
    using p_Get_placed [OF at(1-3) _ at(5,6)] at(4) node_get_wf [OF at(2,6)] by simp
  moreover have "p_GetByIndex ?s (pnode t 0 0) index = Some (node_getByIndex t index)"
    by (rule p_GetByIndex_placed [OF placed_tree _ _ _ fits_tree])
      (use assms unsigned_less [of index] in \<open>simp_all add: tree_inv_def writable_def\<close>)
  ultimately show ?thesis
    using write_tree [OF assms(3,2)] open_tree [OF assms(2)] at(7) by (simp add: snapshot_of_def)
qed

theorem persisted_lookup_correct_witness:
  "\<exists>dir s p q. WriteSnapshotWithContext (\<lambda>_. False) 9 (Some (Branch 1 2 7 [3] (Leaf 5 [1] [10]) (Leaf 7 [3] [30]))) = Inr dir \<and>
    OpenSnapshot dir = Inr s \<and> snap_root s = Some p \<and> p_at s p [True] = Some q \<and>
    p_Get s q [3] = Some (Some [30], 0) \<and> p_GetByIndex s p 1 = Some (Some ([3], [30]))"
  using persisted_lookup_correct [OF two_leaves_inv, of "\<lambda>_. False" "[True]" "Leaf 7 [3] [30]" 9 "[3]" 1]
  by (simp add: writable_def kv_rec_def)

end
