(* ===== verification/Kv_Store.thy ===== *)
theory Kv_Store
  imports Prelude "HOL-Library.Monad_Syntax"
begin

text \<open>
  Change sets, and the contract of a key-value store that is updated by them. A change set is
  a list of pairs; a pair deletes its key or maps it to a value, where a missing value (nil,
  as protobuf decodes an empty one) stands for the empty string.
\<close>

section \<open>Change sets\<close>

record kv_pair =
  kv_delete :: bool
  kv_key :: bytes
  kv_value :: "bytes option"

abbreviation kv_bytes :: "kv_pair \<Rightarrow> bytes" where
  "kv_bytes p \<equiv> (case kv_value p of None \<Rightarrow> [] | Some x \<Rightarrow> x)"

text \<open>What a change set does to a map.\<close>

definition upd_map :: "kv_pair \<Rightarrow> (bytes \<rightharpoonup> bytes) \<Rightarrow> (bytes \<rightharpoonup> bytes)" where
  "upd_map p m = (if kv_delete p then m(kv_key p := None) else m(kv_key p \<mapsto> kv_bytes p))"

text \<open>Applying a change set with the update operations of a store; \<open>None\<close> is a panic.\<close>

fun apply_pairs :: "('s \<Rightarrow> bytes \<Rightarrow> bytes \<Rightarrow> 's option) \<Rightarrow> ('s \<Rightarrow> bytes \<Rightarrow> 's option) \<Rightarrow> kv_pair list \<Rightarrow> 's \<Rightarrow> 's option" where
  "apply_pairs set_op remove_op [] s = Some s"
| "apply_pairs set_op remove_op (p # ps) s = do {
     s' \<leftarrow> (if kv_delete p then remove_op s (kv_key p) else set_op s (kv_key p) (kv_bytes p));
     apply_pairs set_op remove_op ps s'
   }"

section \<open>The contract\<close>

text \<open>
  \<open>inv\<close> is the invariant of a store, \<open>count\<close> the number of its keys, \<open>lookup\<close> its contents. Below
  the capacity, an update succeeds, keeps the invariant and does to the contents what it should.
\<close>

locale kv_store =
  fixes inv :: "'s \<Rightarrow> bool"
    and count :: "'s \<Rightarrow> nat"
    and lookup :: "'s \<Rightarrow> bytes \<rightharpoonup> bytes"
    and set_op :: "'s \<Rightarrow> bytes \<Rightarrow> bytes \<Rightarrow> 's option"
    and remove_op :: "'s \<Rightarrow> bytes \<Rightarrow> 's option"
    and capacity :: nat
  assumes set_ok: "inv s \<Longrightarrow> count s < capacity \<Longrightarrow>
      \<exists>s'. set_op s k x = Some s' \<and> inv s' \<and> count s' \<le> Suc (count s) \<and> lookup s' = (lookup s)(k \<mapsto> x)"
    and remove_ok: "inv s \<Longrightarrow> count s < capacity \<Longrightarrow>
      \<exists>s'. remove_op s k = Some s' \<and> inv s' \<and> count s' \<le> count s \<and> lookup s' = (lookup s)(k := None)"
begin

lemma apply_pairs_ok:
  assumes "inv s" "count s + length ps \<le> capacity"
  shows "\<exists>s'. apply_pairs set_op remove_op ps s = Some s' \<and> inv s' \<and> count s' \<le> count s + length ps \<and>
    lookup s' = fold upd_map ps (lookup s)"
  using assms
proof (induction ps arbitrary: s)
  case (Cons p ps)
  have "\<exists>s'. (if kv_delete p then remove_op s (kv_key p) else set_op s (kv_key p) (kv_bytes p)) = Some s' \<and>
      inv s' \<and> count s' \<le> Suc (count s) \<and> lookup s' = upd_map p (lookup s)"
    using set_ok [of s "kv_key p" "kv_bytes p"] remove_ok [of s "kv_key p"] Cons.prems
    by (fastforce simp: upd_map_def)
  then obtain s' where s': "(if kv_delete p then remove_op s (kv_key p) else set_op s (kv_key p) (kv_bytes p)) = Some s'"
    "inv s'" "count s' \<le> Suc (count s)" "lookup s' = upd_map p (lookup s)"
    by blast
  then show ?case
    using Cons.IH [of s'] Cons.prems by fastforce
qed simp

end

lemma apply_pairs_append:
  "apply_pairs f g (ps @ qs) s = apply_pairs f g ps s \<bind> apply_pairs f g qs"
proof (induction ps arbitrary: s)
  case (Cons p ps)
  show ?case
    by (cases "if kv_delete p then g s (kv_key p) else f s (kv_key p) (kv_bytes p)") (simp_all add: Cons)
qed simp

end
