(* ===== verification/Iavl_Tree.thy ===== *)
theory Iavl_Tree
  imports Snapshot_Read Kv_Store
begin

text \<open>
  The tree of one store, \<open>src/memiavl/tree.go\<close>, and its iterator, \<open>src/memiavl/iterator.go\<close>. The
  read cache comes from the iavl library and is a parameter: a record of its operations. The
  \<open>cowVersion\<close> field only steers the sharing of memory between copies, which values do not
  have, and \<open>zeroCopy\<close> only the copying of byte strings.
\<close>

section \<open>State\<close>

record 'c cache_ops =
  cache_New :: "int \<Rightarrow> 'c"
  cache_Add :: "bytes \<Rightarrow> bytes \<Rightarrow> 'c \<Rightarrow> 'c"
  cache_Get :: "bytes \<Rightarrow> 'c \<Rightarrow> bytes option \<times> 'c"
  cache_Remove :: "bytes \<Rightarrow> 'c \<Rightarrow> 'c"

record 'c tree =
  tree_version :: u32
  tree_root :: "node option"
  tree_snap :: "snapshot option"
  tree_cache :: "'c option"
  zeroCopy :: bool

definition NewCache :: "'c cache_ops \<Rightarrow> int \<Rightarrow> 'c option" where
  "NewCache ops cacheSize = (if cacheSize = 0 then None else Some (cache_New ops cacheSize))"

definition NewEmptyTree :: "'c cache_ops \<Rightarrow> u64 \<Rightarrow> int \<Rightarrow> 'c tree res" where
  "NewEmptyTree ops version cacheSize =
     (if version \<ge> 0xffffffff then Inl (Panic ''version overflows uint32'')
      else Inr \<lparr>tree_version = ucast version, tree_root = None, tree_snap = None,
                tree_cache = NewCache ops cacheSize, zeroCopy = True\<rparr>)"

definition tree_New :: "'c cache_ops \<Rightarrow> int \<Rightarrow> 'c tree res" where
  "tree_New ops cacheSize = NewEmptyTree ops 0 cacheSize"

definition NewWithInitialVersion :: "'c cache_ops \<Rightarrow> u32 \<Rightarrow> int \<Rightarrow> 'c tree res" where
  "NewWithInitialVersion ops initialVersion cacheSize =
     (if initialVersion \<le> 1 then tree_New ops cacheSize
      else NewEmptyTree ops (ucast (initialVersion - 1)) cacheSize)"

text \<open>
  The node a persisted node stands for, read through its accessors. Heights are bytes, so a
  depth of 256 exhausts every tree.
\<close>

fun p_load :: "nat \<Rightarrow> snapshot \<Rightarrow> persisted_node \<Rightarrow> node option" where
  "p_load 0 s p = None"
| "p_load (Suc depth) s p =
     (if p_isLeaf p then do {
        v \<leftarrow> p_Version s p;
        k \<leftarrow> p_Key s p;
        x \<leftarrow> p_Value s p;
        Some (Leaf v k (case x of None \<Rightarrow> [] | Some x \<Rightarrow> x))
      } else do {
        h \<leftarrow> p_Height s p;
        n \<leftarrow> p_Size s p;
        v \<leftarrow> p_Version s p;
        k \<leftarrow> p_Key s p;
        pl \<leftarrow> p_Left s p;
        pr \<leftarrow> p_Right s p;
        l \<leftarrow> p_load depth s pl;
        r \<leftarrow> p_load depth s pr;
        Some (Branch h n v k l r)
      })"

definition NewFromSnapshot :: "'c cache_ops \<Rightarrow> snapshot \<Rightarrow> bool \<Rightarrow> int \<Rightarrow> 'c tree option" where
  "NewFromSnapshot ops snapshot zc cacheSize = do {
     root \<leftarrow> (case snap_root snapshot of None \<Rightarrow> Some None | Some p \<Rightarrow> map_option Some (p_load 256 snapshot p));
     Some \<lparr>tree_version = snap_version snapshot, tree_root = root, tree_snap = Some snapshot,
           tree_cache = NewCache ops cacheSize, zeroCopy = zc\<rparr>
   }"

definition tree_IsEmpty :: "'c tree \<Rightarrow> bool" where
  "tree_IsEmpty t = (tree_root t = None)"

definition setInitialVersion :: "u32 \<Rightarrow> 'c tree \<Rightarrow> 'c tree" where
  "setInitialVersion initialVersion t =
     (if tree_version t > 0 then t
      else if initialVersion < 1 then t\<lparr>tree_version := 0\<rparr>
      else t\<lparr>tree_version := initialVersion - 1\<rparr>)"

text \<open>The argument is an \<open>int64\<close>; the conversion to \<open>uint32\<close> wraps.\<close>

definition tree_SetInitialVersion :: "int \<Rightarrow> 'c tree \<Rightarrow> 'c tree res" where
  "tree_SetInitialVersion initialVersion t =
     (if initialVersion \<ge> 0xffffffff then Inl (Error ''version overflows uint32'')
      else Inr (setInitialVersion (of_int initialVersion) t))"

definition tree_Copy :: "'c cache_ops \<Rightarrow> int \<Rightarrow> 'c tree \<Rightarrow> 'c tree" where
  "tree_Copy ops cacheSize t = t\<lparr>tree_cache := NewCache ops cacheSize\<rparr>"

section \<open>Updates\<close>

definition tree_set :: "'c cache_ops \<Rightarrow> 'c tree \<Rightarrow> bytes \<Rightarrow> bytes option \<Rightarrow> 'c tree option" where
  "tree_set ops t key value = do {
     let value = (case value of None \<Rightarrow> [] | Some x \<Rightarrow> x);
     (root, updated) \<leftarrow> setRecursive (tree_root t) key value (tree_version t + 1);
     Some (t\<lparr>tree_root := Some root, tree_cache := map_option (cache_Add ops key value) (tree_cache t)\<rparr>)
   }"

definition tree_remove :: "'c cache_ops \<Rightarrow> 'c tree \<Rightarrow> bytes \<Rightarrow> 'c tree option" where
  "tree_remove ops t key = do {
     (val, root, newKey) \<leftarrow> removeRecursive (tree_root t) key (tree_version t + 1);
     Some (t\<lparr>tree_root := root, tree_cache := map_option (cache_Remove ops key) (tree_cache t)\<rparr>)
   }"

fun tree_ApplyChangeSet :: "'c cache_ops \<Rightarrow> kv_pair list \<Rightarrow> 'c tree \<Rightarrow> 'c tree option" where
  "tree_ApplyChangeSet ops [] t = Some t"
| "tree_ApplyChangeSet ops (pair # pairs) t = do {
     t \<leftarrow> (if kv_delete pair then tree_remove ops t (kv_key pair)
           else tree_set ops t (kv_key pair) (kv_value pair));
     tree_ApplyChangeSet ops pairs t
   }"

definition tree_RootHash :: "'c tree \<Rightarrow> bytes" where
  "tree_RootHash t = rootHash (tree_root t)"

definition tree_SaveVersion :: "bool \<Rightarrow> 'c tree \<Rightarrow> (bytes option \<times> int \<times> 'c tree) res" where
  "tree_SaveVersion updateHash t =
     (if tree_version t = 0xffffffff then Inl (Error ''version overflows uint32'')
      else
        let hash = (if updateHash then Some (tree_RootHash t) else None);
            t = t\<lparr>tree_version := tree_version t + 1\<rparr>
        in Inr (hash, uint (tree_version t), t))"

section \<open>Lookup\<close>

definition tree_GetWithIndex :: "'c tree \<Rightarrow> bytes \<Rightarrow> int \<times> bytes option" where
  "tree_GetWithIndex t key =
     (case tree_root t of
        None \<Rightarrow> (0, None)
      | Some root \<Rightarrow> let (val, index) = node_get root key in (uint index, val))"

definition tree_GetByIndex :: "'c tree \<Rightarrow> int \<Rightarrow> (bytes \<times> bytes) option" where
  "tree_GetByIndex t index =
     (if index > 0xffffffff then None
      else case tree_root t of
        None \<Rightarrow> None
      | Some root \<Rightarrow> node_getByIndex root (of_int index))"

definition tree_Get :: "'c cache_ops \<Rightarrow> 'c tree \<Rightarrow> bytes \<Rightarrow> bytes option \<times> 'c tree" where
  "tree_Get ops t key =
     (let (hit, t) =
        (case tree_cache t of
           None \<Rightarrow> (None, t)
         | Some c \<Rightarrow> let (hit, c) = cache_Get ops key c in (hit, t\<lparr>tree_cache := Some c\<rparr>))
      in case hit of
           Some x \<Rightarrow> (Some x, t)
         | None \<Rightarrow>
             (case snd (tree_GetWithIndex t key) of
                None \<Rightarrow> (None, t)
              | Some x \<Rightarrow> (Some x, t\<lparr>tree_cache := map_option (cache_Add ops key x) (tree_cache t)\<rparr>)))"

definition tree_Has :: "'c cache_ops \<Rightarrow> 'c tree \<Rightarrow> bytes \<Rightarrow> bool \<times> 'c tree" where
  "tree_Has ops t key = (let (val, t) = tree_Get ops t key in (val \<noteq> None, t))"

definition tree_Close :: "'c tree \<Rightarrow> 'c tree" where
  "tree_Close t = t\<lparr>tree_snap := None, tree_root := None\<rparr>"

section \<open>The iterator\<close>

record iterator =
  it_start :: "bytes option"
  it_end :: "bytes option"
  it_ascending :: bool
  it_entry :: "(bytes \<times> bytes) option"
  it_valid :: bool
  it_stack :: "node list"

text \<open>
  The loop of \<open>Next\<close>: the next entry in the domain and the remaining stack, top first. A nil
  bound compares like the empty string.
\<close>

function next_loop :: "bytes option \<Rightarrow> bytes option \<Rightarrow> bool \<Rightarrow> node list \<Rightarrow> (bytes \<times> bytes) option \<times> node list" where
  "next_loop start stop asc [] = (None, [])"
| "next_loop start stop asc (node # stack) =
     (let key = node_key node;
          startCmp = bytes_compare (case start of None \<Rightarrow> [] | Some b \<Rightarrow> b) key;
          afterStart = (start = None \<or> startCmp < 0);
          beforeEnd = (case stop of None \<Rightarrow> True | Some e \<Rightarrow> bytes_compare key e < 0)
      in case node of
           Leaf v k x \<Rightarrow>
             (if (afterStart \<or> startCmp = 0) \<and> beforeEnd then (Some (key, x), stack)
              else next_loop start stop asc stack)
         | Branch h s v k l r \<Rightarrow>
             (if asc then
                next_loop start stop asc
                  ((if afterStart then [l] else []) @ (if beforeEnd then [r] else []) @ stack)
              else
                next_loop start stop asc
                  ((if beforeEnd then [r] else []) @ (if afterStart then [l] else []) @ stack)))"
  by pat_completeness auto
termination
  by (relation "measure (\<lambda>(start, stop, asc, stack). sum_list (map (\<lambda>n. 2 * size n + 1) stack))") auto

declare next_loop.simps(2) [simp del]

definition iter_Next :: "iterator \<Rightarrow> iterator" where
  "iter_Next iter =
     (case next_loop (it_start iter) (it_end iter) (it_ascending iter) (it_stack iter) of
        (Some kv, stack) \<Rightarrow> iter\<lparr>it_entry := Some kv, it_stack := stack\<rparr>
      | (None, stack) \<Rightarrow> iter\<lparr>it_valid := False, it_stack := stack\<rparr>)"

definition NewIterator :: "bytes option \<Rightarrow> bytes option \<Rightarrow> bool \<Rightarrow> node option \<Rightarrow> iterator" where
  "NewIterator start stop asc root =
     iter_Next \<lparr>it_start = start, it_end = stop, it_ascending = asc, it_entry = None, it_valid = True,
                it_stack = (case root of None \<Rightarrow> [] | Some n \<Rightarrow> [n])\<rparr>"

definition iter_Close :: "iterator \<Rightarrow> iterator" where
  "iter_Close iter = iter\<lparr>it_valid := False, it_stack := []\<rparr>"

definition tree_Iterator :: "'c tree \<Rightarrow> bytes option \<Rightarrow> bytes option \<Rightarrow> bool \<Rightarrow> iterator" where
  "tree_Iterator t start stop asc = NewIterator start stop asc (tree_root t)"

section \<open>Post-order scan and export\<close>

text \<open>
  \<open>ScanPostOrder\<close>: the nodes in the order the callback sees them. The stack holds a node and
  whether it has been expanded, top first. The result of the callback is not used.
\<close>

function scan_loop :: "(node \<times> bool) list \<Rightarrow> node list" where
  "scan_loop [] = []"
| "scan_loop ((node, expanded) # stack) =
     (case node of
        Leaf v k x \<Rightarrow> node # scan_loop stack
      | Branch h s v k l r \<Rightarrow>
          (if expanded then node # scan_loop stack
           else scan_loop ((l, False) # (r, False) # (node, True) # stack)))"
  by pat_completeness auto
termination
  by (relation "measure (\<lambda>stack. sum_list (map (\<lambda>(n, e). if e then 1 else 3 * size n + 1) stack))") auto

definition ScanPostOrder :: "'c tree \<Rightarrow> node list" where
  "ScanPostOrder t = (case tree_root t of None \<Rightarrow> [] | Some n \<Rightarrow> scan_loop [(n, False)])"

record export_node =
  en_Key :: bytes
  en_Value :: "bytes option"
  en_Version :: int
  en_Height :: int

text \<open>The conversion of the \<open>uint8\<close> height to \<open>int8\<close> reinterprets its bits.\<close>

definition to_export :: "node \<Rightarrow> export_node" where
  "to_export node = \<lparr>en_Key = node_key node, en_Value = node_value node,
     en_Version = uint (node_version node), en_Height = sint (node_height node)\<rparr>"

section \<open>Post-order\<close>

fun postorder :: "node \<Rightarrow> node list" where
  "postorder (Leaf v k x) = [Leaf v k x]"
| "postorder (Branch h s v k l r) = postorder l @ postorder r @ [Branch h s v k l r]"

lemma scan_loop_postorder: "scan_loop ((t, False) # stack) = postorder t @ scan_loop stack"
  by (induction t arbitrary: stack) auto

section \<open>The iterator visits the entries of its domain in order\<close>

definition in_domain :: "bytes option \<Rightarrow> bytes option \<Rightarrow> bytes \<Rightarrow> bool" where
  "in_domain start stop key \<longleftrightarrow>
     (case start of None \<Rightarrow> True | Some b \<Rightarrow> b \<le> key) \<and> (case stop of None \<Rightarrow> True | Some e \<Rightarrow> key < e)"

text \<open>The entries of a subtree that the iterator visits, in its direction.\<close>

definition entries :: "bytes option \<Rightarrow> bytes option \<Rightarrow> bool \<Rightarrow> leaf list \<Rightarrow> (bytes \<times> bytes) list" where
  "entries start stop asc xs =
     (let ys = map (\<lambda>(k, x, v). (k, x)) (filter (\<lambda>(k, x, v). in_domain start stop k) xs)
      in if asc then ys else rev ys)"

lemma entries_append:
  "entries start stop True (xs @ ys) = entries start stop True xs @ entries start stop True ys"
  "entries start stop False (xs @ ys) = entries start stop False ys @ entries start stop False xs"
  by (simp_all add: entries_def Let_def)

lemma entries_empty: "(\<And>x. x \<in> set xs \<Longrightarrow> \<not> in_domain start stop (fst x)) \<Longrightarrow> entries start stop asc xs = []"
  by (auto simp: entries_def Let_def filter_empty_conv)

definition pending :: "bytes option \<Rightarrow> bytes option \<Rightarrow> bool \<Rightarrow> node list \<Rightarrow> (bytes \<times> bytes) list" where
  "pending start stop asc stack = concat (map (\<lambda>n. entries start stop asc (leaves n)) stack)"

lemma pending_simps [simp]:
  "pending start stop asc [] = []"
  "pending start stop asc (n # stack) = entries start stop asc (leaves n) @ pending start stop asc stack"
  "pending start stop asc (xs @ ys) = pending start stop asc xs @ pending start stop asc ys"
  by (simp_all add: pending_def)

lemma next_loop_Leaf:
  "next_loop start stop asc (Leaf v k x # stack) =
     (if in_domain start stop k then (Some (k, x), stack) else next_loop start stop asc stack)"
  by (auto simp: next_loop.simps(2) Let_def in_domain_def split: option.splits)

lemma next_loop_Branch:
  "next_loop start stop asc (Branch h s v k l r # stack) =
     next_loop start stop asc
       (let left = (if case start of None \<Rightarrow> True | Some b \<Rightarrow> b < k then [l] else []);
            right = (if case stop of None \<Rightarrow> True | Some e \<Rightarrow> k < e then [r] else [])
        in (if asc then left @ right else right @ left) @ stack)"
  by (auto simp: next_loop.simps(2) Let_def split: option.splits)

text \<open>The child a branch does not push has no entry in the domain.\<close>

lemma pending_children:
  assumes "tree_inv (Branch h s v k l r)"
  shows "pending start stop asc
       (let left = (if case start of None \<Rightarrow> True | Some b \<Rightarrow> b < k then [l] else []);
            right = (if case stop of None \<Rightarrow> True | Some e \<Rightarrow> k < e then [r] else [])
        in if asc then left @ right else right @ left) =
     entries start stop asc (leaves l @ leaves r)"
proof -
  have k: "k = hd (keys r)" and asc': "ascending (keys r)" "ascending (keys l @ keys r)"
    using assms by (auto simp: tree_inv_def)
  have "entries start stop asc (leaves l) = []" if "\<not> (case start of None \<Rightarrow> True | Some b \<Rightarrow> b < k)"
    using that hd_keys_above [OF asc'(2)] k
    by (intro entries_empty) (force simp: in_domain_def split: option.splits)
  moreover have "entries start stop asc (leaves r) = []" if "\<not> (case stop of None \<Rightarrow> True | Some e \<Rightarrow> k < e)"
    using that hd_keys_least [OF asc'(1)] k
    by (intro entries_empty) (force simp: in_domain_def split: option.splits)
  ultimately show ?thesis
    by (cases asc) (simp_all add: Let_def entries_append)
qed

lemma tree_inv_children: "tree_inv (Branch h s v k l r) \<Longrightarrow> tree_inv l \<and> tree_inv r"
  by (auto simp: tree_inv_def)

text \<open>A result of \<open>Next\<close> is right for a list of entries: it yields the first, and the stack the rest.\<close>

fun next_ok :: "bytes option \<Rightarrow> bytes option \<Rightarrow> bool \<Rightarrow> (bytes \<times> bytes) list \<Rightarrow> (bytes \<times> bytes) option \<times> node list \<Rightarrow> bool" where
  "next_ok start stop asc kvs (None, stack) = (kvs = [] \<and> stack = [])"
| "next_ok start stop asc kvs (Some kv, stack) = (kvs = kv # pending start stop asc stack \<and> list_all tree_inv stack)"

lemma next_loop_pending:
  "list_all tree_inv stack \<Longrightarrow>
   next_ok start stop asc (pending start stop asc stack) (next_loop start stop asc stack)"
proof (induction stack rule: measure_induct_rule [of "\<lambda>stack. sum_list (map (\<lambda>n. 2 * size n + 1) stack)"])
  case (less stack)
  show ?case
  proof (cases stack)
    case (Cons node rest)
    show ?thesis
    proof (cases node)
      case (Leaf v k x)
      then show ?thesis
        using less.IH [of rest] less.prems by (cases asc) (simp_all add: Cons next_loop_Leaf entries_def)
    next
      case (Branch h s v k l r)
      let ?ch = "let left = (if case start of None \<Rightarrow> True | Some b \<Rightarrow> b < k then [l] else []);
            right = (if case stop of None \<Rightarrow> True | Some e \<Rightarrow> k < e then [r] else [])
        in if asc then left @ right else right @ left"
      have inv: "tree_inv (Branch h s v k l r)"
        using less.prems by (simp add: Cons Branch)
      have "next_loop start stop asc stack = next_loop start stop asc (?ch @ rest)"
        by (simp add: Cons Branch next_loop_Branch Let_def)
      moreover have "pending start stop asc stack = pending start stop asc (?ch @ rest)"
        using pending_children [OF inv, of start stop asc] by (simp only: Cons Branch pending_simps leaves.simps)
      moreover have "list_all tree_inv (?ch @ rest)"
        using less.prems tree_inv_children [OF inv] by (simp add: Cons Let_def)
      moreover have "sum_list (map (\<lambda>n. 2 * size n + 1) (?ch @ rest)) < sum_list (map (\<lambda>n. 2 * size n + 1) stack)"
        by (simp add: Cons Branch Let_def)
      ultimately show ?thesis
        using less.IH [of "?ch @ rest"] by (simp only:)
    qed
  qed simp
qed

text \<open>
  Reading an iterator to its end, as a caller does: the current entry while it is valid, then
  \<open>Next\<close>. The fuel bounds the number of calls of \<open>Next\<close>.
\<close>

fun collect :: "nat \<Rightarrow> iterator \<Rightarrow> (bytes \<times> bytes) list option" where
  "collect 0 iter = None"
| "collect (Suc n) iter =
     (if \<not> it_valid iter then Some []
      else case it_entry iter of
        None \<Rightarrow> None
      | Some kv \<Rightarrow> map_option (\<lambda>kvs. kv # kvs) (collect n (iter_Next iter)))"

lemma collect_Next:
  assumes "list_all tree_inv (it_stack iter)" "it_valid iter"
    and "length (pending (it_start iter) (it_end iter) (it_ascending iter) (it_stack iter)) < n"
  shows "collect n (iter_Next iter) = Some (pending (it_start iter) (it_end iter) (it_ascending iter) (it_stack iter))"
  using assms
proof (induction n arbitrary: iter)
  case (Suc n)
  obtain e stack where nl: "next_loop (it_start iter) (it_end iter) (it_ascending iter) (it_stack iter) = (e, stack)"
    by fastforce
  have ok: "next_ok (it_start iter) (it_end iter) (it_ascending iter)
      (pending (it_start iter) (it_end iter) (it_ascending iter) (it_stack iter)) (e, stack)"
    using next_loop_pending [OF Suc.prems(1)] unfolding nl [symmetric] by blast
  show ?case
  proof (cases e)
    case None
    then show ?thesis
      using ok by (simp add: iter_Next_def nl)
  next
    case (Some kv)
    have "collect n (iter_Next (iter\<lparr>it_entry := Some kv, it_stack := stack\<rparr>)) =
        Some (pending (it_start iter) (it_end iter) (it_ascending iter) stack)"
      using Suc.IH [of "iter\<lparr>it_entry := Some kv, it_stack := stack\<rparr>"] Suc.prems ok Some by simp
    moreover have "iter_Next iter = iter\<lparr>it_entry := Some kv, it_stack := stack\<rparr>"
      by (simp add: iter_Next_def nl Some)
    ultimately show ?thesis
      using Suc.prems(2) ok Some by simp
  qed
qed simp

lemma length_entries: "length (entries start stop asc xs) \<le> length xs"
  by (auto simp: entries_def Let_def)

section \<open>Loading a snapshot\<close>

lemma p_load_represents: "represents s p t \<Longrightarrow> hgt t < depth \<Longrightarrow> p_load depth s p = Some t"
proof (induction t arbitrary: p depth)
  case (Leaf v k x)
  then show ?case by (cases depth) auto
next
  case (Branch h n v k l r)
  then show ?case by (cases depth) (auto split: option.splits)
qed

section \<open>Updates of a tree\<close>

text \<open>The updates of a root at a version implement the contract of a key-value store.\<close>

definition root_set :: "u32 \<Rightarrow> node option \<Rightarrow> bytes \<Rightarrow> bytes \<Rightarrow> node option option" where
  "root_set version root key x = map_option (\<lambda>(t, updated). Some t) (setRecursive root key x version)"

definition root_remove :: "u32 \<Rightarrow> node option \<Rightarrow> bytes \<Rightarrow> node option option" where
  "root_remove version root key = map_option (\<lambda>(val, root', newKey). root') (removeRecursive root key version)"

lemma length_del_leaves_le: "length (del_leaves key xs) \<le> length xs"
  by (simp add: del_leaves_def)

interpretation root_kv: kv_store root_inv "\<lambda>root. length (root_leaves root)" root_lookup
    "root_set version" "root_remove version" "2 ^ 62"
  for version
proof
  fix s :: "node option" and k x :: bytes
  assume inv: "root_inv s" and cap: "length (root_leaves s) < 2 ^ 62"
  obtain t where "setRecursive s k x version = Some (t, s = None \<or> has_key k (root_leaves s))"
    "tree_inv t" "leaves t = upd_leaves k x version (root_leaves s)" "lookup t = (root_lookup s)(k \<mapsto> x)"
    using inv cap by (rule setRecursive_wf)
  then show "\<exists>s'. root_set version s k x = Some s' \<and> root_inv s' \<and>
      length (root_leaves s') \<le> Suc (length (root_leaves s)) \<and> root_lookup s' = (root_lookup s)(k \<mapsto> x)"
    using length_upd_leaves [OF root_inv_ascending [OF inv]] by (auto simp: root_set_def)
  obtain s' newKey where "removeRecursive s k version = Some (root_lookup s k, s', newKey)"
    "root_inv s'" "root_leaves s' = del_leaves k (root_leaves s)" "root_lookup s' = (root_lookup s)(k := None)"
    using inv cap by (rule removeRecursive_wf)
  then show "\<exists>s'. root_remove version s k = Some s' \<and> root_inv s' \<and>
      length (root_leaves s') \<le> length (root_leaves s) \<and> root_lookup s' = (root_lookup s)(k := None)"
    using length_del_leaves_le by (auto simp: root_remove_def)
qed

text \<open>What a change set does to the cache.\<close>

definition cache_pair :: "'c cache_ops \<Rightarrow> kv_pair \<Rightarrow> 'c \<Rightarrow> 'c" where
  "cache_pair ops p = (if kv_delete p then cache_Remove ops (kv_key p) else cache_Add ops (kv_key p) (kv_bytes p))"

lemma tree_ApplyChangeSet_root:
  "tree_ApplyChangeSet ops ps t =
     map_option (\<lambda>root. t\<lparr>tree_root := root, tree_cache := map_option (fold (cache_pair ops) ps) (tree_cache t)\<rparr>)
       (apply_pairs (root_set (tree_version t + 1)) (root_remove (tree_version t + 1)) ps (tree_root t))"
proof (induction ps arbitrary: t)
  case Nil
  show ?case by (simp add: option.map_id0 id_def [symmetric])
next
  case (Cons p ps)
  show ?case
  proof (cases "kv_delete p")
    case True
    then show ?thesis
      by (cases "removeRecursive (tree_root t) (kv_key p) (tree_version t + 1)")
        (auto simp: tree_remove_def root_remove_def Cons cache_pair_def option.map_comp o_def)
  next
    case False
    then show ?thesis
      by (cases "setRecursive (tree_root t) (kv_key p) (kv_bytes p) (tree_version t + 1)")
        (auto simp: tree_set_def root_set_def Cons cache_pair_def option.map_comp o_def)
  qed
qed

section \<open>The cache\<close>

text \<open>
  What the code relies on of the cache: with \<open>view\<close> the entries a cache holds, adding and
  removing a key changes that key only and may evict others, and a lookup returns the entry
  that is held.
\<close>

definition cache_contract :: "'c cache_ops \<Rightarrow> ('c \<Rightarrow> bytes \<rightharpoonup> bytes) \<Rightarrow> bool" where
  "cache_contract ops view \<longleftrightarrow>
     (\<forall>n. view (cache_New ops n) = Map.empty) \<and>
     (\<forall>k x c. view (cache_Add ops k x c) \<subseteq>\<^sub>m (view c)(k \<mapsto> x)) \<and>
     (\<forall>k c. view (cache_Remove ops k c) \<subseteq>\<^sub>m (view c)(k := None)) \<and>
     (\<forall>k c. fst (cache_Get ops k c) = view c k \<and> view (snd (cache_Get ops k c)) \<subseteq>\<^sub>m view c)"

text \<open>A tree is valid: the root satisfies the invariant, and the cache only holds what the tree holds.\<close>

definition tree_ok :: "('c \<Rightarrow> bytes \<rightharpoonup> bytes) \<Rightarrow> 'c tree \<Rightarrow> bool" where
  "tree_ok view t \<longleftrightarrow> root_inv (tree_root t) \<and>
     (\<forall>c. tree_cache t = Some c \<longrightarrow> view c \<subseteq>\<^sub>m root_lookup (tree_root t))"

abbreviation contents :: "'c tree \<Rightarrow> bytes \<rightharpoonup> bytes" where
  "contents t \<equiv> root_lookup (tree_root t)"

abbreviation tree_count :: "'c tree \<Rightarrow> nat" where
  "tree_count t \<equiv> length (root_leaves (tree_root t))"

lemma upd_map_mono: "m \<subseteq>\<^sub>m m' \<Longrightarrow> upd_map p m \<subseteq>\<^sub>m upd_map p m'"
  by (auto simp: upd_map_def map_le_def)

lemma cache_pair_view:
  assumes "cache_contract ops view" "view c \<subseteq>\<^sub>m m"
  shows "view (cache_pair ops p c) \<subseteq>\<^sub>m upd_map p m"
proof -
  have "view (cache_pair ops p c) \<subseteq>\<^sub>m upd_map p (view c)"
    using assms(1) by (auto simp: cache_contract_def cache_pair_def upd_map_def)
  then show ?thesis
    using upd_map_mono [OF assms(2)] map_le_trans by blast
qed

lemma fold_cache_pair_view:
  "cache_contract ops view \<Longrightarrow> view c \<subseteq>\<^sub>m m \<Longrightarrow> view (fold (cache_pair ops) ps c) \<subseteq>\<^sub>m fold upd_map ps m"
  by (induction ps arbitrary: c m) (auto simp: cache_pair_view)

lemma tree_ApplyChangeSet_ok:
  assumes "cache_contract ops view" "tree_ok view t" "tree_count t + length ps \<le> 2 ^ 62"
  obtains t' where "tree_ApplyChangeSet ops ps t = Some t'" "tree_ok view t'"
    "contents t' = fold upd_map ps (contents t)" "tree_count t' \<le> tree_count t + length ps"
    "tree_version t' = tree_version t" "tree_snap t' = tree_snap t"
proof -
  obtain root where root: "apply_pairs (root_set (tree_version t + 1)) (root_remove (tree_version t + 1)) ps (tree_root t) = Some root"
    "root_inv root" "length (root_leaves root) \<le> tree_count t + length ps"
    "root_lookup root = fold upd_map ps (contents t)"
    using root_kv.apply_pairs_ok [of "tree_root t" ps "tree_version t + 1"] assms by (auto simp: tree_ok_def)
  show ?thesis
    by (rule that [of "t\<lparr>tree_root := root, tree_cache := map_option (fold (cache_pair ops) ps) (tree_cache t)\<rparr>"])
      (use root assms fold_cache_pair_view [OF assms(1)] in \<open>auto simp: tree_ok_def tree_ApplyChangeSet_root\<close>)
qed

lemma tree_Get_ok:
  assumes "cache_contract ops view" "tree_ok view t"
  shows "fst (tree_Get ops t key) = contents t key" "tree_root (snd (tree_Get ops t key)) = tree_root t"
    "tree_ok view (snd (tree_Get ops t key))"
proof -
  have get: "snd (tree_GetWithIndex u key) = contents u key" if "root_inv (tree_root u)" for u :: "'a tree"
    using that by (auto simp: tree_GetWithIndex_def root_lookup_def tree_inv_def node_get_wf split: option.splits)
  have held: "fst (cache_Get ops key c) = Some x \<Longrightarrow> contents t key = Some x"
    "view (snd (cache_Get ops key c)) \<subseteq>\<^sub>m contents t"
    "contents t key = Some x \<Longrightarrow> view (cache_Add ops key x (snd (cache_Get ops key c))) \<subseteq>\<^sub>m contents t"
    if "tree_cache t = Some c" for c x
  proof -
    have le: "view c \<subseteq>\<^sub>m contents t" and g: "fst (cache_Get ops key c) = view c key"
      "view (snd (cache_Get ops key c)) \<subseteq>\<^sub>m view c"
      "view (cache_Add ops key x (snd (cache_Get ops key c))) \<subseteq>\<^sub>m (view (snd (cache_Get ops key c)))(key \<mapsto> x)"
      using assms that by (auto simp: tree_ok_def cache_contract_def)
    show "fst (cache_Get ops key c) = Some x \<Longrightarrow> contents t key = Some x"
      using le g(1) by (auto simp: map_le_def dom_def)
    show le': "view (snd (cache_Get ops key c)) \<subseteq>\<^sub>m contents t"
      using le g(2) map_le_trans by blast
    show "view (cache_Add ops key x (snd (cache_Get ops key c))) \<subseteq>\<^sub>m contents t" if "contents t key = Some x"
    proof -
      have "(view (snd (cache_Get ops key c)))(key \<mapsto> x) \<subseteq>\<^sub>m contents t"
        using le' that by (auto simp: map_le_def)
      then show ?thesis using g(3) map_le_trans by blast
    qed
  qed
  have inv: "root_inv (tree_root t)" using assms(2) by (simp add: tree_ok_def)
  have "fst (tree_Get ops t key) = contents t key \<and> tree_root (snd (tree_Get ops t key)) = tree_root t \<and>
      tree_ok view (snd (tree_Get ops t key))"
  proof (cases "tree_cache t")
    case None
    then show ?thesis
      using get [of t] inv by (auto simp: tree_Get_def tree_ok_def split: option.splits)
  next
    case (Some c)
    show ?thesis
      using held [OF Some] get [of "t\<lparr>tree_cache := Some (snd (cache_Get ops key c))\<rparr>"] inv Some
      by (cases "fst (cache_Get ops key c)"; cases "contents t key")
        (auto simp: tree_Get_def tree_ok_def split_beta)
  qed
  then show "fst (tree_Get ops t key) = contents t key" "tree_root (snd (tree_Get ops t key)) = tree_root t"
    "tree_ok view (snd (tree_Get ops t key))"
    by blast+
qed

section \<open>Correctness of the tree\<close>

text \<open>
  C13: a change set does what it says, through the cache. On a valid tree with room for it,
  \<open>ApplyChangeSet\<close> does not panic and leaves a valid tree, and \<open>Get\<close>, which may answer from
  the cache, returns for every key what applying the pairs one after the other to the old
  contents gives; \<open>Get\<close> itself keeps the tree valid.
\<close>

theorem change_set_then_get:
  assumes "cache_contract ops view" "tree_ok view t" "tree_count t + length pairs \<le> 2 ^ 62"
  shows "\<exists>t'. tree_ApplyChangeSet ops pairs t = Some t' \<and> tree_ok view t' \<and>
    (\<forall>key. fst (tree_Get ops t' key) = fold upd_map pairs (contents t) key \<and>
       fst (tree_Has ops t' key) = (fold upd_map pairs (contents t) key \<noteq> None) \<and>
       tree_ok view (snd (tree_Get ops t' key)))"
proof -
  obtain t' where t': "tree_ApplyChangeSet ops pairs t = Some t'" "tree_ok view t'"
    "contents t' = fold upd_map pairs (contents t)"
    using tree_ApplyChangeSet_ok [OF assms] by blast
  then show ?thesis
    using tree_Get_ok [OF assms(1) t'(2)] by (auto simp: tree_Has_def split_beta)
qed

text \<open>
  C14: the iterator returns exactly the entries of its domain, in order. Reading an iterator of a
  valid tree to its end ends within as many calls of \<open>Next\<close> as the tree has leaves, and
  yields the entries whose key is at least \<open>start\<close> and below \<open>end\<close> (nil bounds are open), by
  ascending key, or in reverse.
\<close>

theorem iterator_complete:
  assumes "root_inv (tree_root t)" "tree_count t < n"
  shows "collect n (tree_Iterator t start stop asc) = Some (entries start stop asc (root_leaves (tree_root t)))"
proof -
  let ?i = "\<lparr>it_start = start, it_end = stop, it_ascending = asc, it_entry = None, it_valid = True,
    it_stack = (case tree_root t of None \<Rightarrow> [] | Some n \<Rightarrow> [n])\<rparr>"
  have p: "pending start stop asc (it_stack ?i) = entries start stop asc (root_leaves (tree_root t))"
    by (cases "tree_root t") (simp_all add: entries_def Let_def)
  have "collect n (iter_Next ?i) = Some (pending (it_start ?i) (it_end ?i) (it_ascending ?i) (it_stack ?i))"
    by (rule collect_Next)
      (use assms p length_entries [of start stop asc "root_leaves (tree_root t)"] in \<open>auto split: option.splits\<close>)
  then show ?thesis
    using p by (simp add: tree_Iterator_def NewIterator_def)
qed

lemma tree_reload:
  assumes "root_inv (tree_root t)" "root_writable (tree_root t)" "\<And>n. \<not> ctx_done n"
  shows "\<exists>dir s t'. WriteSnapshotWithContext ctx_done (tree_version t) (tree_root t) = Inr dir \<and>
    OpenSnapshot dir = Inr s \<and> NewFromSnapshot ops s zc cacheSize = Some t' \<and>
    tree_version t' = tree_version t \<and> tree_root t' = tree_root t \<and> tree_RootHash t' = tree_RootHash t"
proof -
  obtain dir s where s: "WriteSnapshotWithContext ctx_done (tree_version t) (tree_root t) = Inr dir"
    "OpenSnapshot dir = Inr s" "snap_version s = tree_version t"
    "case tree_root t of None \<Rightarrow> snap_IsEmpty s | Some t \<Rightarrow> \<exists>p. snap_root s = Some p \<and> represents s p t"
    using write_open [OF assms(1,2), of ctx_done "tree_version t"] assms(3) by blast
  show ?thesis
  proof (cases "tree_root t")
    case None
    then show ?thesis
      using s by (auto simp: NewFromSnapshot_def snap_IsEmpty_def tree_RootHash_def)
  next
    case (Some n)
    then obtain p where p: "snap_root s = Some p" "represents s p n"
      using s(4) by auto
    have "hgt n < 256"
      using writable_hgt [of n] assms(1,2) Some by (simp add: root_writable_def tree_inv_def)
    then show ?thesis
      using s p p_load_represents [OF p(2)] Some by (simp add: NewFromSnapshot_def tree_RootHash_def)
  qed
qed


section \<open>Instances\<close>

text \<open>A cache of bounded length that keeps the entries in the order of their last use.\<close>

definition list_cache :: "(nat \<times> (bytes \<times> bytes) list) cache_ops" where
  "list_cache = \<lparr>cache_New = \<lambda>n. (nat n, []),
     cache_Add = \<lambda>k x (n, l). (n, take n ((k, x) # filter (\<lambda>(k', _). k' \<noteq> k) l)),
     cache_Get = \<lambda>k (n, l). (case map_of l k of None \<Rightarrow> (None, (n, l))
       | Some x \<Rightarrow> (Some x, (n, (k, x) # filter (\<lambda>(k', _). k' \<noteq> k) l))),
     cache_Remove = \<lambda>k (n, l). (n, filter (\<lambda>(k', _). k' \<noteq> k) l)\<rparr>"

lemma map_of_take_le: "map_of (take n xs) \<subseteq>\<^sub>m map_of xs"
proof -
  have "map_of (take n xs) \<subseteq>\<^sub>m map_of (take n xs @ drop n xs)"
    by (auto simp: map_le_def map_add_def simp del: append_take_drop_id)
  then show ?thesis by simp
qed

lemma map_of_filter_key: "map_of (filter (\<lambda>(k', _). k' \<noteq> k) l) = (map_of l)(k := None)"
  by (induction l) auto

lemma list_cache_contract: "cache_contract list_cache (\<lambda>(n, l). map_of l)"
proof -
  have "map_of (take n ((k, x) # filter (\<lambda>(k', _). k' \<noteq> k) l)) \<subseteq>\<^sub>m (map_of l)(k \<mapsto> x)"
    for n :: nat and k x :: bytes and l
    using map_of_take_le [of n "(k, x) # filter (\<lambda>(k', _). k' \<noteq> k) l"] by (simp add: map_of_filter_key)
  then show ?thesis
    by (auto simp: cache_contract_def list_cache_def map_of_filter_key map_le_def split: option.splits)
qed

definition sample_tree :: "(nat \<times> (bytes \<times> bytes) list) tree" where
  "sample_tree = \<lparr>tree_version = 7, tree_root = Some (Branch 1 2 7 [3] (Leaf 5 [1] [10]) (Leaf 7 [3] [30])),
     tree_snap = None, tree_cache = Some (2, []), zeroCopy = True\<rparr>"

theorem change_set_then_get_witness:
  "\<exists>t'. tree_ApplyChangeSet list_cache
      [\<lparr>kv_delete = False, kv_key = [2], kv_value = Some [20]\<rparr>, \<lparr>kv_delete = True, kv_key = [1], kv_value = None\<rparr>]
      sample_tree = Some t' \<and>
    fst (tree_Get list_cache t' [1]) = None \<and> fst (tree_Get list_cache t' [2]) = Some [20] \<and>
    fst (tree_Get list_cache t' [3]) = Some [30]"
  using change_set_then_get [OF list_cache_contract, of sample_tree
      "[\<lparr>kv_delete = False, kv_key = [2], kv_value = Some [20]\<rparr>, \<lparr>kv_delete = True, kv_key = [1], kv_value = None\<rparr>]"]
    two_leaves_inv by (fastforce simp: sample_tree_def tree_ok_def upd_map_def lookup_def)

theorem iterator_complete_witness:
  "collect 3 (tree_Iterator sample_tree (Some [2]) None True) = Some [([3], [30])]"
  using iterator_complete [of sample_tree 3 "Some [2]" None True] two_leaves_inv
  by (simp add: sample_tree_def entries_def in_domain_def)


end
