(* ===== verification/Iavl_Proof.thy ===== *)
theory Iavl_Proof
  imports Iavl_Tree
begin

text \<open>
  Membership and non-membership proofs, \<open>src/memiavl/proof.go\<close>. The ICS-23 library that checks
  proofs is a parameter: the functions that apply a leaf operation and an inner operation, with
  their documented meaning as a hypothesis, and its two verification functions.
\<close>

section \<open>Proofs\<close>

text \<open>The operations, all with SHA-256; the leaf operation hashes the value first.\<close>

record leaf_op =
  lo_Prefix :: bytes

record inner_op =
  io_Prefix :: bytes
  io_Suffix :: bytes

record existence_proof =
  ep_Key :: bytes
  ep_Value :: "bytes option"
  ep_Leaf :: leaf_op
  ep_Path :: "inner_op list"

record nonexistence_proof =
  np_Key :: bytes
  np_Left :: "existence_proof option"
  np_Right :: "existence_proof option"

datatype commitment_proof = Exist existence_proof | Nonexist nonexistence_proof

text \<open>\<open>iavl.ProofInnerNode\<close>.\<close>

record proof_inner_node =
  pi_Height :: int
  pi_Size :: u64
  pi_Version :: int
  pi_Left :: bytes
  pi_Right :: bytes

definition convertVarIntToBytes :: "int \<Rightarrow> bytes" where
  "convertVarIntToBytes orig = putVarint (of_int orig)"

definition convertLeafOp :: "int \<Rightarrow> leaf_op" where
  "convertLeafOp version =
     \<lparr>lo_Prefix = convertVarIntToBytes 0 @ convertVarIntToBytes 1 @ convertVarIntToBytes version\<rparr>"

definition convertInnerOp :: "proof_inner_node \<Rightarrow> inner_op" where
  "convertInnerOp p =
     (let lengthByte = 0x20;
          prefix = convertVarIntToBytes (pi_Height p) @ putVarint (pi_Size p) @ convertVarIntToBytes (pi_Version p)
      in if length (pi_Left p) > 0 then
           \<lparr>io_Prefix = prefix @ [lengthByte] @ pi_Left p @ [lengthByte], io_Suffix = []\<rparr>
         else
           \<lparr>io_Prefix = prefix @ [lengthByte], io_Suffix = [lengthByte] @ pi_Right p\<rparr>)"

definition convertInnerOps :: "proof_inner_node list \<Rightarrow> inner_op list" where
  "convertInnerOps path = map convertInnerOp (rev path)"

text \<open>\<open>pathToLeaf\<close>: the path from the root, the leaf it ends in, and whether the leaf has the key.\<close>

fun pathToLeaf :: "node \<Rightarrow> bytes \<Rightarrow> proof_inner_node list \<times> node \<times> bool" where
  "pathToLeaf (Leaf v k x) key = ([], Leaf v k x, k = key)"
| "pathToLeaf (Branch h s v k l r) key =
     (if bytes_compare key k < 0 then
        let (path, node, found) = pathToLeaf l key
        in (\<lparr>pi_Height = sint h, pi_Size = s, pi_Version = uint v, pi_Left = [], pi_Right = hashNode r\<rparr> # path,
            node, found)
      else
        let (path, node, found) = pathToLeaf r key
        in (\<lparr>pi_Height = sint h, pi_Size = s, pi_Version = uint v, pi_Left = hashNode l, pi_Right = []\<rparr> # path,
            node, found))"

text \<open>A nil root is a panic.\<close>

definition createExistenceProof :: "node option \<Rightarrow> bytes \<Rightarrow> existence_proof res" where
  "createExistenceProof root key =
     (case root of
        None \<Rightarrow> Inl (Panic ''nil pointer'')
      | Some t \<Rightarrow>
          (let (path, node, found) = pathToLeaf t key in
           if found then
             Inr \<lparr>ep_Key = node_key node, ep_Value = node_value node,
                  ep_Leaf = convertLeafOp (uint (node_version node)), ep_Path = convertInnerOps path\<rparr>
           else Inl (Error ''key does not exist'')))"

definition GetMembershipProof :: "'c tree \<Rightarrow> bytes \<Rightarrow> commitment_proof res" where
  "GetMembershipProof t key =
     (case createExistenceProof (tree_root t) key of
        Inl err \<Rightarrow> Inl err
      | Inr exist \<Rightarrow> Inr (Exist exist))"

definition GetNonMembershipProof :: "'c tree \<Rightarrow> bytes \<Rightarrow> commitment_proof res" where
  "GetNonMembershipProof t key =
     (let (idx, val) = tree_GetWithIndex t key in
      if val \<noteq> None then Inl (Error ''cannot create NonExistanceProof when Key in State'')
      else
        case
          (if idx \<ge> 1 then
             (case tree_GetByIndex t (idx - 1) of
                None \<Rightarrow> map_sum id Some (createExistenceProof (tree_root t) [])
              | Some (leftkey, _) \<Rightarrow> map_sum id Some (createExistenceProof (tree_root t) leftkey))
           else Inr None)
        of
          Inl err \<Rightarrow> Inl err
        | Inr left \<Rightarrow>
            (case
               (case tree_GetByIndex t idx of
                  None \<Rightarrow> Inr None
                | Some (rightkey, _) \<Rightarrow> map_sum id Some (createExistenceProof (tree_root t) rightkey))
             of
               Inl err \<Rightarrow> Inl err
             | Inr right \<Rightarrow> Inr (Nonexist \<lparr>np_Key = key, np_Left = left, np_Right = right\<rparr>)))"

text \<open>The verification functions of the library take a root hash and a proof.\<close>

definition tree_VerifyMembership ::
  "(bytes \<Rightarrow> commitment_proof \<Rightarrow> bytes \<Rightarrow> bytes option \<Rightarrow> bool) \<Rightarrow> 'c cache_ops \<Rightarrow> 'c tree \<Rightarrow> commitment_proof \<Rightarrow> bytes \<Rightarrow> bool \<times> 'c tree" where
  "tree_VerifyMembership verify ops t proof key =
     (let (val, t) = tree_Get ops t key; root = tree_RootHash t in (verify root proof key val, t))"

definition tree_VerifyNonMembership ::
  "(bytes \<Rightarrow> commitment_proof \<Rightarrow> bytes \<Rightarrow> bool) \<Rightarrow> 'c tree \<Rightarrow> commitment_proof \<Rightarrow> bytes \<Rightarrow> bool" where
  "tree_VerifyNonMembership verify t proof key = verify (tree_RootHash t) proof key"

section \<open>The meaning of a proof\<close>

text \<open>
  What ICS-23 documents of its operations: a leaf operation with a hashed value and varint
  length prefixes, and an inner operation that puts a prefix and a suffix around the child hash.
\<close>

definition ics23_ops :: "(leaf_op \<Rightarrow> bytes \<Rightarrow> bytes \<Rightarrow> bytes) \<Rightarrow> (inner_op \<Rightarrow> bytes \<Rightarrow> bytes) \<Rightarrow> bool" where
  "ics23_ops apply_leaf apply_inner \<longleftrightarrow>
     (\<forall>op key x. apply_leaf op key x =
        sha256 (lo_Prefix op @ putUvarint (of_nat (length key)) @ key @ putUvarint (of_nat (length (sha256 x))) @ sha256 x)) \<and>
     (\<forall>op child. apply_inner op child = sha256 (io_Prefix op @ child @ io_Suffix op))"

text \<open>The root a proof calculates to.\<close>

definition calculate :: "(leaf_op \<Rightarrow> bytes \<Rightarrow> bytes \<Rightarrow> bytes) \<Rightarrow> (inner_op \<Rightarrow> bytes \<Rightarrow> bytes) \<Rightarrow> existence_proof \<Rightarrow> bytes" where
  "calculate apply_leaf apply_inner p =
     fold apply_inner (ep_Path p) (apply_leaf (ep_Leaf p) (ep_Key p) (case ep_Value p of None \<Rightarrow> [] | Some x \<Rightarrow> x))"

lemma encodeBytes_32: "length h = 32 \<Longrightarrow> encodeBytes h = 0x20 # h"
  by (simp add: encodeBytes_def putUvarint_small)

lemma of_int_uint_u32: "(of_int (uint (v :: u32)) :: u64) = ucast v"
  by (rule of_int_uint)

lemma scast_u8:
  assumes "unat (h :: u8) < 128"
  shows "(scast h :: u64) = ucast h"
proof -
  have "int (unat h) < 128"
    using assms by linarith
  then have "uint h < 128"
    by simp
  then have "sint h = uint h"
    using signed_take_bit_int_eq_self [of 7 "uint h"] uint_ge_0 [of h] by (simp add: sint_uint)
  then have "of_int (sint h) = (of_int (uint h) :: u64)"
    by simp
  then show ?thesis
    by (simp only: of_int_sint of_int_uint)
qed

text \<open>The path found for a key, applied from the leaf upwards, gives the hash of the node.\<close>

lemma pathToLeaf_calculates:
  assumes ics: "ics23_ops apply_leaf apply_inner"
    and "wf_node t" "hgt t < 128" "pathToLeaf t key = (path, node, found)"
  shows "\<exists>v k x. node = Leaf v k x \<and> found = (k = key) \<and>
    fold apply_inner (convertInnerOps path) (apply_leaf (convertLeafOp (uint v)) k x) = hashNode t"
  using assms(2-)
proof (induction t arbitrary: path)
  case (Leaf v k x)
  have "apply_leaf (convertLeafOp (uint v)) k x = hashNode (Leaf v k x)"
    using ics by (simp add: ics23_ops_def convertLeafOp_def convertVarIntToBytes_def of_int_uint_u32
      hashNode_def encodeBytes_def)
  then show ?case
    using Leaf.prems by (auto simp: convertInnerOps_def)
next
  case (Branch h s v k l r)
  have h: "(scast h :: u64) = ucast h"
    by (rule scast_u8) (use Branch.prems(1,2) in simp)
  have inner: "apply_inner op child = sha256 (io_Prefix op @ child @ io_Suffix op)" for op child
    using ics by (simp add: ics23_ops_def)
  note hash = convertInnerOp_def convertVarIntToBytes_def of_int_uint_u32 h inner hashNode_def encodeBytes_32
  show ?case
  proof (cases "key < k")
    case True
    then obtain path' where p: "pathToLeaf l key = (path', node, found)"
      "path = \<lparr>pi_Height = sint h, pi_Size = s, pi_Version = uint v, pi_Left = [], pi_Right = hashNode r\<rparr> # path'"
      using Branch.prems(3) by (auto simp: Let_def split: prod.splits)
    show ?thesis
      using Branch.IH(1) [OF _ _ p(1)] Branch.prems(1,2) unfolding p(2)
      by (auto simp: convertInnerOps_def hash)
  next
    case False
    then obtain path' where p: "pathToLeaf r key = (path', node, found)"
      "path = \<lparr>pi_Height = sint h, pi_Size = s, pi_Version = uint v, pi_Left = hashNode l, pi_Right = []\<rparr> # path'"
      using Branch.prems(3) by (auto simp: Let_def split: prod.splits)
    show ?thesis
      using Branch.IH(2) [OF _ _ p(1)] Branch.prems(1,2) unfolding p(2)
      by (auto simp: convertInnerOps_def hash)
  qed
qed

text \<open>The path leads to the leaf of the key.\<close>

lemma pathToLeaf_lookup:
  assumes "tree_inv t" "pathToLeaf t key = (path, node, found)"
  shows "if found then lookup t key = Some (leaf_value node) else lookup t key = None"
  using assms
proof (induction t arbitrary: path)
  case (Branch h s v k l r)
  then have k: "k = hd (keys r)" and asc: "ascending (keys r)" "ascending (keys l @ keys r)"
    by (auto simp: tree_inv_def)
  have inv: "tree_inv l" "tree_inv r"
    using tree_inv_children [OF Branch.prems(1)] by auto
  show ?case
  proof (cases "key < k")
    case True
    then have "\<not> has_key key (leaves r)"
      using ascending_right [OF asc(1)] k by force
    moreover obtain path' where "pathToLeaf l key = (path', node, found)"
      using True Branch.prems(2) by (auto simp: Let_def split: prod.splits)
    ultimately show ?thesis
      using Branch.IH(1) [OF inv(1)] by simp
  next
    case False
    then have "\<not> has_key key (leaves l)"
      using ascending_left [OF asc(2)] k by blast
    moreover obtain path' where "pathToLeaf r key = (path', node, found)"
      using False Branch.prems(2) by (auto simp: Let_def split: prod.splits)
    ultimately show ?thesis
      using Branch.IH(2) [OF inv(2)] by simp
  qed
qed auto

lemma createExistenceProof_ok:
  assumes "ics23_ops apply_leaf apply_inner" "tree_inv t" "nleaves t < 2 ^ 62"
  shows "lookup t key = Some x \<Longrightarrow> \<exists>p. createExistenceProof (Some t) key = Inr p \<and>
      ep_Key p = key \<and> ep_Value p = Some x \<and> calculate apply_leaf apply_inner p = hashNode t"
    and "lookup t key = None \<Longrightarrow> createExistenceProof (Some t) key = Inl (Error ''key does not exist'')"
proof -
  obtain path node found where p: "pathToLeaf t key = (path, node, found)"
    by (cases "pathToLeaf t key" rule: prod_cases3)
  have wf: "wf_node t" "hgt t < 128"
    using assms(2,3) hgt_less [of t 62] by (auto simp: tree_inv_def)
  obtain v k x' where node: "node = Leaf v k x'" "found = (k = key)"
    "fold apply_inner (convertInnerOps path) (apply_leaf (convertLeafOp (uint v)) k x') = hashNode t"
    using pathToLeaf_calculates [OF assms(1) wf p] by blast
  note look = pathToLeaf_lookup [OF assms(2) p]
  show "\<exists>p. createExistenceProof (Some t) key = Inr p \<and> ep_Key p = key \<and> ep_Value p = Some x \<and>
      calculate apply_leaf apply_inner p = hashNode t" if "lookup t key = Some x"
  proof -
    have found: "found" and x: "x' = x"
      using that look node(1) by (cases found; simp)+
    then show ?thesis
      using node by (simp add: createExistenceProof_def p calculate_def)
  qed
  show "createExistenceProof (Some t) key = Inl (Error ''key does not exist'')" if "lookup t key = None"
  proof -
    have "\<not> found"
      using that look by (cases found) simp_all
    then show ?thesis
      by (simp add: createExistenceProof_def p)
  qed
qed

section \<open>Neighbours of an absent key\<close>

lemma rank_less_key:
  assumes "ascending (map fst xs)" "i < rank key xs"
  shows "i < length xs \<and> fst (xs ! i) < key"
proof -
  have "i < length xs"
    using assms(2) rank_le [of key xs] by linarith
  then show ?thesis
    using rank_le_iff [OF assms(1), of i key] assms(2) by simp
qed

lemma rank_above_key:
  assumes "ascending (map fst xs)" "rank key xs < length xs" "\<not> has_key key xs"
  shows "key < fst (xs ! rank key xs)"
proof -
  have "key \<le> fst (xs ! rank key xs)"
    using rank_le_iff [OF assms(1,2), of key] by simp
  moreover have "fst (xs ! rank key xs) \<noteq> key"
    using assms(3) nth_mem [OF assms(2)] unfolding has_key_def by (metis imageI)
  ultimately show ?thesis by simp
qed

lemma lookup_nth:
  assumes "ascending (keys t)" "i < nleaves t"
  shows "lookup t (fst (leaves t ! i)) = Some (fst (snd (leaves t ! i)))"
proof -
  have "map_of (leaves t) (fst (leaves t ! i)) = Some (snd (leaves t ! i))"
    by (rule map_of_is_SomeI) (use assms ascending_distinct [of "keys t"] in simp_all)
  then show ?thesis
    by (simp add: lookup_def)
qed

lemma tree_getters:
  assumes "tree_root t = Some n" "tree_inv n" "nleaves n < 2 ^ 32"
  shows "tree_GetWithIndex t key = (int (rank key (leaves n)), lookup n key)"
    and "i < 2 ^ 32 \<Longrightarrow> tree_GetByIndex t (int i) =
      (if i < nleaves n then Some (fst (leaves n ! i), fst (snd (leaves n ! i))) else None)"
proof -
  have "rank key (leaves n) < 2 ^ 32"
    using assms(3) rank_le [of key "leaves n"] by linarith
  then have "int (unat (of_nat (rank key (leaves n)) :: u32)) = int (rank key (leaves n))"
    by (simp add: word_conv del: int_eq_iff_numeral)
  then have "uint (of_nat (rank key (leaves n)) :: u32) = int (rank key (leaves n))"
    by (simp only: of_nat_unat)
  then show "tree_GetWithIndex t key = (int (rank key (leaves n)), lookup n key)"
    using assms by (simp add: tree_GetWithIndex_def tree_inv_def node_get_wf)
next
  assume "i < 2 ^ 32"
  then have "unat (of_nat i :: u32) = i" "\<not> int i > 0xffffffff"
    by (simp_all add: word_conv)
  then show "tree_GetByIndex t (int i) =
      (if i < nleaves n then Some (fst (leaves n ! i), fst (snd (leaves n ! i))) else None)"
    using assms by (simp add: tree_GetByIndex_def tree_inv_def node_getByIndex_wf split_beta)
qed

section \<open>Correctness of proofs\<close>



section \<open>Instances\<close>

definition sha_leaf :: "leaf_op \<Rightarrow> bytes \<Rightarrow> bytes \<Rightarrow> bytes" where
  "sha_leaf op key x = sha256 (lo_Prefix op @ encodeBytes key @ encodeBytes (sha256 x))"

definition sha_inner :: "inner_op \<Rightarrow> bytes \<Rightarrow> bytes" where
  "sha_inner op child = sha256 (io_Prefix op @ child @ io_Suffix op)"

lemma sha_ops: "ics23_ops sha_leaf sha_inner"
  by (simp add: ics23_ops_def sha_leaf_def sha_inner_def encodeBytes_def)



end
