(* ===== verification/Protobuf.thy ===== *)
theory Protobuf
  imports Go_Binary "HOL-Library.Monad_Syntax"
begin

text \<open>
  The protobuf wire format as the generated \<open>.pb.go\<close> files of \<open>src/memiavl\<close> read and write it.
  Every generated message repeats the same code: \<open>encodeVarint\<close> and \<open>sov\<close>, the blocks of
  \<open>MarshalToSizedBuffer\<close> that fill a buffer from its end, the loops of \<open>Unmarshal\<close> and \<open>skip\<close>. They
  are defined here once, with the message-specific fields as arguments.
\<close>

unbundle bit_operations_syntax

section \<open>Errors\<close>

abbreviation (input) "ErrIntOverflow \<equiv> Error ''proto: integer overflow''"
abbreviation (input) "ErrInvalidLength \<equiv> Error ''proto: negative length found during unmarshaling''"
abbreviation (input) "ErrUnexpectedEndOfGroup \<equiv> Error ''proto: unexpected end of group''"
abbreviation (input) "ErrUnexpectedEOF \<equiv> Error ''unexpected EOF''"

section \<open>Writing\<close>

text \<open>\<open>bits.Len64\<close>: the number of bits needed for a word.\<close>

function bits_Len64 :: "u64 \<Rightarrow> nat" where
  "bits_Len64 x = (if x = 0 then 0 else Suc (bits_Len64 (drop_bit 1 x)))"
  by auto
termination
  by (relation "measure unat") (auto simp: drop_bit_eq_div unat_div unat_gt_0)

declare bits_Len64.simps [simp del]

definition sov :: "u64 \<Rightarrow> nat" where
  "sov x = (bits_Len64 (x OR 1) + 6) div 7"

text \<open>
  The loop of \<open>encodeVarint\<close> writes from \<open>offset\<close> on; \<open>encodeVarint\<close> first makes room for the
  digits below \<open>offset\<close>. \<open>None\<close> is an index that is out of range.
\<close>

function encode_loop :: "bytes \<Rightarrow> nat \<Rightarrow> u64 \<Rightarrow> bytes option" where
  "encode_loop dAtA offset v =
     (if offset < length dAtA then
        if v \<ge> 0x80 then encode_loop (dAtA[offset := ucast (v AND 0x7f OR 0x80)]) (offset + 1) (drop_bit 7 v)
        else Some (dAtA[offset := ucast v])
      else None)"
  by auto
termination
  by (relation "measure (\<lambda>(d, i, v). unat v)") (auto simp: drop_bit_eq_div unat_div word_le_nat_alt)

declare encode_loop.simps [simp del]

text \<open>A buffer that is filled from its end: its bytes, and the index \<open>i\<close> of the first byte written.\<close>

type_synonym buffer = "bytes \<times> nat"

definition encodeVarint :: "u64 \<Rightarrow> buffer \<Rightarrow> buffer option" where
  "encodeVarint v = (\<lambda>(dAtA, offset).
     if offset < sov v then None
     else let base = offset - sov v in map_option (\<lambda>dAtA. (dAtA, base)) (encode_loop dAtA base v))"

text \<open>\<open>i -= len(src); copy(dAtA[i:], src)\<close> and \<open>i--; dAtA[i] = b\<close>.\<close>

definition put_bytes :: "bytes \<Rightarrow> buffer \<Rightarrow> buffer option" where
  "put_bytes src = (\<lambda>(dAtA, i).
     if i < length src then None
     else let i = i - length src in Some (take i dAtA @ src @ drop (i + length src) dAtA, i))"

definition put_byte :: "u8 \<Rightarrow> buffer \<Rightarrow> buffer option" where
  "put_byte b = (\<lambda>(dAtA, i). if i = 0 \<or> length dAtA < i then None else Some (dAtA[i - 1 := b], i - 1))"

text \<open>
  The blocks that write a field: bytes and strings, booleans, integers, and nested messages,
  whose own \<open>MarshalToSizedBuffer\<close> fills \<open>dAtA[:i]\<close> and returns the number of bytes it wrote.
\<close>

definition put_bytes_field :: "u8 \<Rightarrow> bytes \<Rightarrow> buffer \<Rightarrow> buffer option" where
  "put_bytes_field tag bz b =
     (if length bz > 0 then do {
        b \<leftarrow> put_bytes bz b;
        b \<leftarrow> encodeVarint (of_nat (length bz)) b;
        put_byte tag b
      } else Some b)"

definition put_bool_field :: "u8 \<Rightarrow> bool \<Rightarrow> buffer \<Rightarrow> buffer option" where
  "put_bool_field tag x b =
     (if x then do { b \<leftarrow> put_byte (if x then 1 else 0) b; put_byte tag b } else Some b)"

definition put_int_field :: "u8 \<Rightarrow> u64 \<Rightarrow> buffer \<Rightarrow> buffer option" where
  "put_int_field tag x b =
     (if x \<noteq> 0 then do { b \<leftarrow> encodeVarint x b; put_byte tag b } else Some b)"

type_synonym 'm marshaler = "'m \<Rightarrow> bytes \<Rightarrow> (bytes \<times> nat) option"

definition put_message_field :: "u8 \<Rightarrow> 'm marshaler \<Rightarrow> 'm \<Rightarrow> buffer \<Rightarrow> buffer option" where
  "put_message_field tag marshal_to m = (\<lambda>(dAtA, i). do {
     (written, n) \<leftarrow> marshal_to m (take i dAtA);
     let dAtA = written @ drop i dAtA;
     if i < n then None else do {
       b \<leftarrow> encodeVarint (of_nat n) (dAtA, i - n);
       put_byte tag b
     }
   })"

text \<open>A repeated field is written from its last element to its first.\<close>

definition put_repeated_field :: "u8 \<Rightarrow> 'm marshaler \<Rightarrow> 'm list \<Rightarrow> buffer \<Rightarrow> buffer option" where
  "put_repeated_field tag marshal_to ms b =
     foldr (\<lambda>m b. b \<bind> put_message_field tag marshal_to m) ms (Some b)"

text \<open>\<open>MarshalToSizedBuffer\<close> runs the blocks from the end of the buffer, \<open>Marshal\<close> allocates it.\<close>

definition to_sized_buffer :: "(buffer \<Rightarrow> buffer option) \<Rightarrow> bytes \<Rightarrow> (bytes \<times> nat) option" where
  "to_sized_buffer blocks dAtA = map_option (\<lambda>(dAtA, i). (dAtA, length dAtA - i)) (blocks (dAtA, length dAtA))"

definition marshal_with :: "'m marshaler \<Rightarrow> ('m \<Rightarrow> nat) \<Rightarrow> 'm \<Rightarrow> bytes option" where
  "marshal_with marshal_to msize m = do {
     (dAtA, n) \<leftarrow> marshal_to m (replicate (msize m) 0);
     Some (take n dAtA)
   }"

text \<open>The terms of \<open>Size\<close>.\<close>

definition size_bytes_field :: "bytes \<Rightarrow> nat" where
  "size_bytes_field bz = (let l = length bz in if l > 0 then 1 + l + sov (of_nat l) else 0)"

definition size_int_field :: "u64 \<Rightarrow> nat" where
  "size_int_field x = (if x \<noteq> 0 then 1 + sov x else 0)"

definition size_message_field :: "('m \<Rightarrow> nat) \<Rightarrow> 'm \<Rightarrow> nat" where
  "size_message_field msize m = (let l = msize m in 1 + l + sov (of_nat l))"

section \<open>Reading\<close>

text \<open>The digit loop of \<open>Unmarshal\<close> on the bytes from the index on: the value and the bytes read.\<close>

fun read_varint :: "nat \<Rightarrow> u64 \<Rightarrow> bytes \<Rightarrow> (u64 \<times> nat) res" where
  "read_varint shift v dAtA =
     (if shift \<ge> 64 then Inl ErrIntOverflow
      else case dAtA of
        [] \<Rightarrow> Inl ErrUnexpectedEOF
      | b # rest \<Rightarrow>
          (let v = v OR push_bit shift (ucast (b AND 0x7f)) in
           if b < 0x80 then Inr (v, 1)
           else bind_res (read_varint (shift + 7) v rest) (\<lambda>(v, n). Inr (v, n + 1))))"

declare read_varint.simps [simp del]

text \<open>
  Reading a length: an \<open>int\<close>, so the top bit is a sign, and the end index may overflow. The
  bounds of the payload are returned.
\<close>

definition read_length :: "bytes \<Rightarrow> nat \<Rightarrow> (nat \<times> nat) res" where
  "read_length dAtA iNdEx =
     bind_res (read_varint 0 0 (drop iNdEx dAtA)) (\<lambda>(len, n).
       let iNdEx = iNdEx + n; postIndex = iNdEx + unat len in
       if sint len < 0 then Inl ErrInvalidLength
       else if postIndex \<ge> 2 ^ 63 then Inl ErrInvalidLength
       else if postIndex > length dAtA then Inl ErrUnexpectedEOF
       else Inr (iNdEx, postIndex))"

text \<open>
  One round of \<open>skip\<close>: the index after a field of any wire type, and the depth of the groups
  that are open.
\<close>

definition skip_field :: "bytes \<Rightarrow> nat \<Rightarrow> nat \<Rightarrow> (nat \<times> nat) res" where
  "skip_field dAtA iNdEx depth =
     bind_res (read_varint 0 0 (drop iNdEx dAtA)) (\<lambda>(wire, n).
       let iNdEx = iNdEx + n; wireType = wire AND 7 in
       if wireType = 0 then bind_res (read_varint 0 0 (drop iNdEx dAtA)) (\<lambda>(_, n). Inr (iNdEx + n, depth))
       else if wireType = 1 then Inr (iNdEx + 8, depth)
       else if wireType = 2 then
         bind_res (read_varint 0 0 (drop iNdEx dAtA)) (\<lambda>(len, n).
           if sint len < 0 then Inl ErrInvalidLength else Inr (iNdEx + n + unat len, depth))
       else if wireType = 3 then Inr (iNdEx, depth + 1)
       else if wireType = 4 then
         if depth = 0 then Inl ErrUnexpectedEndOfGroup else Inr (iNdEx, depth - 1)
       else if wireType = 5 then Inr (iNdEx + 4, depth)
       else Inl (Error ''proto: illegal wireType''))"

lemma read_varint_pos: "read_varint shift v bs = Inr (x, n) \<Longrightarrow> 0 < n \<and> n \<le> length bs"
proof (induction bs arbitrary: shift v x n)
  case Nil
  then show ?case by (simp add: read_varint.simps split: if_splits)
next
  case (Cons b bs)
  then show ?case
    by (subst (asm) (2) read_varint.simps)
      (fastforce simp: Let_def bind_res_Inr split: if_splits)
qed

lemma skip_field_advances: "skip_field dAtA i depth = Inr (j, d) \<Longrightarrow> i < j"
  by (auto simp: skip_field_def bind_res_Inr Let_def dest!: read_varint_pos split: if_splits)

function skip_loop :: "bytes \<Rightarrow> nat \<Rightarrow> nat \<Rightarrow> nat res" where
  "skip_loop dAtA iNdEx depth =
     (if iNdEx < length dAtA then
        bind_res (skip_field dAtA iNdEx depth) (\<lambda>(iNdEx, depth).
          if iNdEx \<ge> 2 ^ 63 then Inl ErrInvalidLength
          else if depth = 0 then Inr iNdEx
          else skip_loop dAtA iNdEx depth)
      else Inl ErrUnexpectedEOF)"
  by auto
termination
  by (relation "measure (\<lambda>(dAtA, i, depth). length dAtA - i)")
    (auto dest!: skip_field_advances)

declare skip_loop.simps [simp del]

text \<open>
  A field of a message: how its payload changes the message. A nested message may reject its
  payload.
\<close>

datatype 'm field =
    Int_field string "u64 \<Rightarrow> 'm \<Rightarrow> 'm"
  | Bytes_field string "bytes \<Rightarrow> 'm \<Rightarrow> 'm"
  | Message_field string "bytes \<Rightarrow> 'm \<Rightarrow> 'm res"

definition wrong_wireType :: "string \<Rightarrow> go_err" where
  "wrong_wireType name = Error (''proto: wrong wireType for field '' @ name)"

text \<open>The payload \<open>dAtA[iNdEx:postIndex]\<close>.\<close>

definition payload :: "bytes \<Rightarrow> nat \<Rightarrow> nat \<Rightarrow> bytes res" where
  "payload dAtA iNdEx postIndex =
     (case slice dAtA iNdEx postIndex of None \<Rightarrow> Inl (Panic ''slice bounds out of range'') | Some bz \<Rightarrow> Inr bz)"

fun read_field :: "'m field \<Rightarrow> u64 \<Rightarrow> bytes \<Rightarrow> nat \<Rightarrow> 'm \<Rightarrow> ('m \<times> nat) res" where
  "read_field (Int_field name set_field) wireType dAtA iNdEx m =
     (if wireType \<noteq> 0 then Inl (wrong_wireType name)
      else bind_res (read_varint 0 0 (drop iNdEx dAtA)) (\<lambda>(v, n). Inr (set_field v m, iNdEx + n)))"
| "read_field (Bytes_field name set_field) wireType dAtA iNdEx m =
     (if wireType \<noteq> 2 then Inl (wrong_wireType name)
      else bind_res (read_length dAtA iNdEx) (\<lambda>(iNdEx, postIndex).
        bind_res (payload dAtA iNdEx postIndex) (\<lambda>bz. Inr (set_field bz m, postIndex))))"
| "read_field (Message_field name unmarshal_field) wireType dAtA iNdEx m =
     (if wireType \<noteq> 2 then Inl (wrong_wireType name)
      else bind_res (read_length dAtA iNdEx) (\<lambda>(iNdEx, postIndex).
        bind_res (payload dAtA iNdEx postIndex) (\<lambda>bz.
          bind_res (unmarshal_field bz m) (\<lambda>m. Inr (m, postIndex)))))"

text \<open>
  One round of \<open>Unmarshal\<close>: the tag, then the field it names, or an unknown field that is
  skipped from its tag on.
\<close>

definition unmarshal_step :: "string \<Rightarrow> (int \<Rightarrow> 'm field option) \<Rightarrow> bytes \<Rightarrow> nat \<Rightarrow> 'm \<Rightarrow> ('m \<times> nat) res" where
  "unmarshal_step name fields dAtA iNdEx m =
     (let preIndex = iNdEx in
      bind_res (read_varint 0 0 (drop iNdEx dAtA)) (\<lambda>(wire, n).
        let iNdEx = iNdEx + n; fieldNum = sint (ucast (drop_bit 3 wire) :: u32); wireType = wire AND 7 in
        if wireType = 4 then Inl (Error (''proto: '' @ name @ '': wiretype end group for non-group''))
        else if fieldNum \<le> 0 then Inl (Error (''proto: '' @ name @ '': illegal tag''))
        else case fields fieldNum of
          Some field \<Rightarrow> read_field field wireType dAtA iNdEx m
        | None \<Rightarrow>
            bind_res (skip_loop (drop preIndex dAtA) 0 0) (\<lambda>skippy.
              if preIndex + skippy \<ge> 2 ^ 63 then Inl ErrInvalidLength
              else if preIndex + skippy > length dAtA then Inl ErrUnexpectedEOF
              else Inr (m, preIndex + skippy))))"

lemma read_length_le: "read_length dAtA i = Inr (j, k) \<Longrightarrow> i < j \<and> j \<le> k \<and> k \<le> length dAtA"
  by (auto simp: read_length_def bind_res_Inr Let_def dest!: read_varint_pos split: if_splits)

lemma read_field_advances: "read_field f wt dAtA i m = Inr (m', j) \<Longrightarrow> i < j"
  by (cases f) (auto simp: bind_res_Inr dest!: read_length_le read_varint_pos split: if_splits)

lemma skip_loop_advances: "skip_loop dAtA i depth = Inr j \<Longrightarrow> i < j"
proof (induction dAtA i depth rule: skip_loop.induct)
  case (1 dAtA i depth)
  from "1.prems" obtain k d where step: "i < length dAtA" "skip_field dAtA i depth = Inr (k, d)"
    "if d = 0 then j = k else skip_loop dAtA k d = Inr j" "k < 2 ^ 63"
    by (auto simp: skip_loop.simps [of dAtA i depth] bind_res_Inr split: if_splits)
  show ?case
    using "1.IH" [OF step(1,2) refl] step skip_field_advances [OF step(2)] by (cases "d = 0") auto
qed

lemma unmarshal_step_advances: "unmarshal_step name fields dAtA i m = Inr (m', j) \<Longrightarrow> i < j"
  by (auto simp: unmarshal_step_def bind_res_Inr Let_def split: if_splits option.splits
      dest!: read_varint_pos read_field_advances skip_loop_advances)

function unmarshal_loop :: "string \<Rightarrow> (int \<Rightarrow> 'm field option) \<Rightarrow> bytes \<Rightarrow> nat \<Rightarrow> 'm \<Rightarrow> 'm res" where
  "unmarshal_loop name fields dAtA iNdEx m =
     (if iNdEx < length dAtA then
        bind_res (unmarshal_step name fields dAtA iNdEx m) (\<lambda>(m, iNdEx). unmarshal_loop name fields dAtA iNdEx m)
      else if iNdEx > length dAtA then Inl ErrUnexpectedEOF
      else Inr m)"
  by auto
termination
  by (relation "measure (\<lambda>(name, fields, dAtA, i, m). length dAtA - i)")
    (auto dest!: unmarshal_step_advances)

declare unmarshal_loop.simps [simp del]

definition unmarshal_with :: "string \<Rightarrow> (int \<Rightarrow> 'm field option) \<Rightarrow> bytes \<Rightarrow> 'm \<Rightarrow> 'm res" where
  "unmarshal_with name fields dAtA m = unmarshal_loop name fields dAtA 0 m"

section \<open>What the writers write\<close>

lemma bits_Len64_bounds: "0 < x \<Longrightarrow> 2 ^ (bits_Len64 x - 1) \<le> unat x \<and> unat x < 2 ^ bits_Len64 x \<and> 0 < bits_Len64 x"
proof (induction x rule: bits_Len64.induct)
  case (1 x)
  let ?y = "drop_bit 1 x"
  have half: "unat ?y = unat x div 2"
    by (simp add: drop_bit_eq_div unat_div)
  have len: "bits_Len64 x = Suc (bits_Len64 ?y)"
    using "1.prems" by (subst bits_Len64.simps) simp
  have x: "0 < unat x"
    using "1.prems" by (simp add: word_less_nat_alt)
  show ?case
  proof (cases "?y = 0")
    case True
    then have "unat x = 1"
      using half x by simp
    with True len show ?thesis
      by (simp add: bits_Len64.simps [of 0])
  next
    case False
    then have IH: "2 ^ (bits_Len64 ?y - 1) \<le> unat x div 2" "unat x div 2 < 2 ^ bits_Len64 ?y" "0 < bits_Len64 ?y"
      using "1.IH" "1.prems" half by (auto simp: word_gt_0)
    then have "2 * 2 ^ (bits_Len64 ?y - 1) \<le> unat x" "unat x < 2 * 2 ^ bits_Len64 ?y"
      by linarith+
    then show ?thesis
      using len IH(3) by (simp add: power_eq_if)
  qed
qed

lemma bits_Len64_le_iff: "0 < x \<Longrightarrow> bits_Len64 x \<le> n \<longleftrightarrow> unat x < 2 ^ n"
proof -
  assume "0 < x"
  note b = bits_Len64_bounds [OF this]
  show ?thesis
  proof
    assume "bits_Len64 x \<le> n"
    then have "(2 :: nat) ^ bits_Len64 x \<le> 2 ^ n" by simp
    then show "unat x < 2 ^ n" using b by linarith
  next
    assume "unat x < 2 ^ n"
    then have "(2 :: nat) ^ (bits_Len64 x - 1) < 2 ^ n" using b by linarith
    then show "bits_Len64 x \<le> n" using b by simp
  qed
qed

lemma bits_Len64_drop: "drop_bit k x \<noteq> 0 \<Longrightarrow> bits_Len64 x = k + bits_Len64 (drop_bit k x)"
proof (induction k)
  case (Suc k)
  have "drop_bit (Suc k) x = drop_bit 1 (drop_bit k x)"
    by (simp add: drop_bit_drop_bit)
  moreover from this have "drop_bit k x \<noteq> 0"
    using Suc.prems by (metis drop_bit_of_0)
  ultimately show ?case
    using Suc.IH bits_Len64.simps [of "drop_bit k x"] by simp
qed simp

lemma bits_Len64_or1: "x \<noteq> 0 \<Longrightarrow> bits_Len64 (x OR 1) = bits_Len64 x"
proof -
  assume "x \<noteq> 0"
  moreover have "drop_bit 1 (x OR 1) = drop_bit 1 x"
    by (rule bit_word_eqI) (auto simp: bit_simps)
  moreover have "x OR 1 \<noteq> 0"
    by (metis bit_0_eq bit_or_iff odd_one bit_0 even_zero)
  ultimately show ?thesis
    using bits_Len64.simps [of x] bits_Len64.simps [of "x OR 1"] by simp
qed

lemma or1_pos: "0 < x OR (1 :: u64)"
  by (metis bit_0 bit_or_iff even_zero odd_one word_gt_0)

lemma unat_or1: "unat (x OR 1 :: u64) < 2 ^ 7 \<longleftrightarrow> unat x < 2 ^ 7"
proof (cases "x = 0")
  case False
  then have "0 < x" by (simp add: word_gt_0)
  then show ?thesis
    using bits_Len64_le_iff [OF or1_pos, of x 7] bits_Len64_le_iff [of x 7] bits_Len64_or1 [OF False]
    by simp
qed simp

text \<open>The size of a varint is the number of its digits.\<close>

lemma length_putUvarint_sov: "length (putUvarint x) = sov x"
proof (induction x rule: putUvarint.induct)
  case (1 x)
  show ?case
  proof (cases "x < 0x80")
    case True
    have "bits_Len64 (x OR 1) \<le> 7"
      using bits_Len64_le_iff [OF or1_pos, of x 7] unat_or1 [of x] True by (simp add: word_less_nat_alt)
    moreover have "0 < bits_Len64 (x OR 1)"
      using bits_Len64_bounds [OF or1_pos] by blast
    ultimately have "(bits_Len64 (x OR 1) + 6) div 7 = 1"
      by (intro div_nat_eqI) simp_all
    then show ?thesis
      using True by (simp add: putUvarint_small sov_def)
  next
    case False
    have nz: "drop_bit 7 x \<noteq> 0"
    proof
      assume "drop_bit 7 x = 0"
      then have "unat x div 2 ^ 7 = 0"
        by (metis drop_bit_eq_div unat_div_distrib unat_drop_bit_eq drop_bit_nat_eq unsigned_0)
      with False show False
        by (simp add: word_less_nat_alt)
    qed
    then have "x \<noteq> 0" by auto
    then have "bits_Len64 (x OR 1) = 7 + bits_Len64 (drop_bit 7 x OR 1)"
      using bits_Len64_drop [OF nz] bits_Len64_or1 [OF nz] bits_Len64_or1 by simp
    then have "sov x = Suc (sov (drop_bit 7 x))"
      by (simp add: sov_def)
    with False 1 show ?thesis
      by (simp add: putUvarint_large not_less)
  qed
qed

lemma sov_small: "x < 0x80 \<Longrightarrow> sov x = 1"
  by (simp add: putUvarint_small flip: length_putUvarint_sov)

lemma encode_digit: "ucast (v AND 0x7f OR 0x80 :: u64) = (ucast v OR 0x80 :: u8)"
proof (rule bit_word_eqI)
  show "bit (ucast (v AND 0x7f OR 0x80 :: u64) :: u8) n = bit (ucast v OR 0x80 :: u8) n" if "n < LENGTH(8)" for n
  proof -
    have "(0x80 :: u64) = push_bit 7 1" "(0x80 :: u8) = push_bit 7 1" by simp_all
    moreover have "n < 7 \<or> n = 7" using that by auto
    ultimately show ?thesis
      unfolding low7 by (auto simp only: bit_simps) auto
  qed
qed

lemma encode_loop_put:
  "offset + length (putUvarint v) \<le> length dAtA \<Longrightarrow>
   encode_loop dAtA offset v =
     Some (take offset dAtA @ putUvarint v @ drop (offset + length (putUvarint v)) dAtA)"
proof (induction dAtA offset v rule: encode_loop.induct)
  case (1 dAtA offset v)
  have lt: "offset < length dAtA"
    using "1.prems" by (cases "v < 0x80") (simp_all add: putUvarint_small putUvarint_large)
  show ?case
  proof (cases "v < 0x80")
    case True
    then have "\<not> 0x80 \<le> v" by (simp only: not_le)
    then show ?thesis
      using lt True by (simp add: encode_loop.simps [of dAtA] putUvarint_small upd_conv_take_nth_drop)
  next
    case False
    let ?d = "dAtA[offset := ucast (v AND 0x7f OR 0x80)]"
    have "encode_loop dAtA offset v = encode_loop ?d (offset + 1) (drop_bit 7 v)"
      using lt False by (simp add: encode_loop.simps [of dAtA] not_less)
    also have "\<dots> = Some (take (offset + 1) ?d @ putUvarint (drop_bit 7 v) @
        drop (offset + 1 + length (putUvarint (drop_bit 7 v))) ?d)"
      by (rule "1.IH") (use lt False "1.prems" in \<open>simp_all add: putUvarint_large not_less\<close>)
    also have "take (offset + 1) ?d = take offset dAtA @ [ucast v OR 0x80]"
      using lt by (simp add: take_Suc_conv_app_nth encode_digit)
    finally show ?thesis
      using False by (simp add: putUvarint_large)
  qed
qed

text \<open>A block emits \<open>bz\<close> if it writes exactly \<open>bz\<close> below the index, in any buffer with enough room.\<close>

definition emits :: "(buffer \<Rightarrow> buffer option) \<Rightarrow> bytes \<Rightarrow> bool" where
  "emits block bz \<longleftrightarrow> (\<forall>dAtA i. length bz \<le> i \<longrightarrow> i \<le> length dAtA \<longrightarrow>
     block (dAtA, i) = Some (take (i - length bz) dAtA @ bz @ drop i dAtA, i - length bz))"

lemma emitsD: "emits block bz \<Longrightarrow> length bz \<le> i \<Longrightarrow> i \<le> length dAtA \<Longrightarrow>
    block (dAtA, i) = Some (take (i - length bz) dAtA @ bz @ drop i dAtA, i - length bz)"
  by (simp add: emits_def)

lemma emits_none [intro]: "emits Some []"
  by (simp add: emits_def)

lemma emits_seq [intro]:
  assumes "emits f a" "emits g b"
  shows "emits (\<lambda>x. f x \<bind> g) (b @ a)"
  unfolding emits_def
proof (intro allI impI)
  fix dAtA :: bytes and i
  assume i: "length (b @ a) \<le> i" "i \<le> length dAtA"
  let ?d = "take (i - length a) dAtA @ a @ drop i dAtA"
  have "f (dAtA, i) = Some (?d, i - length a)"
    by (rule emitsD [OF assms(1)]) (use i in simp_all)
  moreover have "g (?d, i - length a) =
      Some (take (i - length a - length b) ?d @ b @ drop (i - length a) ?d, i - length a - length b)"
    by (rule emitsD [OF assms(2)]) (use i in simp_all)
  ultimately show "f (dAtA, i) \<bind> g =
      Some (take (i - length (b @ a)) dAtA @ (b @ a) @ drop i dAtA, i - length (b @ a))"
    using i by (simp add: min_def add.commute)
qed

lemma emits_put_bytes [intro]: "emits (put_bytes bz) bz"
  by (simp add: emits_def put_bytes_def Let_def)

lemma emits_put_byte [intro]: "emits (put_byte b) [b]"
proof -
  have "xs[i - 1 := b] = take (i - 1) xs @ b # drop i xs" if "0 < i" "i \<le> length xs" for xs :: bytes and i
    using that by (simp add: upd_conv_take_nth_drop)
  then show ?thesis
    by (auto simp: emits_def put_byte_def)
qed

lemma emits_varint [intro]: "emits (encodeVarint v) (putUvarint v)"
  by (auto simp: emits_def encodeVarint_def encode_loop_put length_putUvarint_sov Let_def)

section \<open>The encoding\<close>

definition enc_len :: "u8 \<Rightarrow> bytes \<Rightarrow> bytes" where
  "enc_len tag bz = tag # putUvarint (of_nat (length bz)) @ bz"

definition enc_bytes :: "u8 \<Rightarrow> bytes \<Rightarrow> bytes" where
  "enc_bytes tag bz = (if bz = [] then [] else enc_len tag bz)"

definition enc_int :: "u8 \<Rightarrow> u64 \<Rightarrow> bytes" where
  "enc_int tag x = (if x = 0 then [] else tag # putUvarint x)"

definition enc_bool :: "u8 \<Rightarrow> bool \<Rightarrow> bytes" where
  "enc_bool tag x = (if x then [tag, 1] else [])"

lemma emits_bytes_field [intro]: "emits (put_bytes_field tag bz) (enc_bytes tag bz)"
proof (cases "bz = []")
  case True
  then have "put_bytes_field tag bz = Some"
    by (auto simp: put_bytes_field_def)
  with True show ?thesis
    by (auto simp: enc_bytes_def)
next
  case False
  then have "put_bytes_field tag bz = (\<lambda>b. (put_bytes bz b \<bind> encodeVarint (of_nat (length bz))) \<bind> put_byte tag)"
    by (auto simp: put_bytes_field_def)
  moreover have "emits (\<lambda>b. (put_bytes bz b \<bind> encodeVarint (of_nat (length bz))) \<bind> put_byte tag)
      ([tag] @ putUvarint (of_nat (length bz)) @ bz)"
    by (intro emits_seq emits_put_bytes emits_varint emits_put_byte)
  ultimately show ?thesis
    using False by (simp add: enc_bytes_def enc_len_def)
qed

lemma emits_int_field [intro]: "emits (put_int_field tag x) (enc_int tag x)"
proof (cases "x = 0")
  case True
  then have "put_int_field tag x = Some"
    by (auto simp: put_int_field_def)
  with True show ?thesis
    by (auto simp: enc_int_def)
next
  case False
  then have "put_int_field tag x = (\<lambda>b. encodeVarint x b \<bind> put_byte tag)"
    by (auto simp: put_int_field_def)
  moreover have "emits (\<lambda>b. encodeVarint x b \<bind> put_byte tag) ([tag] @ putUvarint x)"
    by (intro emits_seq emits_varint emits_put_byte)
  ultimately show ?thesis
    using False by (simp add: enc_int_def)
qed

lemma emits_bool_field [intro]: "emits (put_bool_field tag x) (enc_bool tag x)"
proof (cases x)
  case True
  then have "put_bool_field tag x = (\<lambda>b. put_byte 1 b \<bind> put_byte tag)"
    by (auto simp: put_bool_field_def)
  moreover have "emits (\<lambda>b. put_byte 1 b \<bind> put_byte tag) ([tag] @ [1])"
    by (intro emits_seq emits_put_byte)
  ultimately show ?thesis
    using True by (simp add: enc_bool_def)
next
  case False
  then have "put_bool_field tag x = Some"
    by (auto simp: put_bool_field_def)
  with False show ?thesis
    by (auto simp: enc_bool_def)
qed

section \<open>What the readers read\<close>

lemma read_varint_loop_put:
  assumes "i \<le> 9"
  shows "read_varint (7 * i) (take_bit (7 * i) x) (putUvarint (drop_bit (7 * i) x) @ rest) =
    Inr (x, length (putUvarint (drop_bit (7 * i) x)))"
  using assms
proof (induction "9 - i" arbitrary: i)
  case 0
  have "drop_bit 63 x < 0x80"
    using drop_bit_63 [of x] by (simp add: word_le_nat_alt word_less_nat_alt)
  moreover from small_byte(2) [OF this] have "(ucast (drop_bit 63 x) :: u8) AND 0x7f = ucast (drop_bit 63 x)"
    by (simp add: low7 take_bit_eq_mod word_less_nat_alt word_unat_eq_iff unat_mod)
  ultimately show ?case
    using 0 small_byte [of "drop_bit 63 x"] take_bit_last [of 63 x]
    by (simp add: putUvarint_small read_varint.simps)
next
  case (Suc d)
  let ?y = "drop_bit (7 * i) x"
  have i: "i < 9" using Suc by simp
  show ?case
  proof (cases "?y < 0x80")
    case True
    from small_byte(2) [OF this] have "(ucast ?y :: u8) AND 0x7f = ucast ?y"
      by (simp add: low7 take_bit_eq_mod word_less_nat_alt word_unat_eq_iff unat_mod)
    then show ?thesis
      using small_byte [OF True] take_bit_last [of "7 * i" x] i True
      by (simp add: putUvarint_small read_varint.simps)
  next
    case False
    have next_byte: "drop_bit 7 ?y = drop_bit (7 * Suc i) x"
      by (simp add: drop_bit_drop_bit add.commute)
    have "read_varint (7 * i) (take_bit (7 * i) x) (putUvarint ?y @ rest) =
      bind_res (read_varint (7 * Suc i) (take_bit (7 * Suc i) x) (putUvarint (drop_bit 7 ?y) @ rest))
        (\<lambda>(v, n). Inr (v, n + 1))"
      using False i take_bit_step [of "7 * i" x]
      by (subst read_varint.simps) (simp add: putUvarint_large high_bit_set payload7 add.commute)
    then show ?thesis
      using Suc.hyps(1) [of "Suc i"] Suc.hyps(2) i False next_byte
      by (simp add: putUvarint_large)
  qed
qed

lemma read_varint_put [simp]: "read_varint 0 0 (putUvarint x @ rest) = Inr (x, length (putUvarint x))"
  using read_varint_loop_put [of 0 x rest] by simp

lemma read_varint_tag [simp]: "tag < 0x80 \<Longrightarrow> read_varint 0 0 (tag # rest) = Inr (ucast tag, 1)"
proof -
  assume tag: "tag < 0x80"
  have "(ucast tag :: u64) < 0x80"
    using tag by (simp add: word_less_nat_alt word_conv)
  moreover have "ucast (ucast tag :: u64) = tag"
    by (rule bit_word_eqI) (auto simp: bit_simps)
  ultimately show ?thesis
    using read_varint_put [of "ucast tag" rest] by (simp add: putUvarint_small)
qed

lemma sint_small: "unat x < 2 ^ 63 \<Longrightarrow> sint (x :: u64) = int (unat x)"
proof -
  assume "unat x < 2 ^ 63"
  then have "0 \<le> uint x" "uint x < 2 ^ 63"
    by (simp, metis of_nat_less_iff of_nat_numeral of_nat_power uint_nat)
  then have "signed_take_bit 63 (uint x) = uint x"
    by (intro signed_take_bit_int_eq_self) linarith+
  then show ?thesis
    by (simp add: sint_uint)
qed

lemma read_length_put:
  assumes "length (pre @ bz @ post) + length (putUvarint (of_nat (length bz))) < 2 ^ 63"
  shows "read_length (pre @ putUvarint (of_nat (length bz)) @ bz @ post) (length pre) =
    Inr (length pre + length (putUvarint (of_nat (length bz))),
         length pre + length (putUvarint (of_nat (length bz))) + length bz)"
proof -
  have "unat (of_nat (length bz) :: u64) = length bz"
    by (rule unat_of_nat_less) (use assms in simp)
  moreover from this have "0 \<le> sint (of_nat (length bz) :: u64)"
    using sint_small [of "of_nat (length bz)"] assms by simp
  ultimately show ?thesis
    using assms by (simp add: read_length_def Let_def)
qed

text \<open>
  Reading \<open>bz\<close> takes the message \<open>m\<close> to \<open>m'\<close>, wherever \<open>bz\<close> stands in the input.
\<close>

definition decodes :: "string \<Rightarrow> (int \<Rightarrow> 'm field option) \<Rightarrow> bytes \<Rightarrow> 'm \<Rightarrow> 'm \<Rightarrow> bool" where
  "decodes name fields bz m m' \<longleftrightarrow> (\<forall>pre post. length (pre @ bz @ post) < 2 ^ 63 \<longrightarrow>
     unmarshal_loop name fields (pre @ bz @ post) (length pre) m =
     unmarshal_loop name fields (pre @ bz @ post) (length pre + length bz) m')"

lemma decodes_none [intro]: "decodes name fields [] m m"
  by (simp add: decodes_def)

lemma decodes_append [intro]:
  assumes "decodes name fields a m m'" "decodes name fields b m' m''"
  shows "decodes name fields (a @ b) m m''"
  unfolding decodes_def
proof (intro allI impI)
  fix pre post :: bytes
  assume len: "length (pre @ (a @ b) @ post) < 2 ^ 63"
  have "unmarshal_loop name fields (pre @ a @ (b @ post)) (length pre) m =
      unmarshal_loop name fields (pre @ a @ (b @ post)) (length pre + length a) m'"
    using assms(1) len by (simp add: decodes_def)
  moreover have "unmarshal_loop name fields ((pre @ a) @ b @ post) (length (pre @ a)) m' =
      unmarshal_loop name fields ((pre @ a) @ b @ post) (length (pre @ a) + length b) m''"
    by (rule assms(2) [unfolded decodes_def, rule_format]) (use len in simp)
  ultimately show "unmarshal_loop name fields (pre @ (a @ b) @ post) (length pre) m =
      unmarshal_loop name fields (pre @ (a @ b) @ post) (length pre + length (a @ b)) m''"
    by (simp add: add.assoc)
qed

lemma decodes_all: "decodes name fields bz m m' \<Longrightarrow> length bz < 2 ^ 63 \<Longrightarrow> unmarshal_with name fields bz m = Inr m'"
proof -
  assume "decodes name fields bz m m'" "length bz < 2 ^ 63"
  then have "unmarshal_loop name fields ([] @ bz @ []) (length ([] :: bytes)) m =
      unmarshal_loop name fields ([] @ bz @ []) (length ([] :: bytes) + length bz) m'"
    unfolding decodes_def by (metis append_Nil append_Nil2)
  then show ?thesis
    by (simp add: unmarshal_with_def unmarshal_loop.simps [of name fields bz "length bz"])
qed

text \<open>The field number and the wire type of a one-byte tag.\<close>

definition tag_field :: "u8 \<Rightarrow> int" where
  "tag_field tag = sint (ucast (drop_bit 3 (ucast tag :: u64)) :: u32)"

definition tag_wire :: "u8 \<Rightarrow> u64" where
  "tag_wire tag = ucast tag AND 7"

lemma decodes_step:
  assumes "tag < 0x80" "tag_wire tag \<noteq> 4" "0 < tag_field tag" "fields (tag_field tag) = Some field"
    and "\<And>pre post. length (pre @ bz @ post) < 2 ^ 63 \<Longrightarrow>
      read_field field (tag_wire tag) (pre @ bz @ post) (length pre) m = Inr (m', length pre + length bz)"
  shows "decodes name fields (tag # bz) m m'"
  unfolding decodes_def
proof (intro allI impI)
  fix pre post :: bytes
  assume len: "length (pre @ (tag # bz) @ post) < 2 ^ 63"
  have "unmarshal_step name fields (pre @ (tag # bz) @ post) (length pre) m =
      read_field field (tag_wire tag) ((pre @ [tag]) @ bz @ post) (length (pre @ [tag])) m"
    using assms(1-4) by (simp add: unmarshal_step_def Let_def tag_field_def tag_wire_def)
  also have "\<dots> = Inr (m', length pre + length (tag # bz))"
    using assms(5) [of "pre @ [tag]" post] len by simp
  finally show "unmarshal_loop name fields (pre @ (tag # bz) @ post) (length pre) m =
      unmarshal_loop name fields (pre @ (tag # bz) @ post) (length pre + length (tag # bz)) m'"
    by (subst unmarshal_loop.simps) simp
qed

lemma payload_put:
  "payload (pre @ a @ bz @ post) (length pre + length a) (length pre + length a + length bz) = Inr bz"
  using slice_middle [of _ "pre @ a" _ bz post] by (simp add: payload_def)

lemma decodes_len:
  assumes "tag < 0x80" "tag_wire tag = 2" "0 < tag_field tag" "fields (tag_field tag) = Some (Bytes_field fname f)"
  shows "decodes name fields (enc_len tag bz) m (f bz m)"
  unfolding enc_len_def
proof (rule decodes_step [where fields = fields, OF assms(1) _ assms(3,4)])
  show "tag_wire tag \<noteq> 4" using assms(2) by simp
  fix pre post :: bytes
  assume "length (pre @ (putUvarint (of_nat (length bz)) @ bz) @ post) < 2 ^ 63"
  then show "read_field (Bytes_field fname f) (tag_wire tag) (pre @ (putUvarint (of_nat (length bz)) @ bz) @ post)
      (length pre) m = Inr (f bz m, length pre + length (putUvarint (of_nat (length bz)) @ bz))"
    using read_length_put [of pre bz post] payload_put [of pre "putUvarint (of_nat (length bz))" bz post] assms(2)
    by simp
qed

lemma decodes_nested:
  assumes "tag < 0x80" "tag_wire tag = 2" "0 < tag_field tag" "fields (tag_field tag) = Some (Message_field fname f)"
    and "length bz < 2 ^ 63 \<Longrightarrow> f bz m = Inr m'"
  shows "decodes name fields (enc_len tag bz) m m'"
  unfolding enc_len_def
proof (rule decodes_step [where fields = fields, OF assms(1) _ assms(3,4)])
  show "tag_wire tag \<noteq> 4" using assms(2) by simp
  fix pre post :: bytes
  assume "length (pre @ (putUvarint (of_nat (length bz)) @ bz) @ post) < 2 ^ 63"
  then show "read_field (Message_field fname f) (tag_wire tag) (pre @ (putUvarint (of_nat (length bz)) @ bz) @ post)
      (length pre) m = Inr (m', length pre + length (putUvarint (of_nat (length bz)) @ bz))"
    using read_length_put [of pre bz post] payload_put [of pre "putUvarint (of_nat (length bz))" bz post] assms(2,5)
    by simp
qed

lemma decodes_varint:
  assumes "tag < 0x80" "tag_wire tag = 0" "0 < tag_field tag" "fields (tag_field tag) = Some (Int_field fname f)"
  shows "decodes name fields (tag # putUvarint x) m (f x m)"
  by (rule decodes_step [where fields = fields, OF assms(1) _ assms(3,4)]) (use assms(2) in simp_all)

text \<open>The setter of a field, and the rules that read a field; a scalar field may have been left out.\<close>

fun set_scalar :: "'m field option \<Rightarrow> u64 \<Rightarrow> bytes \<Rightarrow> 'm \<Rightarrow> 'm" where
  "set_scalar (Some (Int_field name f)) v bz m = f v m"
| "set_scalar (Some (Bytes_field name f)) v bz m = f bz m"
| "set_scalar field v bz m = m"

fun set_message :: "'m field option \<Rightarrow> bytes \<Rightarrow> 'm \<Rightarrow> 'm res" where
  "set_message (Some (Message_field name f)) bz m = f bz m"
| "set_message field bz m = Inr m"

lemma decodes_message:
  assumes "tag < 0x80" "tag_wire tag = 2" "0 < tag_field tag" "\<exists>fname f. fields (tag_field tag) = Some (Message_field fname f)"
    and "length bz < 2 ^ 63 \<Longrightarrow> set_message (fields (tag_field tag)) bz m = Inr m'"
  shows "decodes name fields (enc_len tag bz) m m'"
  using decodes_nested [where fields = fields, OF assms(1-3)] assms(4,5) by fastforce

lemma decodes_bytes:
  assumes "tag < 0x80" "tag_wire tag = 2" "0 < tag_field tag" "\<exists>fname f. fields (tag_field tag) = Some (Bytes_field fname f)"
    and "m' = (if bz = [] then m else set_scalar (fields (tag_field tag)) 0 bz m)"
  shows "decodes name fields (enc_bytes tag bz) m m'"
  using decodes_len [where fields = fields, OF assms(1-3)] assms(4,5) by (auto simp: enc_bytes_def)

lemma decodes_int:
  assumes "tag < 0x80" "tag_wire tag = 0" "0 < tag_field tag" "\<exists>fname f. fields (tag_field tag) = Some (Int_field fname f)"
    and "m' = (if x = 0 then m else set_scalar (fields (tag_field tag)) x [] m)"
  shows "decodes name fields (enc_int tag x) m m'"
  using decodes_varint [where fields = fields, OF assms(1-3)] assms(4,5) by (auto simp: enc_int_def)

lemma decodes_bool:
  assumes "tag < 0x80" "tag_wire tag = 0" "0 < tag_field tag" "\<exists>fname f. fields (tag_field tag) = Some (Int_field fname f)"
    and "m' = (if x then set_scalar (fields (tag_field tag)) 1 [] m else m)"
  shows "decodes name fields (enc_bool tag x) m m'"
proof -
  obtain fname f where "fields (tag_field tag) = Some (Int_field fname f)"
    using assms(4) by blast
  then show ?thesis
    using decodes_varint [where fields = fields, OF assms(1-3), of fname f name 1 m] assms(5)
    by (auto simp: enc_bool_def putUvarint_small)
qed

section \<open>Any input is decoded or rejected\<close>

definition no_panic :: "'a res \<Rightarrow> bool" where
  "no_panic x = (case x of Inl (Panic _) \<Rightarrow> False | _ \<Rightarrow> True)"

lemma no_panic_simps [simp]: "no_panic (Inl (Error e))" "\<not> no_panic (Inl (Panic e))" "no_panic (Inr y)"
  by (simp_all add: no_panic_def)

lemma no_panic_bind: "no_panic x \<Longrightarrow> (\<And>y. x = Inr y \<Longrightarrow> no_panic (f y)) \<Longrightarrow> no_panic (bind_res x f)"
  by (cases x) (auto simp: no_panic_def split: go_err.splits)

lemma read_varint_safe: "no_panic (read_varint shift v bs)"
proof (induction bs arbitrary: shift v)
  case (Cons b bs)
  then show ?case
    by (subst read_varint.simps) (auto simp: Let_def intro!: no_panic_bind)
qed (simp add: read_varint.simps)

lemma read_length_safe: "no_panic (read_length dAtA i)"
  by (auto simp: read_length_def Let_def intro!: no_panic_bind read_varint_safe)

lemma skip_field_safe: "no_panic (skip_field dAtA i depth)"
  by (auto simp: skip_field_def Let_def intro!: no_panic_bind read_varint_safe)

lemma skip_loop_safe: "no_panic (skip_loop dAtA i depth)"
proof (induction dAtA i depth rule: skip_loop.induct)
  case (1 dAtA i depth)
  then show ?case
    by (subst skip_loop.simps) (auto intro!: no_panic_bind skip_field_safe)
qed

lemma payload_safe: "read_length dAtA i = Inr (j, k) \<Longrightarrow> no_panic (payload dAtA j k)"
  using read_length_le [of dAtA i j k] by (auto simp: payload_def slice_def)

definition safe_field :: "'m field \<Rightarrow> bool" where
  "safe_field f \<longleftrightarrow> (\<forall>name g bz m. f = Message_field name g \<longrightarrow> no_panic (g bz m))"

lemma read_field_safe: "safe_field f \<Longrightarrow> no_panic (read_field f wt dAtA i m)"
  by (cases f) (auto simp: safe_field_def wrong_wireType_def intro!: no_panic_bind read_varint_safe read_length_safe
      payload_safe)

lemma unmarshal_step_safe:
  assumes "\<And>k f. fields k = Some f \<Longrightarrow> safe_field f"
  shows "no_panic (unmarshal_step name fields dAtA i m)"
  using assms by (auto simp: unmarshal_step_def Let_def split: option.split
      intro!: no_panic_bind read_varint_safe read_field_safe skip_loop_safe)

lemma unmarshal_loop_safe:
  assumes "\<And>k f. fields k = Some f \<Longrightarrow> safe_field f"
  shows "no_panic (unmarshal_loop name fields dAtA i m)"
  using assms
proof (induction name fields dAtA i m rule: unmarshal_loop.induct)
  case (1 name fields dAtA i m)
  then show ?case
    by (subst unmarshal_loop.simps) (auto intro!: no_panic_bind unmarshal_step_safe)
qed

section \<open>Messages\<close>

text \<open>
  The contract of a generated message: \<open>MarshalToSizedBuffer\<close> writes the encoding at the end of
  any buffer that is large enough, \<open>Size\<close> is its length, \<open>Unmarshal\<close> into the zero message reads it
  back up to \<open>norm\<close> (an empty byte slice comes back as nil), and no input makes \<open>Unmarshal\<close> panic.
\<close>

locale message =
  fixes enc :: "'m \<Rightarrow> bytes"
    and marshal_to :: "'m marshaler"
    and msize :: "'m \<Rightarrow> nat"
    and unmarshal :: "bytes \<Rightarrow> 'm \<Rightarrow> 'm res"
    and zero :: 'm
    and norm :: "'m \<Rightarrow> 'm"
  assumes marshal_to_ok: "length (enc m) \<le> length dAtA \<Longrightarrow>
      marshal_to m dAtA = Some (take (length dAtA - length (enc m)) dAtA @ enc m, length (enc m))"
    and size_ok: "msize m = length (enc m)"
    and unmarshal_ok: "length (enc m) < 2 ^ 63 \<Longrightarrow> unmarshal (enc m) zero = Inr (norm m)"
    and unmarshal_safe: "no_panic (unmarshal bz m)"
begin

lemma marshal_ok: "marshal_with marshal_to msize m = Some (enc m)"
  by (simp add: marshal_with_def marshal_to_ok size_ok)

lemma emits_message: "emits (put_message_field tag marshal_to m) (enc_len tag (enc m))"
  unfolding emits_def
proof (intro allI impI)
  fix dAtA :: bytes and i
  assume i: "length (enc_len tag (enc m)) \<le> i" "i \<le> length dAtA"
  let ?n = "length (enc m)" and ?len = "putUvarint (of_nat (length (enc m)))"
  let ?d = "take (i - ?n) dAtA @ enc m @ drop i dAtA"
  have "marshal_to m (take i dAtA) = Some (take (i - ?n) dAtA @ enc m, ?n)"
    using marshal_to_ok [of m "take i dAtA"] i by (simp add: enc_len_def min_def)
  then have "put_message_field tag marshal_to m (dAtA, i) =
      (encodeVarint (of_nat ?n) (?d, i - ?n) \<bind> put_byte tag)"
    using i by (simp add: put_message_field_def enc_len_def Let_def)
  also have "\<dots> = Some (take (i - ?n - length ([tag] @ ?len)) ?d @ ([tag] @ ?len) @ drop (i - ?n) ?d,
      i - ?n - length ([tag] @ ?len))"
    by (rule emitsD [OF emits_seq [OF emits_varint emits_put_byte]]) (use i in \<open>simp_all add: enc_len_def\<close>)
  finally show "put_message_field tag marshal_to m (dAtA, i) =
      Some (take (i - length (enc_len tag (enc m))) dAtA @ enc_len tag (enc m) @ drop i dAtA,
        i - length (enc_len tag (enc m)))"
    using i by (simp add: enc_len_def min_def add.commute)
qed

lemma emits_repeated:
  "emits (put_repeated_field tag marshal_to ms) (concat (map (\<lambda>m. enc_len tag (enc m)) ms))"
proof (induction ms)
  case Nil
  have "put_repeated_field tag marshal_to [] = Some"
    by (auto simp: put_repeated_field_def)
  then show ?case by auto
next
  case (Cons m ms)
  have "put_repeated_field tag marshal_to (m # ms) =
      (\<lambda>b. put_repeated_field tag marshal_to ms b \<bind> put_message_field tag marshal_to m)"
    by (auto simp: put_repeated_field_def)
  then show ?case
    using emits_seq [OF Cons.IH emits_message] by simp
qed

lemma length_message: "length (enc_len tag (enc m)) = size_message_field msize m"
  by (simp add: size_message_field_def size_ok enc_len_def length_putUvarint_sov Let_def)

lemma length_repeated: "length (concat (map (\<lambda>m. enc_len tag (enc m)) ms)) = sum_list (map (size_message_field msize) ms)"
  by (induction ms) (simp_all add: length_message)

text \<open>A repeated field is read back element by element.\<close>

lemma decodes_repeated:
  assumes "tag < 0x80" "tag_wire tag = 2" "0 < tag_field tag"
    "fields (tag_field tag) = Some (Message_field fname (\<lambda>bz x. bind_res (unmarshal bz zero) (\<lambda>m. Inr (add m x))))"
  shows "decodes name fields (concat (map (\<lambda>m. enc_len tag (enc m)) ms)) x (fold (\<lambda>m. add (norm m)) ms x)"
proof (induction ms arbitrary: x)
  case (Cons m ms)
  have "decodes name fields (enc_len tag (enc m)) x (add (norm m) x)"
    by (rule decodes_nested [where fields = fields, OF assms]) (simp add: unmarshal_ok)
  then show ?case
    using Cons.IH [of "add (norm m) x"] by (simp add: decodes_append)
qed auto

end

text \<open>How a message meets its contract.\<close>

lemma to_sized_buffer_emits:
  assumes "emits blocks bz" "length bz \<le> length dAtA"
  shows "to_sized_buffer blocks dAtA = Some (take (length dAtA - length bz) dAtA @ bz, length bz)"
  using emitsD [OF assms(1), of "length dAtA" dAtA] assms(2) by (simp add: to_sized_buffer_def)

lemma length_fields:
  "length (enc_bytes tag bz) = size_bytes_field bz" "length (enc_int tag x) = size_int_field x"
  "length (enc_bool tag y) = (if y then 2 else 0)"
  by (auto simp: size_bytes_field_def enc_bytes_def enc_len_def size_int_field_def enc_int_def enc_bool_def
      length_putUvarint_sov Let_def)

end
