(* ===== verification/Messages.thy ===== *)
theory Messages
  imports Protobuf Kv_Store
begin

text \<open>
  The messages of \<open>src/memiavl/changeset.pb.go\<close>, \<open>commit_info.pb.go\<close> and \<open>wal.pb.go\<close>: what is written
  to the write-ahead log and to the metadata file. Each message has the fields of its Go struct,
  its blocks of \<open>MarshalToSizedBuffer\<close> in the order of the code, its \<open>Size\<close> and the cases of its
  \<open>Unmarshal\<close>. A Go \<open>string\<close> is its bytes; an \<open>int64\<close> is its two's complement word; the elements of
  slices of pointers are not nil, as the code that builds them never stores nil.
\<close>

unbundle bit_operations_syntax

section \<open>Change sets\<close>

definition KVPair_MarshalToSizedBuffer :: "kv_pair marshaler" where
  "KVPair_MarshalToSizedBuffer m = to_sized_buffer (\<lambda>b. do {
     b \<leftarrow> put_bytes_field 0x1a (kv_bytes m) b;
     b \<leftarrow> put_bytes_field 0x12 (kv_key m) b;
     put_bool_field 0x8 (kv_delete m) b
   })"

definition KVPair_Size :: "kv_pair \<Rightarrow> nat" where
  "KVPair_Size m = (if kv_delete m then 2 else 0) + size_bytes_field (kv_key m) + size_bytes_field (kv_bytes m)"

definition KVPair_field :: "int \<Rightarrow> kv_pair field option" where
  "KVPair_field fieldNum =
     (if fieldNum = 1 then Some (Int_field ''Delete'' (\<lambda>v m. m\<lparr>kv_delete := v \<noteq> 0\<rparr>))
      else if fieldNum = 2 then Some (Bytes_field ''Key'' (\<lambda>bz m. m\<lparr>kv_key := bz\<rparr>))
      else if fieldNum = 3 then Some (Bytes_field ''Value'' (\<lambda>bz m. m\<lparr>kv_value := Some bz\<rparr>))
      else None)"

definition KVPair_Unmarshal :: "bytes \<Rightarrow> kv_pair \<Rightarrow> kv_pair res" where
  "KVPair_Unmarshal = unmarshal_with ''KVPair'' KVPair_field"

definition KVPair_zero :: kv_pair where
  "KVPair_zero = \<lparr>kv_delete = False, kv_key = [], kv_value = None\<rparr>"

type_synonym change_set = "kv_pair list"

definition ChangeSet_MarshalToSizedBuffer :: "change_set marshaler" where
  "ChangeSet_MarshalToSizedBuffer m = to_sized_buffer (put_repeated_field 0xa KVPair_MarshalToSizedBuffer m)"

definition ChangeSet_Size :: "change_set \<Rightarrow> nat" where
  "ChangeSet_Size m = sum_list (map (size_message_field KVPair_Size) m)"

definition ChangeSet_field :: "int \<Rightarrow> change_set field option" where
  "ChangeSet_field fieldNum =
     (if fieldNum = 1 then
        Some (Message_field ''Pairs'' (\<lambda>bz m. bind_res (KVPair_Unmarshal bz KVPair_zero) (\<lambda>p. Inr (m @ [p]))))
      else None)"

definition ChangeSet_Unmarshal :: "bytes \<Rightarrow> change_set \<Rightarrow> change_set res" where
  "ChangeSet_Unmarshal = unmarshal_with ''ChangeSet'' ChangeSet_field"

section \<open>Entries of the write-ahead log\<close>

record named_change_set =
  ncs_Changeset :: change_set
  ncs_Name :: bytes

definition NamedChangeSet_MarshalToSizedBuffer :: "named_change_set marshaler" where
  "NamedChangeSet_MarshalToSizedBuffer m = to_sized_buffer (\<lambda>b. do {
     b \<leftarrow> put_bytes_field 0x12 (ncs_Name m) b;
     put_message_field 0xa ChangeSet_MarshalToSizedBuffer (ncs_Changeset m) b
   })"

definition NamedChangeSet_Size :: "named_change_set \<Rightarrow> nat" where
  "NamedChangeSet_Size m = size_message_field ChangeSet_Size (ncs_Changeset m) + size_bytes_field (ncs_Name m)"

definition NamedChangeSet_field :: "int \<Rightarrow> named_change_set field option" where
  "NamedChangeSet_field fieldNum =
     (if fieldNum = 1 then
        Some (Message_field ''Changeset'' (\<lambda>bz m.
          bind_res (ChangeSet_Unmarshal bz (ncs_Changeset m)) (\<lambda>cs. Inr (m\<lparr>ncs_Changeset := cs\<rparr>))))
      else if fieldNum = 2 then Some (Bytes_field ''Name'' (\<lambda>bz m. m\<lparr>ncs_Name := bz\<rparr>))
      else None)"

definition NamedChangeSet_Unmarshal :: "bytes \<Rightarrow> named_change_set \<Rightarrow> named_change_set res" where
  "NamedChangeSet_Unmarshal = unmarshal_with ''NamedChangeSet'' NamedChangeSet_field"

definition NamedChangeSet_zero :: named_change_set where
  "NamedChangeSet_zero = \<lparr>ncs_Changeset = [], ncs_Name = []\<rparr>"

record tree_name_upgrade =
  up_Name :: bytes
  up_RenameFrom :: bytes
  up_Delete :: bool

definition TreeNameUpgrade_MarshalToSizedBuffer :: "tree_name_upgrade marshaler" where
  "TreeNameUpgrade_MarshalToSizedBuffer m = to_sized_buffer (\<lambda>b. do {
     b \<leftarrow> put_bool_field 0x18 (up_Delete m) b;
     b \<leftarrow> put_bytes_field 0x12 (up_RenameFrom m) b;
     put_bytes_field 0xa (up_Name m) b
   })"

definition TreeNameUpgrade_Size :: "tree_name_upgrade \<Rightarrow> nat" where
  "TreeNameUpgrade_Size m =
     size_bytes_field (up_Name m) + size_bytes_field (up_RenameFrom m) + (if up_Delete m then 2 else 0)"

definition TreeNameUpgrade_field :: "int \<Rightarrow> tree_name_upgrade field option" where
  "TreeNameUpgrade_field fieldNum =
     (if fieldNum = 1 then Some (Bytes_field ''Name'' (\<lambda>bz m. m\<lparr>up_Name := bz\<rparr>))
      else if fieldNum = 2 then Some (Bytes_field ''RenameFrom'' (\<lambda>bz m. m\<lparr>up_RenameFrom := bz\<rparr>))
      else if fieldNum = 3 then Some (Int_field ''Delete'' (\<lambda>v m. m\<lparr>up_Delete := v \<noteq> 0\<rparr>))
      else None)"

definition TreeNameUpgrade_Unmarshal :: "bytes \<Rightarrow> tree_name_upgrade \<Rightarrow> tree_name_upgrade res" where
  "TreeNameUpgrade_Unmarshal = unmarshal_with ''TreeNameUpgrade'' TreeNameUpgrade_field"

definition TreeNameUpgrade_zero :: tree_name_upgrade where
  "TreeNameUpgrade_zero = \<lparr>up_Name = [], up_RenameFrom = [], up_Delete = False\<rparr>"

record wal_entry =
  Changesets :: "named_change_set list"
  Upgrades :: "tree_name_upgrade list"

definition WALEntry_MarshalToSizedBuffer :: "wal_entry marshaler" where
  "WALEntry_MarshalToSizedBuffer m = to_sized_buffer (\<lambda>b. do {
     b \<leftarrow> put_repeated_field 0x12 TreeNameUpgrade_MarshalToSizedBuffer (Upgrades m) b;
     put_repeated_field 0xa NamedChangeSet_MarshalToSizedBuffer (Changesets m) b
   })"

definition WALEntry_Size :: "wal_entry \<Rightarrow> nat" where
  "WALEntry_Size m = sum_list (map (size_message_field NamedChangeSet_Size) (Changesets m)) +
     sum_list (map (size_message_field TreeNameUpgrade_Size) (Upgrades m))"

definition WALEntry_Marshal :: "wal_entry \<Rightarrow> bytes option" where
  "WALEntry_Marshal = marshal_with WALEntry_MarshalToSizedBuffer WALEntry_Size"

definition WALEntry_field :: "int \<Rightarrow> wal_entry field option" where
  "WALEntry_field fieldNum =
     (if fieldNum = 1 then
        Some (Message_field ''Changesets'' (\<lambda>bz m.
          bind_res (NamedChangeSet_Unmarshal bz NamedChangeSet_zero) (\<lambda>cs. Inr (m\<lparr>Changesets := Changesets m @ [cs]\<rparr>))))
      else if fieldNum = 2 then
        Some (Message_field ''Upgrades'' (\<lambda>bz m.
          bind_res (TreeNameUpgrade_Unmarshal bz TreeNameUpgrade_zero) (\<lambda>u. Inr (m\<lparr>Upgrades := Upgrades m @ [u]\<rparr>))))
      else None)"

definition WALEntry_Unmarshal :: "bytes \<Rightarrow> wal_entry \<Rightarrow> wal_entry res" where
  "WALEntry_Unmarshal = unmarshal_with ''WALEntry'' WALEntry_field"

definition WALEntry_zero :: wal_entry where
  "WALEntry_zero = \<lparr>Changesets = [], Upgrades = []\<rparr>"

section \<open>Commit info and metadata\<close>

record commit_id =
  cid_Version :: u64
  cid_Hash :: bytes

definition CommitID_MarshalToSizedBuffer :: "commit_id marshaler" where
  "CommitID_MarshalToSizedBuffer m = to_sized_buffer (\<lambda>b. do {
     b \<leftarrow> put_bytes_field 0x12 (cid_Hash m) b;
     put_int_field 0x8 (cid_Version m) b
   })"

definition CommitID_Size :: "commit_id \<Rightarrow> nat" where
  "CommitID_Size m = size_int_field (cid_Version m) + size_bytes_field (cid_Hash m)"

definition CommitID_field :: "int \<Rightarrow> commit_id field option" where
  "CommitID_field fieldNum =
     (if fieldNum = 1 then Some (Int_field ''Version'' (\<lambda>v m. m\<lparr>cid_Version := v\<rparr>))
      else if fieldNum = 2 then Some (Bytes_field ''Hash'' (\<lambda>bz m. m\<lparr>cid_Hash := bz\<rparr>))
      else None)"

definition CommitID_Unmarshal :: "bytes \<Rightarrow> commit_id \<Rightarrow> commit_id res" where
  "CommitID_Unmarshal = unmarshal_with ''CommitID'' CommitID_field"

definition CommitID_zero :: commit_id where
  "CommitID_zero = \<lparr>cid_Version = 0, cid_Hash = []\<rparr>"

record store_info =
  si_Name :: bytes
  si_CommitId :: commit_id

definition StoreInfo_MarshalToSizedBuffer :: "store_info marshaler" where
  "StoreInfo_MarshalToSizedBuffer m = to_sized_buffer (\<lambda>b. do {
     b \<leftarrow> put_message_field 0x12 CommitID_MarshalToSizedBuffer (si_CommitId m) b;
     put_bytes_field 0xa (si_Name m) b
   })"

definition StoreInfo_Size :: "store_info \<Rightarrow> nat" where
  "StoreInfo_Size m = size_bytes_field (si_Name m) + size_message_field CommitID_Size (si_CommitId m)"

definition StoreInfo_field :: "int \<Rightarrow> store_info field option" where
  "StoreInfo_field fieldNum =
     (if fieldNum = 1 then Some (Bytes_field ''Name'' (\<lambda>bz m. m\<lparr>si_Name := bz\<rparr>))
      else if fieldNum = 2 then
        Some (Message_field ''CommitId'' (\<lambda>bz m.
          bind_res (CommitID_Unmarshal bz (si_CommitId m)) (\<lambda>c. Inr (m\<lparr>si_CommitId := c\<rparr>))))
      else None)"

definition StoreInfo_Unmarshal :: "bytes \<Rightarrow> store_info \<Rightarrow> store_info res" where
  "StoreInfo_Unmarshal = unmarshal_with ''StoreInfo'' StoreInfo_field"

definition StoreInfo_zero :: store_info where
  "StoreInfo_zero = \<lparr>si_Name = [], si_CommitId = CommitID_zero\<rparr>"

record commit_info =
  ci_Version :: u64
  StoreInfos :: "store_info list"

definition CommitInfo_MarshalToSizedBuffer :: "commit_info marshaler" where
  "CommitInfo_MarshalToSizedBuffer m = to_sized_buffer (\<lambda>b. do {
     b \<leftarrow> put_repeated_field 0x12 StoreInfo_MarshalToSizedBuffer (StoreInfos m) b;
     put_int_field 0x8 (ci_Version m) b
   })"

definition CommitInfo_Size :: "commit_info \<Rightarrow> nat" where
  "CommitInfo_Size m =
     size_int_field (ci_Version m) + sum_list (map (size_message_field StoreInfo_Size) (StoreInfos m))"

definition CommitInfo_field :: "int \<Rightarrow> commit_info field option" where
  "CommitInfo_field fieldNum =
     (if fieldNum = 1 then Some (Int_field ''Version'' (\<lambda>v m. m\<lparr>ci_Version := v\<rparr>))
      else if fieldNum = 2 then
        Some (Message_field ''StoreInfos'' (\<lambda>bz m.
          bind_res (StoreInfo_Unmarshal bz StoreInfo_zero) (\<lambda>s. Inr (m\<lparr>StoreInfos := StoreInfos m @ [s]\<rparr>))))
      else None)"

definition CommitInfo_Unmarshal :: "bytes \<Rightarrow> commit_info \<Rightarrow> commit_info res" where
  "CommitInfo_Unmarshal = unmarshal_with ''CommitInfo'' CommitInfo_field"

definition CommitInfo_zero :: commit_info where
  "CommitInfo_zero = \<lparr>ci_Version = 0, StoreInfos = []\<rparr>"

record multi_tree_metadata =
  md_CommitInfo :: "commit_info option"
  md_InitialVersion :: u64

definition MultiTreeMetadata_MarshalToSizedBuffer :: "multi_tree_metadata marshaler" where
  "MultiTreeMetadata_MarshalToSizedBuffer m = to_sized_buffer (\<lambda>b. do {
     b \<leftarrow> put_int_field 0x10 (md_InitialVersion m) b;
     (case md_CommitInfo m of
        None \<Rightarrow> Some b
      | Some ci \<Rightarrow> put_message_field 0xa CommitInfo_MarshalToSizedBuffer ci b)
   })"

definition MultiTreeMetadata_Size :: "multi_tree_metadata \<Rightarrow> nat" where
  "MultiTreeMetadata_Size m =
     (case md_CommitInfo m of None \<Rightarrow> 0 | Some ci \<Rightarrow> size_message_field CommitInfo_Size ci) +
     size_int_field (md_InitialVersion m)"

definition MultiTreeMetadata_Marshal :: "multi_tree_metadata \<Rightarrow> bytes option" where
  "MultiTreeMetadata_Marshal = marshal_with MultiTreeMetadata_MarshalToSizedBuffer MultiTreeMetadata_Size"

definition MultiTreeMetadata_field :: "int \<Rightarrow> multi_tree_metadata field option" where
  "MultiTreeMetadata_field fieldNum =
     (if fieldNum = 1 then
        Some (Message_field ''CommitInfo'' (\<lambda>bz m.
          let ci = (case md_CommitInfo m of None \<Rightarrow> CommitInfo_zero | Some ci \<Rightarrow> ci) in
          bind_res (CommitInfo_Unmarshal bz ci) (\<lambda>ci. Inr (m\<lparr>md_CommitInfo := Some ci\<rparr>))))
      else if fieldNum = 2 then Some (Int_field ''InitialVersion'' (\<lambda>v m. m\<lparr>md_InitialVersion := v\<rparr>))
      else None)"

definition MultiTreeMetadata_Unmarshal :: "bytes \<Rightarrow> multi_tree_metadata \<Rightarrow> multi_tree_metadata res" where
  "MultiTreeMetadata_Unmarshal = unmarshal_with ''MultiTreeMetadata'' MultiTreeMetadata_field"

definition MultiTreeMetadata_zero :: multi_tree_metadata where
  "MultiTreeMetadata_zero = \<lparr>md_CommitInfo = None, md_InitialVersion = 0\<rparr>"

section \<open>The messages meet the contract\<close>

text \<open>An empty value comes back as nil.\<close>

definition norm_pair :: "kv_pair \<Rightarrow> kv_pair" where
  "norm_pair m = (if kv_bytes m = [] then m\<lparr>kv_value := None\<rparr> else m)"

definition enc_KVPair :: "kv_pair \<Rightarrow> bytes" where
  "enc_KVPair m = (enc_bool 0x8 (kv_delete m) @ enc_bytes 0x12 (kv_key m)) @ enc_bytes 0x1a (kv_bytes m)"

lemma tags [simp]:
  "tag_field 0x8 = 1" "tag_field 0xa = 1" "tag_field 0x10 = 2" "tag_field 0x12 = 2" "tag_field 0x18 = 3" "tag_field 0x1a = 3"
  "tag_wire 0x8 = 0" "tag_wire 0xa = 2" "tag_wire 0x10 = 0" "tag_wire 0x12 = 2" "tag_wire 0x18 = 0" "tag_wire 0x1a = 2"
  by (simp_all add: tag_field_def tag_wire_def)

interpretation kvp: message enc_KVPair KVPair_MarshalToSizedBuffer KVPair_Size KVPair_Unmarshal KVPair_zero norm_pair
proof
  fix m :: kv_pair and dAtA bz :: bytes
  have "emits (\<lambda>b. put_bytes_field 0x1a (kv_bytes m) b \<bind> (\<lambda>b. put_bytes_field 0x12 (kv_key m) b \<bind>
      put_bool_field 0x8 (kv_delete m))) (enc_KVPair m)"
    unfolding enc_KVPair_def by (intro emits_seq emits_bytes_field emits_bool_field)
  then show "length (enc_KVPair m) \<le> length dAtA \<Longrightarrow> KVPair_MarshalToSizedBuffer m dAtA =
      Some (take (length dAtA - length (enc_KVPair m)) dAtA @ enc_KVPair m, length (enc_KVPair m))"
    unfolding KVPair_MarshalToSizedBuffer_def by (rule to_sized_buffer_emits)
  show "KVPair_Size m = length (enc_KVPair m)"
    by (simp add: KVPair_Size_def enc_KVPair_def length_fields)
  have "decodes ''KVPair'' KVPair_field (enc_KVPair m) KVPair_zero (norm_pair m)"
    unfolding enc_KVPair_def
  proof (intro decodes_append)
    show "decodes ''KVPair'' KVPair_field (enc_bool 0x8 (kv_delete m)) KVPair_zero
        (KVPair_zero\<lparr>kv_delete := kv_delete m\<rparr>)"
      by (rule decodes_bool) (simp_all add: KVPair_field_def KVPair_zero_def)
    show "decodes ''KVPair'' KVPair_field (enc_bytes 0x12 (kv_key m)) (KVPair_zero\<lparr>kv_delete := kv_delete m\<rparr>)
        (KVPair_zero\<lparr>kv_delete := kv_delete m, kv_key := kv_key m\<rparr>)"
      by (rule decodes_bytes) (simp_all add: KVPair_field_def KVPair_zero_def)
    show "decodes ''KVPair'' KVPair_field (enc_bytes 0x1a (kv_bytes m))
        (KVPair_zero\<lparr>kv_delete := kv_delete m, kv_key := kv_key m\<rparr>) (norm_pair m)"
      by (rule decodes_bytes)
        (auto simp: KVPair_field_def KVPair_zero_def norm_pair_def split: option.splits)
  qed
  then show "length (enc_KVPair m) < 2 ^ 63 \<Longrightarrow> KVPair_Unmarshal (enc_KVPair m) KVPair_zero = Inr (norm_pair m)"
    unfolding KVPair_Unmarshal_def by (rule decodes_all)
  show "no_panic (KVPair_Unmarshal bz m)"
    unfolding KVPair_Unmarshal_def unmarshal_with_def
    by (rule unmarshal_loop_safe) (auto simp: KVPair_field_def safe_field_def split: if_splits)
qed

lemma fold_snoc: "fold (\<lambda>m x. x @ [f m]) ms xs = xs @ map f ms"
  by (induction ms arbitrary: xs) simp_all

definition enc_ChangeSet :: "change_set \<Rightarrow> bytes" where
  "enc_ChangeSet m = concat (map (\<lambda>p. enc_len 0xa (enc_KVPair p)) m)"

interpretation cs: message enc_ChangeSet ChangeSet_MarshalToSizedBuffer ChangeSet_Size ChangeSet_Unmarshal "[]" "map norm_pair"
proof
  fix m :: change_set and dAtA bz :: bytes
  show "length (enc_ChangeSet m) \<le> length dAtA \<Longrightarrow> ChangeSet_MarshalToSizedBuffer m dAtA =
      Some (take (length dAtA - length (enc_ChangeSet m)) dAtA @ enc_ChangeSet m, length (enc_ChangeSet m))"
    unfolding ChangeSet_MarshalToSizedBuffer_def enc_ChangeSet_def
    by (rule to_sized_buffer_emits [OF kvp.emits_repeated])
  show "ChangeSet_Size m = length (enc_ChangeSet m)"
    by (simp add: ChangeSet_Size_def enc_ChangeSet_def kvp.length_repeated)
  have "decodes ''ChangeSet'' ChangeSet_field (enc_ChangeSet m) [] (fold (\<lambda>p x. x @ [norm_pair p]) m [])"
    unfolding enc_ChangeSet_def by (rule kvp.decodes_repeated) (simp_all add: ChangeSet_field_def)
  then show "length (enc_ChangeSet m) < 2 ^ 63 \<Longrightarrow> ChangeSet_Unmarshal (enc_ChangeSet m) [] = Inr (map norm_pair m)"
    unfolding ChangeSet_Unmarshal_def by (simp add: decodes_all fold_snoc)
  show "no_panic (ChangeSet_Unmarshal bz m)"
    unfolding ChangeSet_Unmarshal_def unmarshal_with_def
    by (rule unmarshal_loop_safe)
      (auto simp: ChangeSet_field_def safe_field_def kvp.unmarshal_safe intro!: no_panic_bind split: if_splits)
qed

definition norm_named :: "named_change_set \<Rightarrow> named_change_set" where
  "norm_named m = m\<lparr>ncs_Changeset := map norm_pair (ncs_Changeset m)\<rparr>"

definition enc_NamedChangeSet :: "named_change_set \<Rightarrow> bytes" where
  "enc_NamedChangeSet m = enc_len 0xa (enc_ChangeSet (ncs_Changeset m)) @ enc_bytes 0x12 (ncs_Name m)"

interpretation ncs: message enc_NamedChangeSet NamedChangeSet_MarshalToSizedBuffer NamedChangeSet_Size
  NamedChangeSet_Unmarshal NamedChangeSet_zero norm_named
proof
  fix m :: named_change_set and dAtA bz :: bytes
  show "length (enc_NamedChangeSet m) \<le> length dAtA \<Longrightarrow> NamedChangeSet_MarshalToSizedBuffer m dAtA =
      Some (take (length dAtA - length (enc_NamedChangeSet m)) dAtA @ enc_NamedChangeSet m, length (enc_NamedChangeSet m))"
    unfolding NamedChangeSet_MarshalToSizedBuffer_def enc_NamedChangeSet_def
    by (rule to_sized_buffer_emits) (intro emits_seq emits_bytes_field cs.emits_message)
  show "NamedChangeSet_Size m = length (enc_NamedChangeSet m)"
    by (simp add: NamedChangeSet_Size_def enc_NamedChangeSet_def length_fields cs.length_message)
  have "decodes ''NamedChangeSet'' NamedChangeSet_field (enc_NamedChangeSet m) NamedChangeSet_zero (norm_named m)"
    unfolding enc_NamedChangeSet_def
  proof (intro decodes_append)
    show "decodes ''NamedChangeSet'' NamedChangeSet_field (enc_len 0xa (enc_ChangeSet (ncs_Changeset m))) NamedChangeSet_zero
        (NamedChangeSet_zero\<lparr>ncs_Changeset := map norm_pair (ncs_Changeset m)\<rparr>)"
      by (rule decodes_message)
        (simp_all add: NamedChangeSet_field_def NamedChangeSet_zero_def cs.unmarshal_ok)
    show "decodes ''NamedChangeSet'' NamedChangeSet_field (enc_bytes 0x12 (ncs_Name m))
        (NamedChangeSet_zero\<lparr>ncs_Changeset := map norm_pair (ncs_Changeset m)\<rparr>) (norm_named m)"
      by (rule decodes_bytes) (simp_all add: NamedChangeSet_field_def NamedChangeSet_zero_def norm_named_def)
  qed
  then show "length (enc_NamedChangeSet m) < 2 ^ 63 \<Longrightarrow>
      NamedChangeSet_Unmarshal (enc_NamedChangeSet m) NamedChangeSet_zero = Inr (norm_named m)"
    unfolding NamedChangeSet_Unmarshal_def by (rule decodes_all)
  show "no_panic (NamedChangeSet_Unmarshal bz m)"
    unfolding NamedChangeSet_Unmarshal_def unmarshal_with_def
    by (rule unmarshal_loop_safe)
      (auto simp: NamedChangeSet_field_def safe_field_def cs.unmarshal_safe intro!: no_panic_bind split: if_splits)
qed

definition enc_TreeNameUpgrade :: "tree_name_upgrade \<Rightarrow> bytes" where
  "enc_TreeNameUpgrade m = (enc_bytes 0xa (up_Name m) @ enc_bytes 0x12 (up_RenameFrom m)) @ enc_bool 0x18 (up_Delete m)"

interpretation tnu: message enc_TreeNameUpgrade TreeNameUpgrade_MarshalToSizedBuffer TreeNameUpgrade_Size
  TreeNameUpgrade_Unmarshal TreeNameUpgrade_zero id
proof
  fix m :: tree_name_upgrade and dAtA bz :: bytes
  show "length (enc_TreeNameUpgrade m) \<le> length dAtA \<Longrightarrow> TreeNameUpgrade_MarshalToSizedBuffer m dAtA =
      Some (take (length dAtA - length (enc_TreeNameUpgrade m)) dAtA @ enc_TreeNameUpgrade m, length (enc_TreeNameUpgrade m))"
    unfolding TreeNameUpgrade_MarshalToSizedBuffer_def enc_TreeNameUpgrade_def
    by (rule to_sized_buffer_emits) (intro emits_seq emits_bytes_field emits_bool_field)
  show "TreeNameUpgrade_Size m = length (enc_TreeNameUpgrade m)"
    by (simp add: TreeNameUpgrade_Size_def enc_TreeNameUpgrade_def length_fields )
  have "decodes ''TreeNameUpgrade'' TreeNameUpgrade_field (enc_TreeNameUpgrade m) TreeNameUpgrade_zero ( m)"
    unfolding enc_TreeNameUpgrade_def
  proof (intro decodes_append)
    show "decodes ''TreeNameUpgrade'' TreeNameUpgrade_field (enc_bytes 0xa (up_Name m)) (TreeNameUpgrade_zero)
        (TreeNameUpgrade_zero\<lparr>up_Name := up_Name m\<rparr>)"
      by (rule decodes_bytes) (simp_all add: TreeNameUpgrade_field_def TreeNameUpgrade_zero_def )
    show "decodes ''TreeNameUpgrade'' TreeNameUpgrade_field (enc_bytes 0x12 (up_RenameFrom m)) (TreeNameUpgrade_zero\<lparr>up_Name := up_Name m\<rparr>)
        (TreeNameUpgrade_zero\<lparr>up_Name := up_Name m, up_RenameFrom := up_RenameFrom m\<rparr>)"
      by (rule decodes_bytes) (simp_all add: TreeNameUpgrade_field_def TreeNameUpgrade_zero_def )
    show "decodes ''TreeNameUpgrade'' TreeNameUpgrade_field (enc_bool 0x18 (up_Delete m)) (TreeNameUpgrade_zero\<lparr>up_Name := up_Name m, up_RenameFrom := up_RenameFrom m\<rparr>)
        (m)"
      by (rule decodes_bool) (simp_all add: TreeNameUpgrade_field_def TreeNameUpgrade_zero_def )
  qed
  then show "length (enc_TreeNameUpgrade m) < 2 ^ 63 \<Longrightarrow> TreeNameUpgrade_Unmarshal (enc_TreeNameUpgrade m) TreeNameUpgrade_zero = Inr (id m)"
    unfolding TreeNameUpgrade_Unmarshal_def by (simp add: decodes_all)
  show "no_panic (TreeNameUpgrade_Unmarshal bz m)"
    unfolding TreeNameUpgrade_Unmarshal_def unmarshal_with_def
    by (rule unmarshal_loop_safe)
      (auto simp: TreeNameUpgrade_field_def safe_field_def  intro!: no_panic_bind split: if_splits)
qed

definition norm_entry :: "wal_entry \<Rightarrow> wal_entry" where
  "norm_entry m = m\<lparr>Changesets := map norm_named (Changesets m)\<rparr>"

lemma fold_changesets:
  "fold (\<lambda>m x. x\<lparr>Changesets := Changesets x @ [f m]\<rparr>) ms x = x\<lparr>Changesets := Changesets x @ map f ms\<rparr>"
  by (induction ms arbitrary: x) simp_all

lemma fold_upgrades:
  "fold (\<lambda>m x. x\<lparr>Upgrades := Upgrades x @ [f m]\<rparr>) ms x = x\<lparr>Upgrades := Upgrades x @ map f ms\<rparr>"
  by (induction ms arbitrary: x) simp_all

definition enc_WALEntry :: "wal_entry \<Rightarrow> bytes" where
  "enc_WALEntry m = concat (map (\<lambda>m. enc_len 0xa (enc_NamedChangeSet m)) (Changesets m)) @
     concat (map (\<lambda>m. enc_len 0x12 (enc_TreeNameUpgrade m)) (Upgrades m))"

interpretation we: message enc_WALEntry WALEntry_MarshalToSizedBuffer WALEntry_Size
  WALEntry_Unmarshal WALEntry_zero norm_entry
proof
  fix m :: wal_entry and dAtA bz :: bytes
  show "length (enc_WALEntry m) \<le> length dAtA \<Longrightarrow> WALEntry_MarshalToSizedBuffer m dAtA =
      Some (take (length dAtA - length (enc_WALEntry m)) dAtA @ enc_WALEntry m, length (enc_WALEntry m))"
    unfolding WALEntry_MarshalToSizedBuffer_def enc_WALEntry_def
    by (rule to_sized_buffer_emits) (intro emits_seq ncs.emits_repeated tnu.emits_repeated)
  show "WALEntry_Size m = length (enc_WALEntry m)"
    by (simp add: WALEntry_Size_def enc_WALEntry_def length_fields ncs.length_repeated tnu.length_repeated)
  have "decodes ''WALEntry'' WALEntry_field (enc_WALEntry m) WALEntry_zero (norm_entry m)"
    unfolding enc_WALEntry_def
  proof (intro decodes_append)
    show "decodes ''WALEntry'' WALEntry_field (concat (map (\<lambda>m. enc_len 0xa (enc_NamedChangeSet m)) (Changesets m))) (WALEntry_zero)
        (WALEntry_zero\<lparr>Changesets := map norm_named (Changesets m)\<rparr>)"
      using ncs.decodes_repeated [of "0xa" WALEntry_field "''Changesets''" "\<lambda>cs m. m\<lparr>Changesets := Changesets m @ [cs]\<rparr>"
          "''WALEntry''" "Changesets m" WALEntry_zero]
      by (simp add: WALEntry_field_def WALEntry_zero_def fold_changesets)
    show "decodes ''WALEntry'' WALEntry_field (concat (map (\<lambda>m. enc_len 0x12 (enc_TreeNameUpgrade m)) (Upgrades m))) (WALEntry_zero\<lparr>Changesets := map norm_named (Changesets m)\<rparr>)
        (norm_entry m)"
      using tnu.decodes_repeated [of "0x12" WALEntry_field "''Upgrades''" "\<lambda>u m. m\<lparr>Upgrades := Upgrades m @ [u]\<rparr>"
          "''WALEntry''" "Upgrades m" "WALEntry_zero\<lparr>Changesets := map norm_named (Changesets m)\<rparr>"]
      by (cases m) (simp add: WALEntry_field_def WALEntry_zero_def fold_upgrades norm_entry_def)
  qed
  then show "length (enc_WALEntry m) < 2 ^ 63 \<Longrightarrow> WALEntry_Unmarshal (enc_WALEntry m) WALEntry_zero = Inr (norm_entry m)"
    unfolding WALEntry_Unmarshal_def by (simp add: decodes_all)
  show "no_panic (WALEntry_Unmarshal bz m)"
    unfolding WALEntry_Unmarshal_def unmarshal_with_def
    by (rule unmarshal_loop_safe)
      (auto simp: WALEntry_field_def safe_field_def ncs.unmarshal_safe tnu.unmarshal_safe intro!: no_panic_bind split: if_splits)
qed

definition enc_CommitID :: "commit_id \<Rightarrow> bytes" where
  "enc_CommitID m = enc_int 0x8 (cid_Version m) @ enc_bytes 0x12 (cid_Hash m)"

interpretation cid: message enc_CommitID CommitID_MarshalToSizedBuffer CommitID_Size
  CommitID_Unmarshal CommitID_zero id
proof
  fix m :: commit_id and dAtA bz :: bytes
  show "length (enc_CommitID m) \<le> length dAtA \<Longrightarrow> CommitID_MarshalToSizedBuffer m dAtA =
      Some (take (length dAtA - length (enc_CommitID m)) dAtA @ enc_CommitID m, length (enc_CommitID m))"
    unfolding CommitID_MarshalToSizedBuffer_def enc_CommitID_def
    by (rule to_sized_buffer_emits) (intro emits_seq emits_bytes_field emits_int_field)
  show "CommitID_Size m = length (enc_CommitID m)"
    by (simp add: CommitID_Size_def enc_CommitID_def length_fields )
  have "decodes ''CommitID'' CommitID_field (enc_CommitID m) CommitID_zero ( m)"
    unfolding enc_CommitID_def
  proof (intro decodes_append)
    show "decodes ''CommitID'' CommitID_field (enc_int 0x8 (cid_Version m)) (CommitID_zero)
        (CommitID_zero\<lparr>cid_Version := cid_Version m\<rparr>)"
      by (rule decodes_int) (simp_all add: CommitID_field_def CommitID_zero_def )
    show "decodes ''CommitID'' CommitID_field (enc_bytes 0x12 (cid_Hash m)) (CommitID_zero\<lparr>cid_Version := cid_Version m\<rparr>)
        (m)"
      by (rule decodes_bytes) (simp_all add: CommitID_field_def CommitID_zero_def )
  qed
  then show "length (enc_CommitID m) < 2 ^ 63 \<Longrightarrow> CommitID_Unmarshal (enc_CommitID m) CommitID_zero = Inr (id m)"
    unfolding CommitID_Unmarshal_def by (simp add: decodes_all)
  show "no_panic (CommitID_Unmarshal bz m)"
    unfolding CommitID_Unmarshal_def unmarshal_with_def
    by (rule unmarshal_loop_safe)
      (auto simp: CommitID_field_def safe_field_def  intro!: no_panic_bind split: if_splits)
qed

definition enc_StoreInfo :: "store_info \<Rightarrow> bytes" where
  "enc_StoreInfo m = enc_bytes 0xa (si_Name m) @ enc_len 0x12 (enc_CommitID (si_CommitId m))"

interpretation si: message enc_StoreInfo StoreInfo_MarshalToSizedBuffer StoreInfo_Size
  StoreInfo_Unmarshal StoreInfo_zero id
proof
  fix m :: store_info and dAtA bz :: bytes
  show "length (enc_StoreInfo m) \<le> length dAtA \<Longrightarrow> StoreInfo_MarshalToSizedBuffer m dAtA =
      Some (take (length dAtA - length (enc_StoreInfo m)) dAtA @ enc_StoreInfo m, length (enc_StoreInfo m))"
    unfolding StoreInfo_MarshalToSizedBuffer_def enc_StoreInfo_def
    by (rule to_sized_buffer_emits) (intro emits_seq emits_bytes_field cid.emits_message)
  show "StoreInfo_Size m = length (enc_StoreInfo m)"
    by (simp add: StoreInfo_Size_def enc_StoreInfo_def length_fields cid.length_message)
  have "decodes ''StoreInfo'' StoreInfo_field (enc_StoreInfo m) StoreInfo_zero ( m)"
    unfolding enc_StoreInfo_def
  proof (intro decodes_append)
    show "decodes ''StoreInfo'' StoreInfo_field (enc_bytes 0xa (si_Name m)) (StoreInfo_zero)
        (StoreInfo_zero\<lparr>si_Name := si_Name m\<rparr>)"
      by (rule decodes_bytes) (simp_all add: StoreInfo_field_def StoreInfo_zero_def )
    show "decodes ''StoreInfo'' StoreInfo_field (enc_len 0x12 (enc_CommitID (si_CommitId m))) (StoreInfo_zero\<lparr>si_Name := si_Name m\<rparr>)
        (m)"
      by (rule decodes_message) (simp_all add: StoreInfo_field_def StoreInfo_zero_def cid.unmarshal_ok)
  qed
  then show "length (enc_StoreInfo m) < 2 ^ 63 \<Longrightarrow> StoreInfo_Unmarshal (enc_StoreInfo m) StoreInfo_zero = Inr (id m)"
    unfolding StoreInfo_Unmarshal_def by (simp add: decodes_all)
  show "no_panic (StoreInfo_Unmarshal bz m)"
    unfolding StoreInfo_Unmarshal_def unmarshal_with_def
    by (rule unmarshal_loop_safe)
      (auto simp: StoreInfo_field_def safe_field_def cid.unmarshal_safe intro!: no_panic_bind split: if_splits)
qed

lemma fold_store_infos:
  "fold (\<lambda>m x. x\<lparr>StoreInfos := StoreInfos x @ [f m]\<rparr>) ms x = x\<lparr>StoreInfos := StoreInfos x @ map f ms\<rparr>"
  by (induction ms arbitrary: x) simp_all

definition enc_CommitInfo :: "commit_info \<Rightarrow> bytes" where
  "enc_CommitInfo m = enc_int 0x8 (ci_Version m) @ concat (map (\<lambda>m. enc_len 0x12 (enc_StoreInfo m)) (StoreInfos m))"

interpretation ci: message enc_CommitInfo CommitInfo_MarshalToSizedBuffer CommitInfo_Size
  CommitInfo_Unmarshal CommitInfo_zero id
proof
  fix m :: commit_info and dAtA bz :: bytes
  show "length (enc_CommitInfo m) \<le> length dAtA \<Longrightarrow> CommitInfo_MarshalToSizedBuffer m dAtA =
      Some (take (length dAtA - length (enc_CommitInfo m)) dAtA @ enc_CommitInfo m, length (enc_CommitInfo m))"
    unfolding CommitInfo_MarshalToSizedBuffer_def enc_CommitInfo_def
    by (rule to_sized_buffer_emits) (intro emits_seq emits_int_field si.emits_repeated)
  show "CommitInfo_Size m = length (enc_CommitInfo m)"
    by (simp add: CommitInfo_Size_def enc_CommitInfo_def length_fields si.length_repeated)
  have "decodes ''CommitInfo'' CommitInfo_field (enc_CommitInfo m) CommitInfo_zero ( m)"
    unfolding enc_CommitInfo_def
  proof (intro decodes_append)
    show "decodes ''CommitInfo'' CommitInfo_field (enc_int 0x8 (ci_Version m)) (CommitInfo_zero)
        (CommitInfo_zero\<lparr>ci_Version := ci_Version m\<rparr>)"
      by (rule decodes_int) (simp_all add: CommitInfo_field_def CommitInfo_zero_def )
    show "decodes ''CommitInfo'' CommitInfo_field (concat (map (\<lambda>m. enc_len 0x12 (enc_StoreInfo m)) (StoreInfos m))) (CommitInfo_zero\<lparr>ci_Version := ci_Version m\<rparr>)
        (m)"
      using si.decodes_repeated [of "0x12" CommitInfo_field "''StoreInfos''" "\<lambda>s m. m\<lparr>StoreInfos := StoreInfos m @ [s]\<rparr>"
          "''CommitInfo''" "StoreInfos m" "CommitInfo_zero\<lparr>ci_Version := ci_Version m\<rparr>"]
      by (cases m) (simp add: CommitInfo_field_def CommitInfo_zero_def fold_store_infos)
  qed
  then show "length (enc_CommitInfo m) < 2 ^ 63 \<Longrightarrow> CommitInfo_Unmarshal (enc_CommitInfo m) CommitInfo_zero = Inr (id m)"
    unfolding CommitInfo_Unmarshal_def by (simp add: decodes_all)
  show "no_panic (CommitInfo_Unmarshal bz m)"
    unfolding CommitInfo_Unmarshal_def unmarshal_with_def
    by (rule unmarshal_loop_safe)
      (auto simp: CommitInfo_field_def safe_field_def si.unmarshal_safe intro!: no_panic_bind split: if_splits)
qed

definition enc_MultiTreeMetadata :: "multi_tree_metadata \<Rightarrow> bytes" where
  "enc_MultiTreeMetadata m =
     (case md_CommitInfo m of None \<Rightarrow> [] | Some ci \<Rightarrow> enc_len 0xa (enc_CommitInfo ci)) @ enc_int 0x10 (md_InitialVersion m)"

interpretation md: message enc_MultiTreeMetadata MultiTreeMetadata_MarshalToSizedBuffer MultiTreeMetadata_Size
  MultiTreeMetadata_Unmarshal MultiTreeMetadata_zero id
proof
  fix m :: multi_tree_metadata and dAtA bz :: bytes
  let ?put = "\<lambda>b. case md_CommitInfo m of None \<Rightarrow> Some b
      | Some ci \<Rightarrow> put_message_field 0xa CommitInfo_MarshalToSizedBuffer ci b"
  let ?enc = "case md_CommitInfo m of None \<Rightarrow> [] | Some ci \<Rightarrow> enc_len 0xa (enc_CommitInfo ci)"
  have "emits ?put ?enc"
    by (cases "md_CommitInfo m") (auto intro: ci.emits_message)
  then show "length (enc_MultiTreeMetadata m) \<le> length dAtA \<Longrightarrow> MultiTreeMetadata_MarshalToSizedBuffer m dAtA =
      Some (take (length dAtA - length (enc_MultiTreeMetadata m)) dAtA @ enc_MultiTreeMetadata m,
        length (enc_MultiTreeMetadata m))"
    unfolding MultiTreeMetadata_MarshalToSizedBuffer_def enc_MultiTreeMetadata_def
    by (intro to_sized_buffer_emits emits_seq emits_int_field)
  show "MultiTreeMetadata_Size m = length (enc_MultiTreeMetadata m)"
    by (simp add: MultiTreeMetadata_Size_def enc_MultiTreeMetadata_def length_fields ci.length_message split: option.split)
  have "decodes ''MultiTreeMetadata'' MultiTreeMetadata_field (enc_MultiTreeMetadata m) MultiTreeMetadata_zero m"
    unfolding enc_MultiTreeMetadata_def
  proof (intro decodes_append)
    show "decodes ''MultiTreeMetadata'' MultiTreeMetadata_field ?enc MultiTreeMetadata_zero
        (MultiTreeMetadata_zero\<lparr>md_CommitInfo := md_CommitInfo m\<rparr>)"
    proof (cases "md_CommitInfo m")
      case None
      then show ?thesis
        by (simp add: MultiTreeMetadata_zero_def decodes_none)
    next
      case (Some ci)
      have "decodes ''MultiTreeMetadata'' MultiTreeMetadata_field (enc_len 0xa (enc_CommitInfo ci)) MultiTreeMetadata_zero
          (MultiTreeMetadata_zero\<lparr>md_CommitInfo := Some ci\<rparr>)"
        by (rule decodes_message)
          (simp_all add: MultiTreeMetadata_field_def MultiTreeMetadata_zero_def ci.unmarshal_ok)
      with Some show ?thesis by simp
    qed
    show "decodes ''MultiTreeMetadata'' MultiTreeMetadata_field (enc_int 0x10 (md_InitialVersion m))
        (MultiTreeMetadata_zero\<lparr>md_CommitInfo := md_CommitInfo m\<rparr>) m"
      by (rule decodes_int) (simp_all add: MultiTreeMetadata_field_def MultiTreeMetadata_zero_def)
  qed
  then show "length (enc_MultiTreeMetadata m) < 2 ^ 63 \<Longrightarrow>
      MultiTreeMetadata_Unmarshal (enc_MultiTreeMetadata m) MultiTreeMetadata_zero = Inr (id m)"
    unfolding MultiTreeMetadata_Unmarshal_def by (simp add: decodes_all)
  show "no_panic (MultiTreeMetadata_Unmarshal bz m)"
    unfolding MultiTreeMetadata_Unmarshal_def unmarshal_with_def
    by (rule unmarshal_loop_safe)
      (auto simp: MultiTreeMetadata_field_def safe_field_def Let_def ci.unmarshal_safe intro!: no_panic_bind
        split: if_splits option.splits)
qed

section \<open>Correctness of the codecs\<close>

text \<open>
  C21: what is written to the log and to the metadata file is read back. \<open>Marshal\<close> of a log entry
  or of the metadata never runs out of the buffer it allocates and fills it exactly, so \<open>Size\<close> is
  right; \<open>Unmarshal\<close> of the bytes succeeds and gives back the message, where the only difference
  is that an empty value of a change set comes back as nil.
\<close>

theorem messages_round_trip:
  assumes "WALEntry_Size entry < 2 ^ 63" "MultiTreeMetadata_Size metadata < 2 ^ 63"
  shows "(\<exists>bz. WALEntry_Marshal entry = Some bz \<and> length bz = WALEntry_Size entry \<and>
      WALEntry_Unmarshal bz WALEntry_zero = Inr (norm_entry entry)) \<and>
    (\<exists>bz. MultiTreeMetadata_Marshal metadata = Some bz \<and> length bz = MultiTreeMetadata_Size metadata \<and>
      MultiTreeMetadata_Unmarshal bz MultiTreeMetadata_zero = Inr metadata)"
  using assms we.marshal_ok [of entry] md.marshal_ok [of metadata] we.unmarshal_ok [of entry] md.unmarshal_ok [of metadata]
  by (simp add: WALEntry_Marshal_def MultiTreeMetadata_Marshal_def we.size_ok md.size_ok)

theorem messages_round_trip_witness:
  "\<exists>bz. WALEntry_Marshal \<lparr>Changesets = [\<lparr>ncs_Changeset =
        [\<lparr>kv_delete = False, kv_key = [1], kv_value = Some []\<rparr>, \<lparr>kv_delete = True, kv_key = [2], kv_value = None\<rparr>],
        ncs_Name = [98]\<rparr>], Upgrades = [\<lparr>up_Name = [99], up_RenameFrom = [], up_Delete = False\<rparr>]\<rparr> = Some bz \<and> length bz = 24 \<and>
    WALEntry_Unmarshal bz WALEntry_zero = Inr \<lparr>Changesets = [\<lparr>ncs_Changeset =
        [\<lparr>kv_delete = False, kv_key = [1], kv_value = None\<rparr>, \<lparr>kv_delete = True, kv_key = [2], kv_value = None\<rparr>],
        ncs_Name = [98]\<rparr>], Upgrades = [\<lparr>up_Name = [99], up_RenameFrom = [], up_Delete = False\<rparr>]\<rparr>"
  using messages_round_trip [of "\<lparr>Changesets = [\<lparr>ncs_Changeset =
        [\<lparr>kv_delete = False, kv_key = [1], kv_value = Some []\<rparr>, \<lparr>kv_delete = True, kv_key = [2], kv_value = None\<rparr>],
        ncs_Name = [98]\<rparr>], Upgrades = [\<lparr>up_Name = [99], up_RenameFrom = [], up_Delete = False\<rparr>]\<rparr>"
      "MultiTreeMetadata_zero"]
  by (simp add: WALEntry_Size_def size_message_field_def NamedChangeSet_Size_def ChangeSet_Size_def KVPair_Size_def
      TreeNameUpgrade_Size_def size_bytes_field_def size_int_field_def MultiTreeMetadata_Size_def MultiTreeMetadata_zero_def
      norm_entry_def norm_named_def norm_pair_def Let_def sov_small)


end
