(* ===== verification/Export_Import.thy ===== *)
theory Export_Import
  imports Iavl_Tree
begin

text \<open>
  Export and import of a tree: \<open>Export\<close> of \<open>src/memiavl/tree.go\<close>, \<open>export\<close> of
  \<open>src/memiavl/snapshot.go\<close> and the importer of \<open>src/memiavl/import.go\<close>. The exporter runs in a
  goroutine and sends its nodes through a channel; it is modelled by the list of nodes it sends,
  and a consumer that closes it early sees a prefix.
\<close>

section \<open>Export\<close>

text \<open>
  The inner loop of \<open>export\<close>: leaves are sent until \<open>bound\<close> subtrees are pending. It returns the
  leaves sent, the number of pending subtrees and the next leaf.
\<close>

function export_fill :: "snapshot \<Rightarrow> nat \<Rightarrow> nat \<Rightarrow> u32 \<Rightarrow> (export_node list \<times> nat \<times> u32) option" where
  "export_fill s bound pendingTrees j =
     (if pendingTrees < bound then do {
        leaf \<leftarrow> layout_Leaf (snap_leaves s) j;
        offset \<leftarrow> leaf_KeyOffset leaf;
        (key, val) \<leftarrow> snap_KeyValue s offset;
        version \<leftarrow> leaf_Version leaf;
        let enode = \<lparr>en_Key = key, en_Value = Some val, en_Version = uint version, en_Height = 0\<rparr>;
        (rest, pendingTrees', j') \<leftarrow> export_fill s bound (pendingTrees + 1) (j + 1);
        Some (enode # rest, pendingTrees', j')
      } else Some ([], pendingTrees, j))"
  by auto
termination
  by (relation "measure (\<lambda>(s, bound, pendingTrees, j). bound - pendingTrees)") auto

declare export_fill.simps [simp del]

text \<open>The loop over the branches, from branch \<open>i\<close> on.\<close>

function export_loop :: "snapshot \<Rightarrow> nat \<Rightarrow> nat \<Rightarrow> u32 \<Rightarrow> export_node list option" where
  "export_loop s i pendingTrees j =
     (if i < nodesLen s then do {
        node \<leftarrow> layout_Node (snap_nodes s) (of_nat i);
        (sent, pendingTrees, j) \<leftarrow> export_fill s (unat (node_PreTrees node) + 2) pendingTrees j;
        version \<leftarrow> node_Version node;
        keyLeaf \<leftarrow> node_KeyLeaf node;
        key \<leftarrow> LeafKey s keyLeaf;
        let enode = \<lparr>en_Key = key, en_Value = None, en_Version = uint version, en_Height = sint (node_Height node)\<rparr>;
        rest \<leftarrow> export_loop s (i + 1) (pendingTrees - 1) j;
        Some (sent @ enode # rest)
      } else Some [])"
  by auto
termination
  by (relation "measure (\<lambda>(s, i, pendingTrees, j). nodesLen s - i)") auto

declare export_loop.simps [simp del]

definition snap_export :: "snapshot \<Rightarrow> export_node list option" where
  "snap_export s =
     (if leavesLen s = 0 then Some []
      else if leavesLen s = 1 then do {
        let leaf = \<lparr>p_isLeaf = True, p_index = 0\<rparr>;
        version \<leftarrow> p_Version s leaf;
        key \<leftarrow> p_Key s leaf;
        val \<leftarrow> p_Value s leaf;
        Some [\<lparr>en_Key = key, en_Value = val, en_Version = uint version, en_Height = 0\<rparr>]
      }
      else export_loop s 0 0 0)"

definition tree_Export :: "'c tree \<Rightarrow> export_node list option" where
  "tree_Export t =
     (case tree_snap t of
        Some s \<Rightarrow> (if tree_version t = snap_version s then snap_export s else Some (map to_export (ScanPostOrder t)))
      | None \<Rightarrow> Some (map to_export (ScanPostOrder t)))"

section \<open>Import\<close>

text \<open>
  A pending node of the importer: its size and its hash. The stacks are modelled with their top
  first.
\<close>

record pending_node =
  pn_size :: u64
  pn_hash :: bytes

record importer =
  im_writer :: snapshotWriter
  leavesStack :: "u32 list"
  nodeStack :: "pending_node list"

definition importer_Add :: "export_node \<Rightarrow> importer \<Rightarrow> importer res" where
  "importer_Add n i =
     (if en_Version n > 0xffffffff then Inl (Error ''version overflows uint32'')
      else if en_Height n = 0 then
        (let version = of_int (en_Version n); key = en_Key n;
             x = (case en_Value n of None \<Rightarrow> [] | Some x \<Rightarrow> x);
             nodeHash = hashNode (Leaf version key x)
         in case writeLeaf (\<lambda>_. False) version key x nodeHash (im_writer i) of
              Inl err \<Rightarrow> Inl err
            | Inr w \<Rightarrow> Inr \<lparr>im_writer = w, leavesStack = leafCounter w # leavesStack i,
                            nodeStack = \<lparr>pn_size = 1, pn_hash = nodeHash\<rparr> # nodeStack i\<rparr>)
      else
        (case (leavesStack i, nodeStack i) of
           (_ # keyLeaf # leaves', rightNode # leftNode # nodes') \<Rightarrow>
             (let height = of_int (en_Height n); size' = pn_size leftNode + pn_size rightNode;
                  version = of_int (en_Version n);
                  nodeHash = sha256 (putVarint (ucast height) @ putVarint size' @ putVarint (ucast version) @
                    encodeBytes (pn_hash leftNode) @ encodeBytes (pn_hash rightNode));
                  preTrees = of_nat (length (nodeStack i) - 2);
                  w = writeBranch version (ucast size') height preTrees keyLeaf nodeHash (im_writer i)
              in Inr \<lparr>im_writer = w, leavesStack = leafCounter w # leaves',
                      nodeStack = \<lparr>pn_size = size', pn_hash = nodeHash\<rparr> # nodes'\<rparr>)
         | _ \<Rightarrow> Inl (Panic ''index out of range'')))"

fun import_nodes :: "export_node list \<Rightarrow> importer \<Rightarrow> importer res" where
  "import_nodes [] i = Inr i"
| "import_nodes (n # ns) i =
     (case importer_Add n i of Inl err \<Rightarrow> Inl err | Inr i \<Rightarrow> import_nodes ns i)"

definition doImport :: "int \<Rightarrow> export_node list \<Rightarrow> snapshot_dir res" where
  "doImport version nodes =
     (if version > 0xffffffff then Inl (Error ''version overflows uint32'')
      else writeSnapshot (of_int version) (\<lambda>w.
        case import_nodes nodes \<lparr>im_writer = w, leavesStack = [], nodeStack = []\<rparr> of
          Inl err \<Rightarrow> Inl err
        | Inr i \<Rightarrow>
            (case leavesStack i of
               [] \<Rightarrow> Inr (0, im_writer i)
             | [_] \<Rightarrow> Inr (leafCounter (im_writer i), im_writer i)
             | _ \<Rightarrow> Inl (Error ''invalid node structure''))))"

section \<open>Importing an export writes the snapshot\<close>

text \<open>The writer after a subtree has been written.\<close>

definition written :: "node \<Rightarrow> nat \<Rightarrow> nat \<Rightarrow> nat \<Rightarrow> snapshotWriter \<Rightarrow> snapshotWriter" where
  "written t B pre off w = w\<lparr>
    w_nodes := w_nodes w @ branch_recs t (B + pre) pre,
    w_leaves := w_leaves w @ leaf_recs t off,
    w_kvs := w_kvs w @ kv_recs t,
    leafCounter := of_nat (B + pre + nleaves t),
    branchCounter := of_nat (B + nleaves t - 1),
    kvsOffset := of_nat (off + length (kv_recs t))\<rparr>"

lemma import_nodes_append:
  "import_nodes (xs @ ys) i = (case import_nodes xs i of Inl err \<Rightarrow> Inl err | Inr i \<Rightarrow> import_nodes ys i)"
  by (induction xs arbitrary: i) (auto split: sum.splits)

lemma u32_version: "\<not> uint (v :: u32) > 0xffffffff" "of_int (uint v) = v"
proof -
  have "uint v < 2 ^ LENGTH(32)" by (rule uint_lt2p)
  then show "\<not> uint v > 0xffffffff" by simp
qed simp

lemma node_size_add:
  "wf_node (Branch h s v k l r) \<Longrightarrow> node_size l + node_size r = s"
  by (rule word_unat_eq_iff [THEN iffD2])
    (use unsigned_less [of s, where 'a = nat] in \<open>simp add: word_conv node_size_wf\<close>)

lemma written_Branch:
  "writeBranch v (ucast s) h (of_nat pre) (of_nat (B + pre + nleaves l)) (hashNode (Branch h s v k l r))
     (written r (B + nleaves l - 1) (pre + 1) (off + length (kv_recs l)) (written l B pre off w)) =
   written (Branch h s v k l r) B pre off w"
proof -
  have n: "0 < nleaves l" "0 < nleaves r" by simp_all
  then obtain a b where ab: "nleaves l = Suc a" "nleaves r = Suc b"
    using gr0_implies_Suc by metis
  show ?thesis
    unfolding written_def by (simp add: writeBranch_def branch_rec_def ab Let_def ac_simps)
qed

lemma import_leaf:
  "importer_Add (to_export (Leaf v k x)) \<lparr>im_writer = w, leavesStack = ls, nodeStack = ns\<rparr> =
     (case writeLeaf (\<lambda>_. False) v k x (hashNode (Leaf v k x)) w of
        Inl err \<Rightarrow> Inl err
      | Inr w \<Rightarrow> Inr \<lparr>im_writer = w, leavesStack = leafCounter w # ls,
          nodeStack = \<lparr>pn_size = 1, pn_hash = hashNode (Leaf v k x)\<rparr> # ns\<rparr>)"
  using u32_version [of v] by (simp add: importer_Add_def to_export_def Let_def split: sum.split)

lemma import_branch:
  assumes "wf_node (Branch h s v k l r)"
  shows "importer_Add (to_export (Branch h s v k l r))
      \<lparr>im_writer = w, leavesStack = a # b # ls,
       nodeStack = \<lparr>pn_size = node_size r, pn_hash = hashNode r\<rparr> # \<lparr>pn_size = node_size l, pn_hash = hashNode l\<rparr> # ns\<rparr> =
    (let w = writeBranch v (ucast s) h (of_nat (length ns)) b (hashNode (Branch h s v k l r)) w
     in Inr \<lparr>im_writer = w, leavesStack = leafCounter w # ls,
          nodeStack = \<lparr>pn_size = s, pn_hash = hashNode (Branch h s v k l r)\<rparr> # ns\<rparr>)"
proof -
  have "h \<noteq> 0" using assms by auto
  then have "sint h \<noteq> 0" by (simp add: signed_eq_0_iff)
  then show ?thesis
    using u32_version [of v] node_size_add [OF assms]
    by (simp add: importer_Add_def to_export_def Let_def hashNode_def)
qed

lemma import_postorder:
  assumes "wf_node t" "leafCounter w = of_nat (B + length ns)" "branchCounter w = of_nat B" "kvsOffset w = of_nat off"
  shows "import_nodes (map to_export (postorder t)) \<lparr>im_writer = w, leavesStack = ls, nodeStack = ns\<rparr> =
    Inr \<lparr>im_writer = written t B (length ns) off w, leavesStack = of_nat (B + length ns + nleaves t) # ls,
         nodeStack = \<lparr>pn_size = node_size t, pn_hash = hashNode t\<rparr> # ns\<rparr>"
  using assms
proof (induction t arbitrary: w B off ls ns)
  case (Leaf v k x)
  then show ?case
    using writeRecursive_recs [of "\<lambda>_. False" w B "length ns" off "Leaf v k x"]
    by (simp add: import_leaf written_def)
next
  case (Branch h s v k l r)
  let ?w = "written l B (length ns) off w"
  let ?ns = "\<lparr>pn_size = node_size l, pn_hash = hashNode l\<rparr> # ns"
  have n: "B + nleaves l - 1 + length ?ns = B + length ns + nleaves l"
    by (cases "nleaves l") simp_all
  have "import_nodes (map to_export (postorder l)) \<lparr>im_writer = w, leavesStack = ls, nodeStack = ns\<rparr> =
      Inr \<lparr>im_writer = ?w, leavesStack = of_nat (B + length ns + nleaves l) # ls, nodeStack = ?ns\<rparr>"
    by (rule Branch.IH(1)) (use Branch.prems in simp_all)
  moreover have "import_nodes (map to_export (postorder r))
      \<lparr>im_writer = ?w, leavesStack = of_nat (B + length ns + nleaves l) # ls, nodeStack = ?ns\<rparr> =
      Inr \<lparr>im_writer = written r (B + nleaves l - 1) (length ?ns) (off + length (kv_recs l)) ?w,
        leavesStack = of_nat (B + nleaves l - 1 + length ?ns + nleaves r) # of_nat (B + length ns + nleaves l) # ls,
        nodeStack = \<lparr>pn_size = node_size r, pn_hash = hashNode r\<rparr> # ?ns\<rparr>"
  proof (rule Branch.IH(2))
    show "leafCounter ?w = of_nat (B + nleaves l - 1 + length ?ns)"
      unfolding n by (simp add: written_def)
  qed (use Branch.prems(1) in \<open>simp_all add: written_def\<close>)
  ultimately show ?case
    using import_branch [OF Branch.prems(1)] written_Branch [of v s h "length ns" B l k r off w]
    by (simp add: import_nodes_append Let_def written_def)
qed

section \<open>A snapshot exports its tree in post-order\<close>

text \<open>The export node of a leaf of the snapshot.\<close>

definition leaf_export :: "snapshot \<Rightarrow> u32 \<Rightarrow> export_node option" where
  "leaf_export s j = do {
     leaf \<leftarrow> layout_Leaf (snap_leaves s) j;
     offset \<leftarrow> leaf_KeyOffset leaf;
     (key, val) \<leftarrow> snap_KeyValue s offset;
     version \<leftarrow> leaf_Version leaf;
     Some \<lparr>en_Key = key, en_Value = Some val, en_Version = uint version, en_Height = 0\<rparr>
   }"

lemma export_fill_step:
  "pendingTrees < bound \<Longrightarrow> leaf_export s j = Some e \<Longrightarrow>
   export_fill s bound pendingTrees j =
     map_option (\<lambda>(rest, p, j). (e # rest, p, j)) (export_fill s bound (pendingTrees + 1) (j + 1))"
  by (subst export_fill.simps)
    (auto simp: leaf_export_def Let_def map_option_case split: Option.bind_splits option.splits prod.splits)

lemma leaf_export_placed:
  assumes "placed s t B pre off" "B + pre + nleaves t < 2 ^ 32" "fits s t" "i < nleaves t"
  shows "leaf_export s (of_nat (B + pre + i)) =
    (let (k, x, v) = leaves t ! i in Some (to_export (Leaf v k x)))"
  using assms
proof (induction t arbitrary: B pre off i)
  case (Leaf v k x)
  have B: "B + pre < 2 ^ 32" using Leaf.prems(2) by simp
  show ?case
    using placed_leaf [OF Leaf.prems(1) B] leaf_key_value(3) [OF Leaf.prems(1) B Leaf.prems(3)] Leaf.prems(4)
    by (simp add: leaf_export_def leaf_fields to_export_def del: of_nat_add)
next
  case (Branch h n v k l r)
  note at = placed_left [OF Branch.prems(1)] placed_right [OF Branch.prems(1)]
  show ?case
  proof (cases "i < nleaves l")
    case True
    then show ?thesis
      using Branch.IH(1) [OF at(1), of i] Branch.prems by (simp add: nth_append)
  next
    case False
    then have e: "B + nleaves l - 1 + (pre + 1) + (i - nleaves l) = B + pre + i"
      by (cases "nleaves l") simp_all
    have "B + nleaves l - 1 + (pre + 1) + nleaves r = B + pre + (nleaves l + nleaves r)"
      by (cases "nleaves l") simp_all
    then have "B + nleaves l - 1 + (pre + 1) + nleaves r < 2 ^ 32"
      using Branch.prems(2) by (simp only: leaves.simps length_append)
    from Branch.IH(2) [OF at(2) this, of "i - nleaves l", unfolded e] show ?thesis
      using False Branch.prems by (simp add: nth_append)
  qed
qed

text \<open>The leaves from \<open>a\<close> up to \<open>b\<close>.\<close>

definition leaf_seg :: "snapshot \<Rightarrow> nat \<Rightarrow> nat \<Rightarrow> export_node list" where
  "leaf_seg s a b = map (\<lambda>i. the (leaf_export s (of_nat i))) [a..<b]"

lemma leaf_seg_simps [simp]:
  "leaf_seg s a a = []"
  "a \<le> b \<Longrightarrow> b \<le> c \<Longrightarrow> leaf_seg s a b @ leaf_seg s b c = leaf_seg s a c"
  using upt_add_eq_append [of a b "c - b"] by (simp_all add: leaf_seg_def flip: map_append)

lemma export_fill_seg:
  assumes "\<And>i. i < n \<Longrightarrow> leaf_export s (of_nat i) \<noteq> None" "j + d \<le> n"
  shows "export_fill s (p + d) p (of_nat j) = Some (leaf_seg s j (j + d), p + d, of_nat (j + d))"
  using assms(2)
proof (induction d arbitrary: p j)
  case 0
  show ?case by (subst export_fill.simps) simp
next
  case (Suc d)
  obtain e where e: "leaf_export s (of_nat j) = Some e"
    using assms(1) [of j] Suc.prems by fastforce
  have "export_fill s (p + Suc d) p (of_nat j) =
      map_option (\<lambda>(rest, p, j). (e # rest, p, j)) (export_fill s (p + 1 + d) (p + 1) (of_nat (j + 1)))"
    using export_fill_step [of p "p + Suc d" s "of_nat j" e] e by (simp add: add.commute)
  also have "\<dots> = Some (e # leaf_seg s (j + 1) (j + 1 + d), p + 1 + d, of_nat (j + 1 + d))"
    using Suc.IH [of "j + 1" "p + 1"] Suc.prems by simp
  also have "e # leaf_seg s (j + 1) (j + 1 + d) = leaf_seg s j (j + Suc d)"
    using e by (simp add: leaf_seg_def upt_rec [of j] del: upt_Suc)
  finally show ?case by simp
qed

text \<open>
  The loop before and after a subtree: \<open>d\<close> leaves just before the subtree may not have been sent
  yet. Whatever the loop sends for the subtree, together with the leaves it still holds back,
  is what was held back and the subtree in post-order.
\<close>

definition held_back :: "node \<Rightarrow> nat \<Rightarrow> nat" where
  "held_back t d = (if nleaves t = 1 then d + 1 else 0)"

lemma export_branch:
  assumes pl: "placed s (Branch h n v k l r) B pre off" and wf: "wf_node (Branch h n v k l r)"
    and cap: "B + pre + (nleaves l + nleaves r) < 2 ^ 32" "pre < 256" and fits: "fits s (Branch h n v k l r)"
    and read: "\<And>i. i < B + pre + (nleaves l + nleaves r) \<Longrightarrow> leaf_export s (of_nat i) \<noteq> None"
    and d: "d \<le> pre + 2"
  defines "i \<equiv> B + (nleaves l + nleaves r) - 2" and "L \<equiv> B + pre + (nleaves l + nleaves r)"
  shows "export_loop s i (pre + 2 - d) (of_nat (L - d)) =
    map_option (\<lambda>rest. leaf_seg s (L - d) L @ to_export (Branch h n v k l r) # rest)
      (export_loop s (i + 1) (pre + 1) (of_nat L))"
proof -
  have pos: "0 < nleaves l" "0 < nleaves r" by simp_all
  have layout: "layout_Node (snap_nodes s) (of_nat i) =
      Some (branch_rec h pre v (ucast n) (B + pre + nleaves l) (hashNode (Branch h n v k l r)))"
    unfolding i_def by (rule placed_branch [OF pl]) (use cap in linarith)
  obtain a b where "snap_nodes s = a @ branch_recs (Branch h n v k l r) (B + pre) pre @ b" "length a = 48 * B"
    using pl by (auto simp: placed_def)
  then have "48 * (B + (nleaves l + nleaves r - 1)) \<le> length (snap_nodes s)"
    by (simp del: branch_recs.simps)
  then have "B + (nleaves l + nleaves r - 1) \<le> nodesLen s"
    unfolding nodesLen_def by (simp add: less_eq_div_iff_mult_less_eq mult.commute)
  then have i: "i < nodesLen s"
    using pos unfolding i_def by linarith
  have r: "B + nleaves l - 1 + (pre + 1) = B + pre + nleaves l"
    using pos by simp
  have key: "LeafKey s (of_nat (B + pre + nleaves l)) = Some k"
    using first_leaf_key [OF placed_right [OF pl]] cap(1) wf fits unfolding r by simp
  have bound: "unat (of_nat pre :: u8) + 2 = (pre + 2 - d) + d"
    using cap(2) d by (simp add: word_conv)
  have L: "L - d + d = L"
    using d pos unfolding L_def by linarith
  have fill: "export_fill s (unat (of_nat pre :: u8) + 2) (pre + 2 - d) (of_nat (L - d)) =
      Some (leaf_seg s (L - d) L, pre + 2, of_nat L)"
    unfolding bound using export_fill_seg [of L s "L - d" d "pre + 2 - d"] read L d by (simp add: L_def)
  note fields = branch_fields [where hash = "hashNode (Branch h n v k l r)", OF length_hashNode]
  show ?thesis
    by (subst export_loop.simps)
      (simp add: i layout fields fill [simplified] key to_export_def Let_def map_option_case split: option.splits
        del: of_nat_add of_nat_diff)
qed

lemma export_subtree:
  assumes "placed s t B pre off" "wf_node t" "B + pre + nleaves t < 2 ^ 32" "pre + hgt t < 256" "fits s t"
    and "\<And>i. i < B + pre + nleaves t \<Longrightarrow> leaf_export s (of_nat i) \<noteq> None" "d \<le> pre"
  shows "\<exists>E. export_loop s B (pre - d) (of_nat (B + pre - d)) =
      map_option (\<lambda>rest. E @ rest) (export_loop s (B + nleaves t - 1) (pre + 1 - held_back t d)
        (of_nat (B + pre + nleaves t - held_back t d))) \<and>
    E @ leaf_seg s (B + pre + nleaves t - held_back t d) (B + pre + nleaves t) =
      leaf_seg s (B + pre - d) (B + pre) @ map to_export (postorder t)"
  using assms
proof (induction t arbitrary: B pre off d)
  case (Leaf v k x)
  have "leaf_export s (of_nat (B + pre)) = Some (to_export (Leaf v k x))"
    using leaf_export_placed [OF Leaf.prems(1,3,5), of 0] by simp
  then have "leaf_seg s (B + pre) (Suc (B + pre)) = [to_export (Leaf v k x)]"
    by (simp add: leaf_seg_def)
  moreover have "leaf_seg s (B + pre - d) (Suc (B + pre)) =
      leaf_seg s (B + pre - d) (B + pre) @ leaf_seg s (B + pre) (Suc (B + pre))"
    by simp
  ultimately show ?case
    by (intro exI [of _ "[]"]) (simp add: held_back_def option.map_ident)
next
  case (Branch h n v k l r)
  let ?t = "Branch h n v k l r" and ?a = "nleaves l" and ?b = "nleaves r"
  let ?d1 = "held_back l d" let ?d2 = "held_back r ?d1"
  have pos: "1 \<le> ?a" "1 \<le> ?b" by (simp_all add: Suc_le_eq)
  have cap: "B + pre + (?a + ?b) < 2 ^ 32" "pre < 256"
    using Branch.prems(3,4) by simp_all
  have r0: "B + ?a - 1 + (pre + 1) = B + pre + ?a" "B + ?a - 1 + ?b - 1 = B + (?a + ?b) - 2"
    "B + pre + ?a + ?b = B + pre + (?a + ?b)"
    using pos by simp_all
  have d1: "?d1 \<le> pre + 1" "?d1 \<le> pre + ?a" and d2: "?d2 \<le> pre + 2"
    using Branch.prems(7) pos by (auto simp: held_back_def)
  have "\<exists>E. export_loop s B (pre - d) (of_nat (B + pre - d)) =
      map_option (\<lambda>rest. E @ rest) (export_loop s (B + ?a - 1) (pre + 1 - ?d1) (of_nat (B + pre + ?a - ?d1))) \<and>
    E @ leaf_seg s (B + pre + ?a - ?d1) (B + pre + ?a) = leaf_seg s (B + pre - d) (B + pre) @ map to_export (postorder l)"
    by (rule Branch.IH(1) [OF placed_left [OF Branch.prems(1)]]) (use Branch.prems cap in auto)
  then obtain E1 where E1: "export_loop s B (pre - d) (of_nat (B + pre - d)) =
      map_option (\<lambda>rest. E1 @ rest) (export_loop s (B + ?a - 1) (pre + 1 - ?d1) (of_nat (B + pre + ?a - ?d1)))"
    "E1 @ leaf_seg s (B + pre + ?a - ?d1) (B + pre + ?a) = leaf_seg s (B + pre - d) (B + pre) @ map to_export (postorder l)"
    by blast
  have "\<exists>E. export_loop s (B + ?a - 1) (pre + 1 - ?d1) (of_nat (B + ?a - 1 + (pre + 1) - ?d1)) =
      map_option (\<lambda>rest. E @ rest) (export_loop s (B + ?a - 1 + ?b - 1) (pre + 1 + 1 - ?d2)
        (of_nat (B + ?a - 1 + (pre + 1) + ?b - ?d2))) \<and>
    E @ leaf_seg s (B + ?a - 1 + (pre + 1) + ?b - ?d2) (B + ?a - 1 + (pre + 1) + ?b) =
      leaf_seg s (B + ?a - 1 + (pre + 1) - ?d1) (B + ?a - 1 + (pre + 1)) @ map to_export (postorder r)"
  proof (rule Branch.IH(2) [OF placed_right [OF Branch.prems(1)]])
    show "leaf_export s (of_nat i) \<noteq> None" if "i < B + ?a - 1 + (pre + 1) + ?b" for i
      using Branch.prems(6) [of i] that unfolding r0 by simp
    show "B + ?a - 1 + (pre + 1) + ?b < 2 ^ 32"
      unfolding r0 by (rule cap(1))
  qed (use Branch.prems d1 in auto)
  then obtain E2 where E2: "export_loop s (B + ?a - 1) (pre + 1 - ?d1) (of_nat (B + pre + ?a - ?d1)) =
      map_option (\<lambda>rest. E2 @ rest) (export_loop s (B + (?a + ?b) - 2) (pre + 2 - ?d2) (of_nat (B + pre + (?a + ?b) - ?d2)))"
    "E2 @ leaf_seg s (B + pre + (?a + ?b) - ?d2) (B + pre + (?a + ?b)) =
      leaf_seg s (B + pre + ?a - ?d1) (B + pre + ?a) @ map to_export (postorder r)"
    unfolding r0 by auto
  have E3: "export_loop s (B + (?a + ?b) - 2) (pre + 2 - ?d2) (of_nat (B + pre + (?a + ?b) - ?d2)) =
      map_option (\<lambda>rest. leaf_seg s (B + pre + (?a + ?b) - ?d2) (B + pre + (?a + ?b)) @ to_export ?t # rest)
        (export_loop s (B + (?a + ?b) - 2 + 1) (pre + 1) (of_nat (B + pre + (?a + ?b))))"
    by (rule export_branch [OF Branch.prems(1,2) cap Branch.prems(5) _ d2]) (use Branch.prems(6) in auto)
  have i: "B + (?a + ?b) - 2 + 1 = B + nleaves ?t - 1" and hb: "held_back ?t d = 0"
    using pos by (auto simp: held_back_def)
  let ?E = "E1 @ E2 @ leaf_seg s (B + pre + (?a + ?b) - ?d2) (B + pre + (?a + ?b)) @ [to_export ?t]"
  have "?E = leaf_seg s (B + pre - d) (B + pre) @ map to_export (postorder ?t)"
    unfolding postorder.simps map_append append_assoc [symmetric] E1(2) [symmetric]
    unfolding append_assoc E2(2) [symmetric] by simp
  then show ?case
    unfolding E1(1) E2(1) E3 i hb
    by (intro exI [of _ ?E]) (simp add: option.map_comp o_def)
qed

section \<open>Correctness of export and import\<close>

lemma leaves_read:
  assumes "writable t" "i < nleaves t"
  shows "leaf_export (snapshot_of version t) (of_nat i) \<noteq> None"
proof -
  have "0 + 0 + nleaves t < 2 ^ 32"
    using assms(1) by (simp add: writable_def)
  from leaf_export_placed [OF placed_tree this fits_tree [OF assms(1)] assms(2)] show ?thesis
    by (simp add: split_beta)
qed

lemma snapshot_lens:
  assumes "writable t"
  shows "leavesLen (snapshot_of version t) = nleaves t" "nodesLen (snapshot_of version t) = nleaves t - 1"
  by (simp_all add: leavesLen_def nodesLen_def snapshot_of_def)

lemma snap_export_tree:
  assumes "tree_inv t" "writable t"
  shows "snap_export (snapshot_of version t) = Some (map to_export (postorder t))"
proof (cases t)
  case (Leaf v k x)
  have "represents (snapshot_of version t) (pnode t 0 0) t"
    by (rule placed_represents [OF placed_tree])
      (use assms fits_tree writable_hgt [of t] in \<open>auto simp: tree_inv_def writable_def\<close>)
  then show ?thesis
    using snapshot_lens [OF assms(2), of version] by (simp add: snap_export_def Leaf pnode_def to_export_def)
next
  case (Branch h n v k l r)
  let ?s = "snapshot_of version t"
  have pos: "1 \<le> nleaves l" "1 \<le> nleaves r" by (simp_all add: Suc_le_eq)
  have "0 + 0 + nleaves t < 2 ^ 32" "0 + hgt t < 256"
    using assms writable_hgt [of t] by (simp_all add: tree_inv_def writable_def)
  from export_subtree [OF placed_tree _ this fits_tree [OF assms(2)], where d = 0]
  have "\<exists>E. export_loop ?s 0 0 0 =
      map_option (\<lambda>rest. E @ rest) (export_loop ?s (nleaves t - 1) 1 (of_nat (nleaves t))) \<and>
    E = map to_export (postorder t)"
    using assms(1) leaves_read [OF assms(2), of _ version] pos Branch
    by (simp add: held_back_def tree_inv_def del: ex_simps)
  moreover have "export_loop ?s (nleaves t - 1) 1 (of_nat (nleaves t)) = Some []"
    by (simp add: export_loop.simps snapshot_lens [OF assms(2)])
  ultimately show ?thesis
    using snapshot_lens [OF assms(2), of version] pos Branch by (simp add: snap_export_def)
qed

lemma import_tree:
  assumes "tree_inv t" "writable t"
  shows "doImport (uint version) (map to_export (postorder t)) = Inr (dir_of version t)"
proof -
  have "uint version \<le> 0xffffffff"
    using uint_lt2p [of version] by simp
  moreover have "(0 :: u32) < of_nat (nleaves t)"
    using assms(2) by (simp add: writable_def word_less_nat_alt word_conv)
  ultimately show ?thesis
    using import_postorder [of t newSnapshotWriter 0 "[]" 0 "[]"] assms(1)
    by (simp add: doImport_def writeSnapshot_def newSnapshotWriter_def dir_of_def written_def tree_inv_def)
qed

lemma scan_tree:
  "ScanPostOrder t = (case tree_root t of None \<Rightarrow> [] | Some n \<Rightarrow> postorder n)"
  by (cases "tree_root t") (simp_all add: ScanPostOrder_def scan_loop_postorder del: scan_loop.simps(2))

text \<open>
  C18: the exporter sends the nodes of a tree in post-order, whichever way it reads them. A tree
  reloaded from the snapshot of a valid tree is exported from the files, with a loop that
  interleaves the leaves and branches files by the pending-trees counts; the nodes are the same,
  in the same order, as those the post-order scan of the tree in memory sends.
\<close>

theorem export_from_snapshot:
  assumes "root_inv (tree_root t)" "root_writable (tree_root t)" "\<And>n. \<not> ctx_done n" "tree_snap t = None"
  shows "\<exists>dir s t'. WriteSnapshotWithContext ctx_done (tree_version t) (tree_root t) = Inr dir \<and>
    OpenSnapshot dir = Inr s \<and> NewFromSnapshot ops s zc cacheSize = Some t' \<and>
    tree_Export t' = snap_export s \<and> tree_Export t' = tree_Export t \<and>
    tree_Export t = Some (map to_export (case tree_root t of None \<Rightarrow> [] | Some n \<Rightarrow> postorder n))"
proof (cases "tree_root t")
  case None
  then show ?thesis
    using assms(4) open_empty [of "tree_version t"]
    by (simp add: WriteSnapshotWithContext_def writeSnapshot_def NewFromSnapshot_def NewEmptySnapshot_def
      tree_Export_def snap_export_def leavesLen_def scan_tree)
next
  case (Some n)
  let ?s = "snapshot_of (tree_version t) n"
  have n: "tree_inv n" "writable n"
    using assms Some by (simp_all add: root_writable_def)
  then have "represents ?s (pnode n 0 0) n" "hgt n < 256"
    using placed_represents [OF placed_tree, of n "tree_version t"] fits_tree [of n] writable_hgt [of n]
    by (simp_all add: tree_inv_def writable_def)
  from p_load_represents [OF this(1), of 256] this(2)
  have "p_load 256 ?s (pnode n 0 0) = Some n"
    by simp
  then show ?thesis
    using write_tree [OF assms(3) n(2)] open_tree [OF n(2)] snap_export_tree [OF n, of "tree_version t"] Some assms(4)
    by (simp add: NewFromSnapshot_def tree_Export_def scan_tree snapshot_of_def)
qed

theorem export_from_snapshot_witness:
  "\<exists>dir s t'. WriteSnapshotWithContext (\<lambda>_. False) 7 (tree_root sample_tree) = Inr dir \<and>
    OpenSnapshot dir = Inr s \<and> NewFromSnapshot list_cache s True 0 = Some t' \<and>
    tree_Export t' = Some
      [\<lparr>en_Key = [1], en_Value = Some [10], en_Version = 5, en_Height = 0\<rparr>,
       \<lparr>en_Key = [3], en_Value = Some [30], en_Version = 7, en_Height = 0\<rparr>,
       \<lparr>en_Key = [3], en_Value = None, en_Version = 7, en_Height = 1\<rparr>]"
  using export_from_snapshot [of sample_tree "\<lambda>_. False" list_cache True 0] two_leaves_inv
  by (fastforce simp: sample_tree_def root_writable_def writable_def kv_rec_def to_export_def)

text \<open>
  C19: importing what was exported rebuilds the snapshot byte for byte. The importer, which keeps
  only a stack of sizes and hashes, writes from the exported nodes of a valid tree the same
  metadata, branches, leaves and key-value files as a direct write of the tree's snapshot.
\<close>

theorem import_of_export:
  assumes "root_inv (tree_root t)" "root_writable (tree_root t)" "\<And>n. \<not> ctx_done n" "tree_snap t = None"
  shows "\<exists>nodes. tree_Export t = Some nodes \<and>
    doImport (uint (tree_version t)) nodes = WriteSnapshotWithContext ctx_done (tree_version t) (tree_root t)"
proof (cases "tree_root t")
  case None
  then show ?thesis
    using assms(4) uint_lt2p [of "tree_version t"]
    by (simp add: tree_Export_def scan_tree doImport_def writeSnapshot_def WriteSnapshotWithContext_def)
next
  case (Some n)
  then show ?thesis
    using assms import_tree [of n "tree_version t"] write_tree [of ctx_done n "tree_version t"]
    by (simp add: tree_Export_def scan_tree root_writable_def)
qed

theorem import_of_export_witness:
  "\<exists>nodes. tree_Export sample_tree = Some nodes \<and>
    doImport 7 nodes = WriteSnapshotWithContext (\<lambda>_. False) 7 (tree_root sample_tree)"
  using import_of_export [of sample_tree "\<lambda>_. False"] two_leaves_inv
  by (simp add: sample_tree_def root_writable_def writable_def kv_rec_def)

section \<open>Malformed streams\<close>

text \<open>The number of pending nodes after a stream, if no branch lacks a child.\<close>

fun stream_depth :: "export_node list \<Rightarrow> nat \<Rightarrow> nat option" where
  "stream_depth [] d = Some d"
| "stream_depth (n # ns) d =
     (if en_Height n = 0 then stream_depth ns (d + 1)
      else if d < 2 then None else stream_depth ns (d - 1))"

definition version_fits :: "export_node \<Rightarrow> bool" where
  "version_fits n \<longleftrightarrow> en_Version n \<le> 0xffffffff"

lemma importer_Add_cases:
  assumes "length (leavesStack i) = length (nodeStack i)"
  shows "case importer_Add n i of
      Inl err \<Rightarrow> \<not> version_fits n \<or> en_Height n \<noteq> 0 \<and> length (nodeStack i) < 2
    | Inr j \<Rightarrow> version_fits n \<and> length (leavesStack j) = length (nodeStack j) \<and>
        (if en_Height n = 0 then length (nodeStack j) = length (nodeStack i) + 1
         else 2 \<le> length (nodeStack i) \<and> length (nodeStack j) = length (nodeStack i) - 1)"
proof (cases "leavesStack i")
  case Nil
  then show ?thesis
    using assms by (simp add: importer_Add_def version_fits_def writeLeaf_def Let_def)
next
  case (Cons a ls)
  then obtain b ns where "nodeStack i = b # ns" "length ls = length ns"
    using assms by (cases "nodeStack i") auto
  with Cons show ?thesis
    by (cases ls; cases ns) (simp_all add: importer_Add_def version_fits_def writeLeaf_def Let_def)
qed

lemma import_nodes_cases:
  assumes "length (leavesStack i) = length (nodeStack i)"
  shows "case import_nodes ns i of
      Inl err \<Rightarrow> \<not> list_all version_fits ns \<or> stream_depth ns (length (nodeStack i)) = None
    | Inr j \<Rightarrow> list_all version_fits ns \<and> stream_depth ns (length (nodeStack i)) = Some (length (leavesStack j))"
  using assms
proof (induction ns arbitrary: i)
  case (Cons n ns)
  show ?case
  proof (cases "importer_Add n i")
    case (Inl err)
    then show ?thesis
      using importer_Add_cases [OF Cons.prems, of n] by auto
  next
    case (Inr j)
    then show ?thesis
      using importer_Add_cases [OF Cons.prems, of n] Cons.IH [of j] by (auto split: if_splits sum.splits)
  qed
qed simp


end
