(* ===== verification/Multi_Tree.thy ===== *)
theory Multi_Tree
  imports Messages Export_Import "HOL-Library.Multiset"
begin

text \<open>
  \<open>src/memiavl/multitree.go\<close>: the trees of all stores, kept at one common version, their upgrades,
  commits, replay of the write-ahead log, and the snapshot directory. Each tree is owned by one
  entry of \<open>trees\<close>, so the pointers of the Go code are values here. The write-ahead log of
  \<open>tidwall/wal\<close> is an argument: what its \<open>LastIndex\<close> and \<open>Read\<close> return.
\<close>

unbundle bit_operations_syntax

section \<open>State\<close>

record 'c named_tree =
  nt_Tree :: "'c tree"
  nt_Name :: bytes

record 'c multi_tree =
  mt_initialVersion :: u32
  mt_zeroCopy :: bool
  mt_cacheSize :: int
  mt_trees :: "'c named_tree list"
  treesByName :: "bytes \<rightharpoonup> nat"
  lastCommitInfo :: commit_info
  mt_metadata :: multi_tree_metadata

definition NewEmptyMultiTree :: "u32 \<Rightarrow> int \<Rightarrow> 'c multi_tree" where
  "NewEmptyMultiTree initialVersion cacheSize =
     \<lparr>mt_initialVersion = initialVersion, mt_zeroCopy = True, mt_cacheSize = cacheSize, mt_trees = [],
      treesByName = Map.empty, lastCommitInfo = CommitInfo_zero, mt_metadata = MultiTreeMetadata_zero\<rparr>"

definition mt_Version :: "'c multi_tree \<Rightarrow> u64" where
  "mt_Version t = ci_Version (lastCommitInfo t)"

text \<open>\<open>TreeByName\<close>: \<open>None\<close> when there is no such tree; an index outside \<open>trees\<close> panics.\<close>

definition TreeByName :: "bytes \<Rightarrow> 'c multi_tree \<Rightarrow> 'c tree option res" where
  "TreeByName name t =
     (case treesByName t name of
        None \<Rightarrow> Inr None
      | Some i \<Rightarrow> if i < length (mt_trees t) then Inr (Some (nt_Tree (mt_trees t ! i)))
                  else Inl (Panic ''index out of range''))"

section \<open>Versions and indices of the log\<close>

definition nextVersion :: "u64 \<Rightarrow> u32 \<Rightarrow> u64" where
  "nextVersion v initialVersion = (if v = 0 \<and> initialVersion > 1 then ucast initialVersion else v + 1)"

definition walIndex :: "u64 \<Rightarrow> u32 \<Rightarrow> u64" where
  "walIndex v initialVersion = (if initialVersion > 1 then v - ucast initialVersion + 1 else v)"

definition walVersion :: "u64 \<Rightarrow> u32 \<Rightarrow> u64" where
  "walVersion index initialVersion = (if initialVersion > 1 then index + ucast initialVersion - 1 else index)"

section \<open>Initial version and copies\<close>

definition mt_setInitialVersion :: "u32 \<Rightarrow> 'c multi_tree \<Rightarrow> 'c multi_tree" where
  "mt_setInitialVersion initialVersion t =
     (let t = t\<lparr>mt_initialVersion := initialVersion\<rparr> in
      if initialVersion > 1 then
        t\<lparr>mt_trees := map (\<lambda>entry. entry\<lparr>nt_Tree := setInitialVersion initialVersion (nt_Tree entry)\<rparr>) (mt_trees t)\<rparr>
      else t)"

definition mt_SetInitialVersion :: "u64 \<Rightarrow> 'c multi_tree \<Rightarrow> 'c multi_tree res" where
  "mt_SetInitialVersion initialVersion t =
     (if sint initialVersion \<ge> 0xffffffff then Inl (Error ''version overflows uint32'')
      else if mt_Version t \<noteq> 0 then Inl (Error ''multi tree is not empty'')
      else if list_ex (\<lambda>entry. \<not> tree_IsEmpty (nt_Tree entry)) (mt_trees t) then Inl (Error ''tree is not empty'')
      else Inr (mt_setInitialVersion (ucast initialVersion) t))"

definition mt_SetZeroCopy :: "bool \<Rightarrow> 'c multi_tree \<Rightarrow> 'c multi_tree" where
  "mt_SetZeroCopy zc t = t\<lparr>mt_zeroCopy := zc,
     mt_trees := map (\<lambda>entry. entry\<lparr>nt_Tree := (nt_Tree entry)\<lparr>zeroCopy := zc\<rparr>\<rparr>) (mt_trees t)\<rparr>"

text \<open>The index by name that several operations rebuild.\<close>

definition index_names :: "'c named_tree list \<Rightarrow> (bytes \<rightharpoonup> nat)" where
  "index_names trees = fold (\<lambda>(i, entry) m. m(nt_Name entry \<mapsto> i)) (enumerate 0 trees) Map.empty"

definition mt_Copy :: "'c cache_ops \<Rightarrow> int \<Rightarrow> 'c multi_tree \<Rightarrow> 'c multi_tree" where
  "mt_Copy ops cacheSize t =
     (let trees = map (\<lambda>entry. \<lparr>nt_Tree = tree_Copy ops cacheSize (nt_Tree entry), nt_Name = nt_Name entry\<rparr>) (mt_trees t)
      in t\<lparr>mt_trees := trees, treesByName := index_names trees\<rparr>)"

section \<open>Upgrades\<close>

text \<open>\<open>slices.IndexFunc\<close> for a name.\<close>

fun index_of_name :: "bytes \<Rightarrow> 'c named_tree list \<Rightarrow> nat option" where
  "index_of_name name [] = None"
| "index_of_name name (entry # trees) =
     (if nt_Name entry = name then Some 0 else map_option Suc (index_of_name name trees))"

definition apply_upgrade :: "'c cache_ops \<Rightarrow> tree_name_upgrade \<Rightarrow> 'c multi_tree \<Rightarrow> 'c multi_tree res" where
  "apply_upgrade ops upgrade t =
     (let trees = mt_trees t in
      if up_Delete upgrade then
        (case index_of_name (up_Name upgrade) trees of
           None \<Rightarrow> Inl (Error ''unknown tree name'')
         | Some i \<Rightarrow>
             let n = length trees - 1;
                 swapped = trees[i := trees ! n, n := trees ! i]
             in Inr (t\<lparr>mt_trees := take n swapped\<rparr>))
      else if up_RenameFrom upgrade \<noteq> [] then
        (case index_of_name (up_RenameFrom upgrade) trees of
           None \<Rightarrow> Inl (Error ''unknown tree name'')
         | Some i \<Rightarrow> Inr (t\<lparr>mt_trees := trees[i := (trees ! i)\<lparr>nt_Name := up_Name upgrade\<rparr>]\<rparr>))
      else
        bind_res (NewWithInitialVersion ops (ucast (nextVersion (mt_Version t) (mt_initialVersion t))) (mt_cacheSize t))
          (\<lambda>tree. Inr (t\<lparr>mt_trees := trees @ [\<lparr>nt_Tree = tree, nt_Name = up_Name upgrade\<rparr>]\<rparr>)))"

fun apply_upgrade_list :: "'c cache_ops \<Rightarrow> tree_name_upgrade list \<Rightarrow> 'c multi_tree \<Rightarrow> 'c multi_tree res" where
  "apply_upgrade_list ops [] t = Inr t"
| "apply_upgrade_list ops (u # us) t = bind_res (apply_upgrade ops u t) (apply_upgrade_list ops us)"

text \<open>The loop that rebuilds the index rejects a name that occurs twice.\<close>

fun rebuild_index :: "'c named_tree list \<Rightarrow> nat \<Rightarrow> (bytes \<rightharpoonup> nat) \<Rightarrow> (bytes \<rightharpoonup> nat) res" where
  "rebuild_index [] i m = Inr m"
| "rebuild_index (tree # trees) i m =
     (if m (nt_Name tree) \<noteq> None then Inl (Error ''memiavl tree name conflicts'')
      else rebuild_index trees (i + 1) (m(nt_Name tree \<mapsto> i)))"

text \<open>\<open>sort.SliceStable\<close> by name is \<open>sort_key\<close>, which is stable.\<close>

definition ApplyUpgrades :: "'c cache_ops \<Rightarrow> tree_name_upgrade list \<Rightarrow> 'c multi_tree \<Rightarrow> 'c multi_tree res" where
  "ApplyUpgrades ops upgrades t =
     (if upgrades = [] then Inr t
      else
        bind_res (apply_upgrade_list ops upgrades (t\<lparr>treesByName := Map.empty\<rparr>)) (\<lambda>t.
          let trees = sort_key nt_Name (mt_trees t) in
          bind_res (rebuild_index trees 0 Map.empty) (\<lambda>m. Inr (t\<lparr>mt_trees := trees, treesByName := m\<rparr>))))"

section \<open>Change sets and commits\<close>

definition mt_ApplyChangeSet :: "'c cache_ops \<Rightarrow> bytes \<Rightarrow> change_set \<Rightarrow> 'c multi_tree \<Rightarrow> 'c multi_tree res" where
  "mt_ApplyChangeSet ops name changeSet t =
     (case treesByName t name of
        None \<Rightarrow> Inl (Error ''unknown tree name'')
      | Some i \<Rightarrow>
          if i < length (mt_trees t) then
            (case tree_ApplyChangeSet ops changeSet (nt_Tree (mt_trees t ! i)) of
               None \<Rightarrow> Inl (Panic ''apply change set'')
             | Some tree \<Rightarrow> Inr (t\<lparr>mt_trees := (mt_trees t)[i := (mt_trees t ! i)\<lparr>nt_Tree := tree\<rparr>]\<rparr>))
          else Inl (Panic ''index out of range''))"

fun mt_ApplyChangeSets :: "'c cache_ops \<Rightarrow> named_change_set list \<Rightarrow> 'c multi_tree \<Rightarrow> 'c multi_tree res" where
  "mt_ApplyChangeSets ops [] t = Inr t"
| "mt_ApplyChangeSets ops (cs # css) t =
     bind_res (mt_ApplyChangeSet ops (ncs_Name cs) (ncs_Changeset cs) t) (mt_ApplyChangeSets ops css)"

definition applyWALEntry :: "'c cache_ops \<Rightarrow> wal_entry \<Rightarrow> 'c multi_tree \<Rightarrow> 'c multi_tree res" where
  "applyWALEntry ops entry t =
     bind_res (ApplyUpgrades ops (Upgrades entry) t) (mt_ApplyChangeSets ops (Changesets entry))"

definition buildCommitInfo :: "u64 \<Rightarrow> 'c multi_tree \<Rightarrow> commit_info" where
  "buildCommitInfo version t =
     \<lparr>ci_Version = version,
      StoreInfos = map (\<lambda>entry. \<lparr>si_Name = nt_Name entry,
        si_CommitId = \<lparr>cid_Version = ucast (tree_version (nt_Tree entry)), cid_Hash = tree_RootHash (nt_Tree entry)\<rparr>\<rparr>)
        (mt_trees t)\<rparr>"

definition WorkingCommitInfo :: "'c multi_tree \<Rightarrow> commit_info" where
  "WorkingCommitInfo t = buildCommitInfo (nextVersion (mt_Version t) (mt_initialVersion t)) t"

definition UpdateCommitInfo :: "'c multi_tree \<Rightarrow> 'c multi_tree" where
  "UpdateCommitInfo t = t\<lparr>lastCommitInfo := buildCommitInfo (mt_Version t) t\<rparr>"

fun save_trees :: "bool \<Rightarrow> 'c named_tree list \<Rightarrow> 'c named_tree list res" where
  "save_trees updateCommitInfo [] = Inr []"
| "save_trees updateCommitInfo (entry # trees) =
     bind_res (tree_SaveVersion updateCommitInfo (nt_Tree entry)) (\<lambda>(hash, version, tree).
       bind_res (save_trees updateCommitInfo trees) (\<lambda>trees. Inr (entry\<lparr>nt_Tree := tree\<rparr> # trees)))"

definition mt_SaveVersion :: "bool \<Rightarrow> 'c multi_tree \<Rightarrow> (u64 \<times> 'c multi_tree) res" where
  "mt_SaveVersion updateCommitInfo t =
     (let t = t\<lparr>lastCommitInfo := (lastCommitInfo t)\<lparr>ci_Version := nextVersion (mt_Version t) (mt_initialVersion t)\<rparr>\<rparr> in
      bind_res (save_trees updateCommitInfo (mt_trees t)) (\<lambda>trees.
        let t = t\<lparr>mt_trees := trees\<rparr>;
            t = (if updateCommitInfo then UpdateCommitInfo t
                 else t\<lparr>lastCommitInfo := (lastCommitInfo t)\<lparr>StoreInfos := []\<rparr>\<rparr>)
        in Inr (mt_Version t, t)))"

section \<open>Replay\<close>

record wal_log =
  wal_LastIndex :: "u64 res"
  wal_Read :: "u64 \<Rightarrow> bytes res"

fun replay_loop :: "'c cache_ops \<Rightarrow> wal_log \<Rightarrow> u64 list \<Rightarrow> 'c multi_tree \<Rightarrow> 'c multi_tree res" where
  "replay_loop ops wal [] t = Inr t"
| "replay_loop ops wal (i # is) t =
     bind_res (wal_Read wal i) (\<lambda>bz.
     bind_res (WALEntry_Unmarshal bz WALEntry_zero) (\<lambda>entry.
     bind_res (applyWALEntry ops entry t) (\<lambda>t.
     bind_res (mt_SaveVersion False t) (\<lambda>(_, t).
       replay_loop ops wal is t))))"

text \<open>
  The loop runs over the indices from \<open>firstIndex\<close> to \<open>endIndex\<close>. (For the largest \<open>uint64\<close> as the
  last index of the log the increment of the Go loop would wrap to 0.)
\<close>

definition CatchupWAL :: "'c cache_ops \<Rightarrow> wal_log \<Rightarrow> u64 \<Rightarrow> 'c multi_tree \<Rightarrow> 'c multi_tree res" where
  "CatchupWAL ops wal endVersion t =
     bind_res (wal_LastIndex wal) (\<lambda>lastIndex.
       let firstIndex = walIndex (nextVersion (mt_Version t) (mt_initialVersion t)) (mt_initialVersion t) in
       if firstIndex > lastIndex then Inr t
       else
         let endIndex = (if endVersion = 0 then lastIndex else walIndex endVersion (mt_initialVersion t)) in
         if endIndex < firstIndex then Inl (Error ''target index is pruned'')
         else
           let endIndex = (if endIndex > lastIndex then lastIndex else endIndex) in
           bind_res (replay_loop ops wal (map of_nat [unat firstIndex..<Suc (unat endIndex)]) t)
             (\<lambda>t. Inr (UpdateCommitInfo t)))"

section \<open>The snapshot directory\<close>

text \<open>
  A snapshot directory: the metadata file, if it exists, and the other entries in the order of
  \<open>os.ReadDir\<close>, where \<open>None\<close> is a plain file.
\<close>

record multi_dir =
  metadata_file :: "bytes option"
  dir_entries :: "(bytes \<times> snapshot_dir option) list"

definition readMetadata :: "multi_dir \<Rightarrow> multi_tree_metadata res" where
  "readMetadata dir =
     (case metadata_file dir of
        None \<Rightarrow> Inl (Error ''open: no such file or directory'')
      | Some bz \<Rightarrow>
          bind_res (MultiTreeMetadata_Unmarshal bz MultiTreeMetadata_zero) (\<lambda>metadata.
            case md_CommitInfo metadata of
              None \<Rightarrow> Inl (Panic ''nil pointer dereference'')
            | Some ci \<Rightarrow>
                if sint (ci_Version ci) > 0xffffffff then Inl (Error ''commit info version overflows uint32'')
                else if sint (md_InitialVersion metadata) > 0xffffffff then Inl (Error ''initial version overflows uint32'')
                else Inr metadata))"

text \<open>The loop over the entries: the tree of each directory, and the names in the order read.\<close>

fun open_trees :: "'c cache_ops \<Rightarrow> bool \<Rightarrow> int \<Rightarrow> (bytes \<times> snapshot_dir option) list \<Rightarrow>
    (bytes \<rightharpoonup> 'c tree) \<Rightarrow> bytes list \<Rightarrow> ((bytes \<rightharpoonup> 'c tree) \<times> bytes list) res" where
  "open_trees ops zc cacheSize [] treeMap names = Inr (treeMap, names)"
| "open_trees ops zc cacheSize ((name, None) # es) treeMap names = open_trees ops zc cacheSize es treeMap names"
| "open_trees ops zc cacheSize ((name, Some dir) # es) treeMap names =
     bind_res (OpenSnapshot dir) (\<lambda>snapshot.
       case NewFromSnapshot ops snapshot zc cacheSize of
         None \<Rightarrow> Inl (Panic ''slice bounds out of range'')
       | Some tree \<Rightarrow> open_trees ops zc cacheSize es (treeMap(name \<mapsto> tree)) (names @ [name]))"

definition LoadMultiTree :: "'c cache_ops \<Rightarrow> multi_dir \<Rightarrow> bool \<Rightarrow> int \<Rightarrow> 'c multi_tree res" where
  "LoadMultiTree ops dir zc cacheSize =
     bind_res (readMetadata dir) (\<lambda>metadata.
     bind_res (open_trees ops zc cacheSize (dir_entries dir) Map.empty []) (\<lambda>(treeMap, treeNames).
       let trees = map (\<lambda>name. \<lparr>nt_Tree = the (treeMap name), nt_Name = name\<rparr>) (sort treeNames);
           mtree = \<lparr>mt_initialVersion = 0, mt_zeroCopy = zc, mt_cacheSize = cacheSize, mt_trees = trees,
             treesByName = index_names trees, lastCommitInfo = the (md_CommitInfo metadata), mt_metadata = metadata\<rparr>
       in Inr (mt_setInitialVersion (ucast (md_InitialVersion metadata)) mtree)))"

fun write_trees :: "(u32 \<Rightarrow> bool) \<Rightarrow> 'c named_tree list \<Rightarrow> (bytes \<times> snapshot_dir option) list res" where
  "write_trees ctx_done [] = Inr []"
| "write_trees ctx_done (entry # trees) =
     bind_res (WriteSnapshotWithContext ctx_done (tree_version (nt_Tree entry)) (tree_root (nt_Tree entry))) (\<lambda>dir.
       bind_res (write_trees ctx_done trees) (\<lambda>dirs. Inr ((nt_Name entry, Some dir) # dirs)))"

text \<open>
  \<open>WriteSnapshotWithContext\<close> into a new directory. The trees are written by a worker pool, each
  into its own directory; the list of directories does not depend on the order.
\<close>

definition mt_WriteSnapshotWithContext :: "(u32 \<Rightarrow> bool) \<Rightarrow> 'c multi_tree \<Rightarrow> multi_dir res" where
  "mt_WriteSnapshotWithContext ctx_done t =
     bind_res (write_trees ctx_done (mt_trees t)) (\<lambda>dirs.
       case MultiTreeMetadata_Marshal \<lparr>md_CommitInfo = Some (lastCommitInfo t), md_InitialVersion = ucast (mt_initialVersion t)\<rparr> of
         None \<Rightarrow> Inl (Panic ''index out of range'')
       | Some bz \<Rightarrow> Inr \<lparr>metadata_file = Some bz, dir_entries = dirs\<rparr>)"

definition mt_Close :: "'c multi_tree \<Rightarrow> 'c multi_tree" where
  "mt_Close t = t\<lparr>mt_trees := [], treesByName := Map.empty, lastCommitInfo := CommitInfo_zero\<rparr>"

section \<open>The index by name\<close>

abbreviation names :: "'c named_tree list \<Rightarrow> bytes list" where
  "names trees \<equiv> map nt_Name trees"

definition index_from :: "nat \<Rightarrow> 'c named_tree list \<Rightarrow> (bytes \<rightharpoonup> nat) \<Rightarrow> (bytes \<rightharpoonup> nat)" where
  "index_from i trees m = fold (\<lambda>(i, entry) m. m(nt_Name entry \<mapsto> i)) (enumerate i trees) m"

lemma index_from_simps [simp]:
  "index_from i [] m = m" "index_from i (e # es) m = index_from (Suc i) es (m(nt_Name e \<mapsto> i))"
  by (simp_all add: index_from_def)

lemma index_names_from: "index_names trees = index_from 0 trees Map.empty"
  by (simp add: index_names_def index_from_def)

lemma rebuild_index_eq:
  "rebuild_index trees i m =
     (if distinct (names trees) \<and> (\<forall>e \<in> set trees. m (nt_Name e) = None) then Inr (index_from i trees m)
      else Inl (Error ''memiavl tree name conflicts''))"
proof (induction trees i m rule: rebuild_index.induct)
  case (2 tree trees i m)
  have "(\<forall>e \<in> set trees. (m(nt_Name tree \<mapsto> i)) (nt_Name e) = None) \<longleftrightarrow>
      nt_Name tree \<notin> nt_Name ` set trees \<and> (\<forall>e \<in> set trees. m (nt_Name e) = None)"
    by (simp add: image_iff fun_upd_apply) metis
  with 2 show ?case
    by (cases "m (nt_Name tree)") (simp_all del: fun_upd_apply)
qed simp

lemma index_from_other: "name \<notin> nt_Name ` set trees \<Longrightarrow> index_from i trees m name = m name"
  by (induction trees arbitrary: i m) auto

lemma index_from_nth:
  "distinct (names trees) \<Longrightarrow> j < length trees \<Longrightarrow> index_from i trees m (nt_Name (trees ! j)) = Some (i + j)"
proof (induction trees arbitrary: i m j)
  case (Cons e es)
  then show ?case
    by (cases j) (auto simp: index_from_other)
qed simp

lemma index_names_Some:
  assumes "distinct (names trees)"
  shows "index_names trees name = Some i \<longleftrightarrow> i < length trees \<and> nt_Name (trees ! i) = name"
proof
  assume *: "index_names trees name = Some i"
  then have "name \<in> nt_Name ` set trees"
    using index_from_other [of name trees 0 Map.empty] by (auto simp: index_names_from)
  then obtain j where "j < length trees" "nt_Name (trees ! j) = name"
    by (auto simp: in_set_conv_nth)
  with * show "i < length trees \<and> nt_Name (trees ! i) = name"
    using index_from_nth [OF assms, of j 0 Map.empty] by (auto simp: index_names_from)
qed (use index_from_nth [OF assms, of i 0 Map.empty] in \<open>auto simp: index_names_from\<close>)

text \<open>The trees as a map from names.\<close>

definition tree_map :: "'c named_tree list \<Rightarrow> bytes \<rightharpoonup> 'c tree" where
  "tree_map trees = map_of (map (\<lambda>e. (nt_Name e, nt_Tree e)) trees)"

lemma tree_map_nth: "distinct (names trees) \<Longrightarrow> i < length trees \<Longrightarrow> tree_map trees (nt_Name (trees ! i)) = Some (nt_Tree (trees ! i))"
  by (simp add: tree_map_def map_of_eq_Some_iff o_def)

lemma dom_tree_map: "tree_map trees name = None \<longleftrightarrow> name \<notin> nt_Name ` set trees"
  by (simp add: tree_map_def map_of_eq_None_iff image_image)

section \<open>The invariant\<close>

definition tree_at :: "('c \<Rightarrow> bytes \<rightharpoonup> bytes) \<Rightarrow> u64 \<Rightarrow> 'c named_tree \<Rightarrow> bool" where
  "tree_at view next e \<longleftrightarrow> tree_ok view (nt_Tree e) \<and> ucast (tree_version (nt_Tree e)) + 1 = next"

abbreviation mt_next :: "'c multi_tree \<Rightarrow> u64" where
  "mt_next t \<equiv> nextVersion (mt_Version t) (mt_initialVersion t)"

definition mt_ok :: "('c \<Rightarrow> bytes \<rightharpoonup> bytes) \<Rightarrow> 'c multi_tree \<Rightarrow> bool" where
  "mt_ok view t \<longleftrightarrow> ascending (names (mt_trees t)) \<and> treesByName t = index_names (mt_trees t) \<and>
     (\<forall>e \<in> set (mt_trees t). tree_at view (mt_next t) e)"

lemma TreeByName_ok:
  assumes "mt_ok view t"
  shows "TreeByName name t = Inr (tree_map (mt_trees t) name)"
proof -
  have d: "distinct (names (mt_trees t))"
    using assms ascending_distinct by (auto simp: mt_ok_def)
  show ?thesis
  proof (cases "treesByName t name")
    case None
    then have "name \<noteq> nt_Name (mt_trees t ! i)" if "i < length (mt_trees t)" for i
      using assms index_names_Some [OF d, of name i] that by (auto simp: mt_ok_def)
    then have "tree_map (mt_trees t) name = None"
      unfolding dom_tree_map by (metis imageE in_set_conv_nth)
    with None show ?thesis
      by (simp add: TreeByName_def)
  next
    case (Some i)
    then show ?thesis
      using assms index_names_Some [OF d, of name i] tree_map_nth [OF d, of i] by (auto simp: mt_ok_def TreeByName_def)
  qed
qed

lemma NewEmptyTree_ok:
  assumes "cache_contract ops view" "NewEmptyTree ops v n = Inr t"
  shows "tree_ok view t \<and> tree_root t = None \<and> tree_version t = ucast v"
  using assms by (auto simp: NewEmptyTree_def tree_ok_def NewCache_def cache_contract_def split: if_splits)

lemma NewWithInitialVersion_ok:
  assumes "cache_contract ops view" "NewWithInitialVersion ops (ucast (next :: u64)) n = Inr t" "0 < next" "unat next < 2 ^ 32"
  shows "tree_ok view t \<and> tree_root t = None \<and> ucast (tree_version t) + 1 = next"
proof (cases "ucast next \<le> (1 :: u32)")
  case True
  then have "unat next \<le> 1"
    using assms(4) by (simp add: word_le_nat_alt word_conv)
  moreover have "0 < unat next"
    using assms(3) by (simp add: word_less_nat_alt)
  ultimately have "next = 1"
    by (simp add: word_unat_eq_iff)
  then show ?thesis
    using assms(1,2) True NewEmptyTree_ok [of ops view 0 n t]
    by (simp add: NewWithInitialVersion_def tree_New_def)
next
  case False
  let ?v = "ucast next - 1 :: u32"
  have n: "unat (ucast next :: u32) = unat next"
    using assms(4) by (simp add: word_conv)
  have "1 < unat next"
    using False n by (simp add: word_le_nat_alt)
  then have v: "unat ?v = unat next - 1"
    using n by (simp add: word_conv)
  then have "unat (ucast (ucast (ucast ?v :: u64) :: u32) :: u64) = unat next - 1"
    using assms(4) by (simp add: word_conv)
  then have "ucast (ucast (ucast ?v :: u64) :: u32) + 1 = next"
    using assms(4) \<open>1 < unat next\<close> by (simp add: word_unat_eq_iff unat_plus_less)
  then show ?thesis
    using assms(1,2) False NewEmptyTree_ok [of ops view "ucast ?v" n t]
    by (simp add: NewWithInitialVersion_def)
qed

section \<open>Operations keep the invariant\<close>

lemma index_of_name_Some: "index_of_name name trees = Some i \<Longrightarrow> i < length trees \<and> nt_Name (trees ! i) = name"
  by (induction trees arbitrary: i) (auto split: if_splits)

lemma index_of_name_None: "index_of_name name trees = None \<longleftrightarrow> name \<notin> nt_Name ` set trees"
  by (induction trees) auto

lemma swap_delete:
  assumes "i < length xs"
  shows "mset (xs ! i # take (length xs - 1) (xs[i := xs ! (length xs - 1), length xs - 1 := xs ! i])) = mset xs"
proof -
  let ?n = "length xs - 1" let ?ys = "xs[i := xs ! ?n, ?n := xs ! i]"
  have n: "?n < length xs" using assms by linarith
  have "mset ?ys = mset xs"
    by (rule mset_swap [OF n assms])
  moreover have "?ys = take ?n ?ys @ [xs ! i]"
    using n take_Suc_conv_app_nth [of ?n ?ys] by simp
  then have "mset ?ys = mset (take ?n ?ys @ [xs ! i])"
    by (rule arg_cong)
  ultimately show ?thesis by simp
qed

lemma apply_upgrade_keeps:
  assumes "apply_upgrade ops u t = Inr t'"
  shows "lastCommitInfo t' = lastCommitInfo t" "mt_initialVersion t' = mt_initialVersion t" "treesByName t' = treesByName t"
  using assms by (auto simp: apply_upgrade_def Let_def bind_res_Inr split: if_splits option.splits)

lemma apply_upgrade_trees:
  assumes "cache_contract ops view" "apply_upgrade ops u t = Inr t'" "0 < mt_next t" "unat (mt_next t) < 2 ^ 32"
    and "\<forall>e \<in> set (mt_trees t). tree_at view (mt_next t) e"
  shows "\<forall>e \<in> set (mt_trees t'). tree_at view (mt_next t) e"
proof -
  let ?trees = "mt_trees t"
  consider (delete) i where "up_Delete u" "index_of_name (up_Name u) ?trees = Some i"
      "mt_trees t' = take (length ?trees - 1) (?trees[i := ?trees ! (length ?trees - 1), length ?trees - 1 := ?trees ! i])"
    | (rename) i where "index_of_name (up_RenameFrom u) ?trees = Some i"
      "mt_trees t' = ?trees[i := (?trees ! i)\<lparr>nt_Name := up_Name u\<rparr>]"
    | (add) tree where "NewWithInitialVersion ops (ucast (mt_next t)) (mt_cacheSize t) = Inr tree"
      "mt_trees t' = ?trees @ [\<lparr>nt_Tree = tree, nt_Name = up_Name u\<rparr>]"
    using assms(2) by (auto simp: apply_upgrade_def Let_def bind_res_Inr split: if_splits option.splits)
  then show ?thesis
  proof cases
    case delete
    then have "set (mt_trees t') \<subseteq> set ?trees"
      using swap_delete [of i ?trees, THEN mset_eq_setD] index_of_name_Some [of "up_Name u" ?trees i]
      by auto
    then show ?thesis using assms(5) by blast
  next
    case rename
    have "tree_at view (mt_next t) (?trees ! i)"
      using index_of_name_Some [OF rename(1)] assms(5) by simp
    moreover have "set (mt_trees t') \<subseteq> insert ((?trees ! i)\<lparr>nt_Name := up_Name u\<rparr>) (set ?trees)"
      unfolding rename(2) by (rule set_update_subset_insert)
    ultimately show ?thesis
      using assms(5) by (auto simp: tree_at_def)
  next
    case add
    then show ?thesis
      using NewWithInitialVersion_ok [OF assms(1) add(1) assms(3,4)] assms(5) by (auto simp: tree_at_def)
  qed
qed

lemma apply_upgrade_list_ok:
  assumes "cache_contract ops view" "apply_upgrade_list ops us t = Inr t'" "0 < mt_next t" "unat (mt_next t) < 2 ^ 32"
    and "\<forall>e \<in> set (mt_trees t). tree_at view (mt_next t) e"
  shows "(\<forall>e \<in> set (mt_trees t'). tree_at view (mt_next t) e) \<and> lastCommitInfo t' = lastCommitInfo t \<and>
    mt_initialVersion t' = mt_initialVersion t"
  using assms
proof (induction us arbitrary: t)
  case (Cons u us)
  then obtain t1 where t1: "apply_upgrade ops u t = Inr t1" "apply_upgrade_list ops us t1 = Inr t'"
    by (auto simp: bind_res_Inr)
  have keeps: "mt_next t1 = mt_next t"
    using apply_upgrade_keeps [OF t1(1)] by (simp add: mt_Version_def)
  show ?case
    using Cons.IH [OF Cons.prems(1) t1(2)] apply_upgrade_trees [OF Cons.prems(1) t1(1) Cons.prems(3-5)]
      Cons.prems(3,4) apply_upgrade_keeps [OF t1(1)] keeps by simp
qed simp

lemma ascending_sorted: "sorted xs \<Longrightarrow> distinct xs \<Longrightarrow> ascending xs"
  by (simp add: strict_sorted_iff)

lemma ApplyUpgrades_ok:
  assumes "cache_contract ops view" "mt_ok view t" "0 < mt_next t" "unat (mt_next t) < 2 ^ 32" "ApplyUpgrades ops us t = Inr t'"
  shows "mt_ok view t' \<and> lastCommitInfo t' = lastCommitInfo t \<and> mt_initialVersion t' = mt_initialVersion t"
proof (cases "us = []")
  case False
  then obtain t1 where t1: "apply_upgrade_list ops us (t\<lparr>treesByName := Map.empty\<rparr>) = Inr t1"
      "distinct (names (sort_key nt_Name (mt_trees t1)))"
      "t' = t1\<lparr>mt_trees := sort_key nt_Name (mt_trees t1), treesByName := index_names (sort_key nt_Name (mt_trees t1))\<rparr>"
    using assms(5)
    by (auto simp: ApplyUpgrades_def bind_res_Inr Let_def rebuild_index_eq index_names_from split: if_splits)
  have trees: "(\<forall>e \<in> set (mt_trees t1). tree_at view (mt_next t) e) \<and> lastCommitInfo t1 = lastCommitInfo t \<and>
      mt_initialVersion t1 = mt_initialVersion t"
    using apply_upgrade_list_ok [OF assms(1) t1(1)] assms(2-4) by (simp add: mt_ok_def mt_Version_def)
  moreover have "ascending (names (sort_key nt_Name (mt_trees t1)))"
    using t1(2) by (intro ascending_sorted) simp_all
  ultimately show ?thesis
    by (simp add: t1(3) mt_ok_def mt_Version_def)
qed (use assms in \<open>simp add: ApplyUpgrades_def\<close>)

text \<open>What a change set may add to a tree, with the room that the trees have for it.\<close>

definition room :: "nat \<Rightarrow> 'c multi_tree \<Rightarrow> bool" where
  "room n t \<longleftrightarrow> (\<forall>e \<in> set (mt_trees t). tree_count (nt_Tree e) + n \<le> 2 ^ 62)"

lemma names_nt_Tree [simp]: "i < length trees \<Longrightarrow> names (trees[i := (trees ! i)\<lparr>nt_Tree := x\<rparr>]) = names trees"
  by (rule nth_equalityI) (auto simp: nth_list_update)

lemma index_names_cong: "names xs = names ys \<Longrightarrow> index_names xs = index_names ys"
proof -
  have "index_from i xs m = index_from i ys m" if "names xs = names ys" for i m
    using that by (induction xs arbitrary: ys i m) auto
  then show "names xs = names ys \<Longrightarrow> ?thesis"
    by (simp add: index_names_from)
qed

lemma mt_ApplyChangeSet_ok:
  assumes "cache_contract ops view" "mt_ok view t" "room (length cs + n) t" "mt_ApplyChangeSet ops name cs t = Inr t'"
  shows "mt_ok view t' \<and> room n t' \<and> lastCommitInfo t' = lastCommitInfo t \<and> mt_initialVersion t' = mt_initialVersion t"
proof -
  obtain i tree where i: "i < length (mt_trees t)"
    "tree_ApplyChangeSet ops cs (nt_Tree (mt_trees t ! i)) = Some tree"
    "t' = t\<lparr>mt_trees := (mt_trees t)[i := (mt_trees t ! i)\<lparr>nt_Tree := tree\<rparr>]\<rparr>"
    using assms(4) by (auto simp: mt_ApplyChangeSet_def split: option.splits if_splits)
  let ?e = "mt_trees t ! i"
  have mem: "?e \<in> set (mt_trees t)" using i(1) by simp
  have "tree_ok view (nt_Tree ?e)" "tree_count (nt_Tree ?e) + length cs \<le> 2 ^ 62" "tree_count (nt_Tree ?e) + length cs + n \<le> 2 ^ 62"
    using assms(2,3) mem by (auto simp: mt_ok_def tree_at_def room_def)
  note this(3) and tree_ApplyChangeSet_ok [OF assms(1) this(1,2)]
  then obtain tree2 where tree2: "tree_ApplyChangeSet ops cs (nt_Tree ?e) = Some tree2" "tree_ok view tree2"
    "tree_count tree2 \<le> tree_count (nt_Tree ?e) + length cs" "tree_version tree2 = tree_version (nt_Tree ?e)"
    "tree_count (nt_Tree ?e) + length cs + n \<le> 2 ^ 62"
    by blast
  then have "tree2 = tree"
    using i(2) by simp
  with tree2 have tree: "tree_ok view tree" "tree_version tree = tree_version (nt_Tree ?e)" "tree_count tree + n \<le> 2 ^ 62"
    by simp_all
  have "set (mt_trees t') \<subseteq> insert (?e\<lparr>nt_Tree := tree\<rparr>) (set (mt_trees t))"
    unfolding i(3) by (simp add: set_update_subset_insert)
  moreover have "tree_at view (mt_next t) (?e\<lparr>nt_Tree := tree\<rparr>)"
    using assms(2) mem tree by (auto simp: mt_ok_def tree_at_def)
  moreover have "room n t"
    using assms(3) by (force simp: room_def)
  ultimately have "\<forall>e \<in> set (mt_trees t'). tree_at view (mt_next t) e" "room n t'"
    using assms(2) tree(3) by (auto simp: mt_ok_def room_def)
  moreover have "index_names (mt_trees t') = index_names (mt_trees t)" "names (mt_trees t') = names (mt_trees t)"
    using i(1) by (auto simp: i(3) intro!: index_names_cong)
  ultimately show ?thesis
    using assms(2) by (simp add: i(3) mt_ok_def mt_Version_def)
qed

definition total_pairs :: "named_change_set list \<Rightarrow> nat" where
  "total_pairs css = sum_list (map (\<lambda>cs. length (ncs_Changeset cs)) css)"

lemma mt_ApplyChangeSets_ok:
  assumes "cache_contract ops view" "mt_ok view t" "room (total_pairs css + n) t" "mt_ApplyChangeSets ops css t = Inr t'"
  shows "mt_ok view t' \<and> room n t' \<and> lastCommitInfo t' = lastCommitInfo t \<and> mt_initialVersion t' = mt_initialVersion t"
  using assms
proof (induction css arbitrary: t)
  case (Cons cs css)
  then obtain t1 where t1: "mt_ApplyChangeSet ops (ncs_Name cs) (ncs_Changeset cs) t = Inr t1"
    "mt_ApplyChangeSets ops css t1 = Inr t'"
    by (auto simp: bind_res_Inr)
  have "room (length (ncs_Changeset cs) + (total_pairs css + n)) t"
    using Cons.prems(3) by (simp add: total_pairs_def add.assoc)
  from mt_ApplyChangeSet_ok [OF Cons.prems(1,2) this t1(1)] show ?case
    using Cons.IH [OF Cons.prems(1) _ _ t1(2)] by simp
qed (simp add: total_pairs_def)

lemma ucast_Suc:
  assumes "(v :: u32) \<noteq> 0xffffffff"
  shows "ucast (v + 1) = (ucast v + 1 :: u64)"
proof -
  have "unat v \<noteq> 0xffffffff"
    using assms by (auto simp: word_unat_eq_iff)
  moreover have "unat v < 2 ^ 32"
    using unsigned_less [of v, where 'a = nat] by simp
  ultimately have "unat (v + 1) = Suc (unat v)"
    using unat_plus_less [of v 1] by simp
  then have "of_nat (unat (v + 1)) = (of_nat (unat v) + 1 :: u64)"
    by simp
  then show ?thesis
    by (simp only: of_nat_unat)
qed

lemma ucast_pred: "(v :: u32) \<noteq> 0 \<Longrightarrow> ucast (v - 1) + 1 = (ucast v :: u64)"
proof -
  assume "v \<noteq> 0"
  moreover have "(0xffffffff :: u32) = - 1" by simp
  ultimately have "v - 1 \<noteq> 0xffffffff"
    by (metis add.left_neutral diff_eq_eq add.right_inverse add.commute)
  from ucast_Suc [OF this] show ?thesis by simp
qed

lemma tree_SaveVersion_Inr:
  assumes "tree_SaveVersion b t = Inr (hash, v, t')"
  shows "tree_version t \<noteq> 0xffffffff" "t' = t\<lparr>tree_version := tree_version t + 1\<rparr>"
  using assms by (simp_all add: tree_SaveVersion_def Let_def split: if_split_asm)

lemma save_trees_ok:
  assumes "save_trees b trees = Inr trees'" "\<forall>e \<in> set trees. tree_at view next e"
  shows "names trees' = names trees \<and> (\<forall>e \<in> set trees'. tree_at view (next + 1) e)"
  using assms
proof (induction trees arbitrary: trees')
  case (Cons e trees)
  from Cons.prems(1) obtain hash v tree rest where rest: "tree_SaveVersion b (nt_Tree e) = Inr (hash, v, tree)"
    "save_trees b trees = Inr rest" "trees' = e\<lparr>nt_Tree := tree\<rparr> # rest"
    by (auto simp: bind_res_Inr)
  have "tree_at view (next + 1) (e\<lparr>nt_Tree := tree\<rparr>)"
    using Cons.prems(2) ucast_Suc [OF tree_SaveVersion_Inr(1) [OF rest(1)]]
    unfolding tree_SaveVersion_Inr(2) [OF rest(1)] by (simp add: tree_at_def tree_ok_def)
  then show ?case
    using Cons.IH [OF rest(2)] Cons.prems(2) by (simp add: rest(3))
qed simp

lemma mt_SaveVersion_ok:
  assumes "mt_ok view t" "0 < mt_next t" "mt_SaveVersion b t = Inr (v, t')"
  shows "mt_ok view t' \<and> v = mt_next t \<and> mt_Version t' = v \<and> mt_initialVersion t' = mt_initialVersion t"
proof -
  obtain trees where trees: "save_trees b (mt_trees t) = Inr trees" "mt_trees t' = trees" "v = mt_next t"
    "mt_Version t' = v" "mt_initialVersion t' = mt_initialVersion t" "treesByName t' = treesByName t"
    using assms(3)
    by (cases b) (auto simp: mt_SaveVersion_def Let_def bind_res_Inr UpdateCommitInfo_def buildCommitInfo_def mt_Version_def)
  have "names trees = names (mt_trees t)" "\<forall>e \<in> set trees. tree_at view (mt_next t + 1) e"
    using save_trees_ok [OF trees(1)] assms(1) by (auto simp: mt_ok_def)
  moreover have "nextVersion (mt_next t) (mt_initialVersion t) = mt_next t + 1"
    using assms(2) unfolding nextVersion_def [of "mt_next t"] by auto
  then have "mt_next t' = mt_next t + 1"
    using trees(3-5) by simp
  ultimately show ?thesis
    using assms(1) trees index_names_cong [of trees "mt_trees t"] by (simp add: mt_ok_def)
qed

lemma mt_setInitialVersion_ok:
  assumes "mt_ok view t" "mt_Version t = 0" "mt_initialVersion t \<le> 1"
  shows "mt_ok view (mt_setInitialVersion v t)"
proof -
  have n1: "mt_next t = 1"
    using assms(2,3) by (auto simp: nextVersion_def not_less [symmetric])
  have zero: "tree_ok view (nt_Tree e)" "tree_version (nt_Tree e) = 0" if "e \<in> set (mt_trees t)" for e
  proof -
    have "tree_ok view (nt_Tree e)" "ucast (tree_version (nt_Tree e)) + 1 = (1 :: u64)"
      using assms(1) n1 that by (simp_all add: mt_ok_def tree_at_def)
    then show "tree_ok view (nt_Tree e)" "tree_version (nt_Tree e) = 0"
      using ucast_up_inject [of "tree_version (nt_Tree e)" 0, where 'b = 64] by simp_all
  qed
  show ?thesis
  proof (cases "v > 1")
    case True
    let ?f = "\<lambda>e. e\<lparr>nt_Tree := setInitialVersion v (nt_Tree e)\<rparr>"
    have "tree_at view (ucast v) (?f e)" if "e \<in> set (mt_trees t)" for e
      using zero [OF that] True ucast_pred [of v]
      by (auto simp: tree_at_def setInitialVersion_def tree_ok_def)
    moreover have "index_names (map ?f (mt_trees t)) = index_names (mt_trees t)"
      by (rule index_names_cong) simp
    ultimately show ?thesis
      using assms True by (auto simp: mt_setInitialVersion_def mt_ok_def nextVersion_def mt_Version_def o_def)
  next
    case False
    then have "mt_next (mt_setInitialVersion v t) = 1"
      using assms(2) by (simp add: mt_setInitialVersion_def nextVersion_def mt_Version_def)
    with False assms(1) n1 show ?thesis
      by (simp add: mt_ok_def mt_setInitialVersion_def)
  qed
qed

lemma mt_Copy_ok:
  assumes "cache_contract ops view" "mt_ok view t"
  shows "mt_ok view (mt_Copy ops n t)"
proof -
  let ?f = "\<lambda>e. \<lparr>nt_Tree = tree_Copy ops n (nt_Tree e), nt_Name = nt_Name e\<rparr>"
  have "tree_at view v (?f e)" if "tree_at view v e" for e v
    using that assms(1) by (auto simp: tree_at_def tree_ok_def tree_Copy_def NewCache_def cache_contract_def)
  then show ?thesis
    using assms(2) by (simp add: mt_ok_def mt_Copy_def Let_def mt_Version_def o_def)
qed

text \<open>
  The states a multi-tree can reach from an empty one: the initial version is set before there is
  a version, the version stays in 32 bits when trees are added, and the trees have room for the
  change sets.
\<close>

inductive mt_reachable :: "'c cache_ops \<Rightarrow> 'c multi_tree \<Rightarrow> bool" for ops where
  new: "mt_reachable ops (NewEmptyMultiTree initialVersion cacheSize)"
| initial: "mt_reachable ops t \<Longrightarrow> mt_initialVersion t \<le> 1 \<Longrightarrow> mt_SetInitialVersion v t = Inr t' \<Longrightarrow> mt_reachable ops t'"
| upgrades: "mt_reachable ops t \<Longrightarrow> 0 < mt_next t \<Longrightarrow> unat (mt_next t) < 2 ^ 32 \<Longrightarrow> ApplyUpgrades ops us t = Inr t' \<Longrightarrow>
    mt_reachable ops t'"
| changes: "mt_reachable ops t \<Longrightarrow> room (total_pairs css) t \<Longrightarrow> mt_ApplyChangeSets ops css t = Inr t' \<Longrightarrow> mt_reachable ops t'"
| save: "mt_reachable ops t \<Longrightarrow> 0 < mt_next t \<Longrightarrow> mt_SaveVersion updateCommitInfo t = Inr (v, t') \<Longrightarrow> mt_reachable ops t'"
| copy: "mt_reachable ops t \<Longrightarrow> mt_reachable ops (mt_Copy ops cacheSize t)"

lemma mt_reachable_ok:
  assumes "cache_contract ops view" "mt_reachable ops t"
  shows "mt_ok view t"
  using assms(2)
proof induction
  case (new initialVersion cacheSize)
  show ?case
    by (simp add: mt_ok_def NewEmptyMultiTree_def index_names_def)
next
  case (initial t v t')
  then show ?case
    using mt_setInitialVersion_ok [OF initial.IH] by (auto simp: mt_SetInitialVersion_def split: if_splits)
next
  case (upgrades t us t')
  then show ?case
    using ApplyUpgrades_ok [OF assms(1)] by blast
next
  case (changes t css t')
  then show ?case
    using mt_ApplyChangeSets_ok [OF assms(1), of t css 0 t'] by simp
next
  case (save t updateCommitInfo v t')
  then show ?case
    using mt_SaveVersion_ok by blast
next
  case (copy t cacheSize)
  then show ?case
    using mt_Copy_ok [OF assms(1)] by blast
qed

section \<open>What an upgrade does\<close>

abbreviation rebuilt :: "'c multi_tree \<Rightarrow> 'c multi_tree" where
  "rebuilt t \<equiv> t\<lparr>mt_trees := sort_key nt_Name (mt_trees t), treesByName := index_names (sort_key nt_Name (mt_trees t))\<rparr>"

lemma ApplyUpgrades_single:
  "ApplyUpgrades ops [u] t =
     bind_res (apply_upgrade ops u (t\<lparr>treesByName := Map.empty\<rparr>)) (\<lambda>t1.
       if distinct (names (mt_trees t1)) then Inr (rebuilt t1) else Inl (Error ''memiavl tree name conflicts''))"
proof -
  have "mset (names (sort_key nt_Name trees)) = mset (names trees)" for trees :: "'a named_tree list"
    by (simp only: mset_map mset_sort)
  then have "distinct (names (sort_key nt_Name trees)) = distinct (names trees)" for trees :: "'a named_tree list"
    by (metis mset_eq_imp_distinct_iff)
  then show ?thesis
    by (auto simp: ApplyUpgrades_def Let_def rebuild_index_eq index_names_from bind_res_def split: sum.split)
qed

lemma tree_map_iff:
  "distinct (names trees) \<Longrightarrow> tree_map trees n = Some tree \<longleftrightarrow> (\<exists>e \<in> set trees. nt_Name e = n \<and> nt_Tree e = tree)"
  by (force simp: tree_map_def map_of_eq_Some_iff o_def)

lemma tree_map_eqI:
  assumes "distinct (names trees)" "\<And>n tree. m n = Some tree \<longleftrightarrow> (\<exists>e \<in> set trees. nt_Name e = n \<and> nt_Tree e = tree)"
  shows "tree_map trees = m"
proof
  show "tree_map trees n = m n" for n
    using tree_map_iff [OF assms(1)] assms(2) by (metis option.exhaust)
qed

lemma names_inj: "distinct (names trees) \<Longrightarrow> e \<in> set trees \<Longrightarrow> e' \<in> set trees \<Longrightarrow> nt_Name e = nt_Name e' \<Longrightarrow> e = e'"
  by (simp add: distinct_map inj_on_def)

lemma delete_tree:
  assumes "distinct (names trees)" "index_of_name n trees = Some i"
  defines "trees' \<equiv> take (length trees - 1) (trees[i := trees ! (length trees - 1), length trees - 1 := trees ! i])"
  shows "distinct (names trees')" "tree_map trees' = (tree_map trees)(n := None)"
proof -
  have i: "i < length trees" "nt_Name (trees ! i) = n"
    using index_of_name_Some [OF assms(2)] by simp_all
  have ms: "mset (trees ! i # trees') = mset trees"
    unfolding trees'_def by (rule swap_delete [OF i(1)])
  then have "mset (names (trees ! i # trees')) = mset (names trees)"
    by (metis mset_map)
  then have d': "distinct (names (trees ! i # trees'))"
    using assms(1) mset_eq_imp_distinct_iff by blast
  then show d: "distinct (names trees')" by simp
  have set: "set trees = insert (trees ! i) (set trees')"
    using mset_eq_setD [OF ms] by simp
  have other: "nt_Name e \<noteq> n" if "e \<in> set trees'" for e
    using d' i(2) that by (metis distinct.simps(2) image_eqI list.set_map list.simps(9))
  show "tree_map trees' = (tree_map trees)(n := None)"
  proof (rule tree_map_eqI [OF d])
    show "((tree_map trees)(n := None)) m = Some tree \<longleftrightarrow> (\<exists>e \<in> set trees'. nt_Name e = m \<and> nt_Tree e = tree)" for m tree
      using tree_map_iff [OF assms(1), of m tree] set other i(2) by auto
  qed
qed

lemma rename_distinct:
  assumes "distinct (names trees)" "index_of_name from trees = Some i"
  shows "distinct (names (trees[i := (trees ! i)\<lparr>nt_Name := n\<rparr>])) \<longleftrightarrow> n = from \<or> tree_map trees n = None"
proof -
  let ?ns = "names trees"
  have i: "i < length ?ns" "?ns ! i = from"
    using index_of_name_Some [OF assms(2)] by simp_all
  have upd: "names (trees[i := (trees ! i)\<lparr>nt_Name := n\<rparr>]) = ?ns[i := n]"
    by (simp add: map_update)
  show ?thesis
  proof (cases "n \<in> set ?ns - {from}")
    case True
    then obtain j where j: "j < length ?ns" "?ns ! j = n" "j \<noteq> i"
      using i by (metis DiffD1 DiffD2 in_set_conv_nth singletonI)
    then have "?ns[i := n] ! i = ?ns[i := n] ! j"
      using i(1) by simp
    then have "\<not> distinct (?ns[i := n])"
      using j i(1) by (metis length_list_update nth_eq_iff_index_eq)
    with True show ?thesis
      unfolding upd by (auto simp: dom_tree_map)
  next
    case False
    then have "distinct (?ns[i := n])"
      using distinct_list_update [OF assms(1), of n i] i(2) by simp
    moreover have "n = from \<or> tree_map trees n = None"
      using False by (auto simp: dom_tree_map)
    ultimately show ?thesis
      unfolding upd by simp
  qed
qed

lemma rename_tree:
  fixes trees :: "'c named_tree list"
  assumes "distinct (names trees)" "index_of_name from trees = Some i" "n = from \<or> tree_map trees n = None"
  shows "tree_map (trees[i := (trees ! i)\<lparr>nt_Name := n\<rparr>]) = (tree_map trees)(from := None, n \<mapsto> the (tree_map trees from))"
proof (rule tree_map_eqI)
  let ?e = "trees ! i"
  show "distinct (names (trees[i := ?e\<lparr>nt_Name := n\<rparr>]))"
    using rename_distinct [OF assms(1,2)] assms(3) by blast
  have i: "i < length trees" "nt_Name ?e = from"
    using index_of_name_Some [OF assms(2)] by simp_all
  have "distinct trees"
    using assms(1) by (rule distinct_map [THEN iffD1, THEN conjunct1])
  then have set: "set (trees[i := ?e\<lparr>nt_Name := n\<rparr>]) = insert (?e\<lparr>nt_Name := n\<rparr>) (set trees - {?e})"
    using i(1) by (rule set_update_distinct)
  have other: "nt_Name e \<noteq> from" "nt_Name e \<noteq> n" if "e \<in> set trees" "e \<noteq> ?e" for e
  proof -
    show "nt_Name e \<noteq> from"
      using names_inj [OF assms(1) that(1) nth_mem [OF i(1)]] i(2) that(2) by metis
    then show "nt_Name e \<noteq> n"
      using assms(3) that(1) unfolding dom_tree_map by blast
  qed
  have "the (tree_map trees from) = nt_Tree ?e"
    using tree_map_nth [OF assms(1) i(1)] i(2) by simp
  moreover have "tree_map trees m = Some tree \<longleftrightarrow> (\<exists>e \<in> set trees - {?e}. nt_Name e = m \<and> nt_Tree e = tree)"
    if "m \<noteq> from" for m tree
    using tree_map_iff [OF assms(1), of m tree] i(2) that by auto
  ultimately show "((tree_map trees)(from := None, n \<mapsto> the (tree_map trees from))) m = Some tree \<longleftrightarrow>
      (\<exists>e \<in> set (trees[i := ?e\<lparr>nt_Name := n\<rparr>]). nt_Name e = m \<and> nt_Tree e = tree)" for m tree
    unfolding set using other by (cases "m = n"; cases "m = from") auto
qed

lemma add_tree:
  assumes "distinct (names trees)"
  shows "distinct (names (trees @ [e])) \<longleftrightarrow> tree_map trees (nt_Name e) = None"
    and "tree_map trees (nt_Name e) = None \<Longrightarrow> tree_map (trees @ [e]) = (tree_map trees)(nt_Name e \<mapsto> nt_Tree e)"
proof -
  show d: "distinct (names (trees @ [e])) \<longleftrightarrow> tree_map trees (nt_Name e) = None"
    using assms by (auto simp: dom_tree_map)
  assume none: "tree_map trees (nt_Name e) = None"
  show "tree_map (trees @ [e]) = (tree_map trees)(nt_Name e \<mapsto> nt_Tree e)"
  proof (rule tree_map_eqI)
    show "((tree_map trees)(nt_Name e \<mapsto> nt_Tree e)) m = Some tree \<longleftrightarrow>
        (\<exists>e' \<in> set (trees @ [e]). nt_Name e' = m \<and> nt_Tree e' = tree)" for m tree
      using none tree_map_iff [OF assms, of m tree] by (cases "m = nt_Name e") auto
  qed (use d none in simp)
qed

lemma tree_map_sort: "distinct (names trees) \<Longrightarrow> tree_map (sort_key nt_Name trees) = tree_map trees"
proof (rule tree_map_eqI)
  assume d: "distinct (names trees)"
  have "mset (names (sort_key nt_Name trees)) = mset (names trees)"
    by (simp only: mset_map mset_sort)
  then show "distinct (names (sort_key nt_Name trees))"
    using d mset_eq_imp_distinct_iff by blast
  show "tree_map trees n = Some tree \<longleftrightarrow> (\<exists>e \<in> set (sort_key nt_Name trees). nt_Name e = n \<and> nt_Tree e = tree)" for n tree
    using tree_map_iff [OF d] by simp
qed

text \<open>What one upgrade means for the map of trees.\<close>

definition upgrade_spec ::
    "tree_name_upgrade \<Rightarrow> u64 \<Rightarrow> (bytes \<rightharpoonup> 'c tree) \<Rightarrow> go_err + ((bytes \<rightharpoonup> 'c tree) \<Rightarrow> bool)" where
  "upgrade_spec u next m =
     (if up_Delete u then
        (if m (up_Name u) = None then Inl (Error ''unknown tree name'') else Inr (\<lambda>m'. m' = m(up_Name u := None)))
      else if up_RenameFrom u \<noteq> [] then
        (case m (up_RenameFrom u) of
           None \<Rightarrow> Inl (Error ''unknown tree name'')
         | Some tree \<Rightarrow>
             if up_Name u \<noteq> up_RenameFrom u \<and> m (up_Name u) \<noteq> None then Inl (Error ''memiavl tree name conflicts'')
             else Inr (\<lambda>m'. m' = m(up_RenameFrom u := None, up_Name u \<mapsto> tree)))
      else if m (up_Name u) \<noteq> None then Inl (Error ''memiavl tree name conflicts'')
      else Inr (\<lambda>m'. \<exists>tree. tree_root tree = None \<and> ucast (tree_version tree) + 1 = next \<and> m' = m(up_Name u \<mapsto> tree)))"

lemma NewWithInitialVersion_Inr:
  assumes "0 < next" "unat next < 2 ^ 32"
  shows "\<exists>tree. NewWithInitialVersion ops (ucast (next :: u64)) n = Inr tree"
proof (cases "ucast next \<le> (1 :: u32)")
  case True
  then show ?thesis
    by (simp add: NewWithInitialVersion_def tree_New_def NewEmptyTree_def)
next
  case False
  let ?v = "ucast next - 1 :: u32"
  have "unat (ucast next :: u32) = unat next"
    using assms(2) by (simp add: word_conv)
  moreover have "1 < unat (ucast next :: u32)"
    using False by (simp add: word_le_nat_alt)
  ultimately have "unat ?v < 2 ^ 32 - 1"
    using assms(2) by (simp add: unat_minus_ge)
  moreover have "unat (ucast ?v :: u64) = unat ?v"
    using unsigned_less [of ?v, where 'a = nat] by (simp add: word_conv)
  ultimately have "\<not> 0xffffffff \<le> (ucast ?v :: u64)"
    by (simp add: word_le_nat_alt)
  with False show ?thesis
    by (simp add: NewWithInitialVersion_def NewEmptyTree_def)
qed

lemma ApplyUpgrades_spec:
  assumes "cache_contract ops view" "mt_ok view t" "0 < mt_next t" "unat (mt_next t) < 2 ^ 32"
  shows "case upgrade_spec u (mt_next t) (tree_map (mt_trees t)) of
      Inl err \<Rightarrow> ApplyUpgrades ops [u] t = Inl err
    | Inr post \<Rightarrow> \<exists>t'. ApplyUpgrades ops [u] t = Inr t' \<and> post (tree_map (mt_trees t'))"
proof -
  let ?trees = "mt_trees t" let ?t = "t\<lparr>treesByName := Map.empty\<rparr>"
  have d: "distinct (names ?trees)"
    using assms(2) ascending_distinct by (auto simp: mt_ok_def)
  have known: "index_of_name n ?trees = None \<longleftrightarrow> tree_map ?trees n = None" for n
    by (simp add: index_of_name_None dom_tree_map)
  consider (delete) "up_Delete u" | (rename) "\<not> up_Delete u" "up_RenameFrom u \<noteq> []" | (add) "\<not> up_Delete u" "up_RenameFrom u = []"
    by blast
  then show ?thesis
  proof cases
    case delete
    then show ?thesis
      using known [of "up_Name u"] delete_tree [OF d, of "up_Name u"]
      by (cases "index_of_name (up_Name u) ?trees")
        (auto simp: upgrade_spec_def ApplyUpgrades_single apply_upgrade_def Let_def tree_map_sort)
  next
    case rename
    show ?thesis
    proof (cases "index_of_name (up_RenameFrom u) ?trees")
      case None
      then show ?thesis
        using rename known [of "up_RenameFrom u"]
        by (simp add: upgrade_spec_def ApplyUpgrades_single apply_upgrade_def Let_def)
    next
      case (Some i)
      then obtain tree where tree: "tree_map ?trees (up_RenameFrom u) = Some tree"
        using known [of "up_RenameFrom u"] by auto
      then show ?thesis
        using rename Some rename_distinct [OF d Some, of "up_Name u"] rename_tree [OF d Some, of "up_Name u"]
        by (auto simp: upgrade_spec_def ApplyUpgrades_single apply_upgrade_def Let_def tree_map_sort)
    qed
  next
    case add
    obtain tree where tree: "NewWithInitialVersion ops (ucast (mt_next t)) (mt_cacheSize t) = Inr tree"
      using NewWithInitialVersion_Inr [OF assms(3,4)] by blast
    moreover have "mt_Version ?t = mt_Version t"
      by (simp add: mt_Version_def)
    ultimately have "apply_upgrade ops u ?t = Inr (?t\<lparr>mt_trees := ?trees @ [\<lparr>nt_Tree = tree, nt_Name = up_Name u\<rparr>]\<rparr>)"
      using add by (simp add: apply_upgrade_def Let_def)
    then show ?thesis
      using add add_tree [OF d, of "\<lparr>nt_Tree = tree, nt_Name = up_Name u\<rparr>"] NewWithInitialVersion_ok [OF assms(1) tree assms(3,4)]
      by (auto simp: upgrade_spec_def ApplyUpgrades_single tree_map_sort)
  qed
qed

section \<open>Correctness of the multi-tree\<close>


text \<open>A multi-tree with two stores that were added out of order, before its first commit.\<close>

definition sample_upgrades :: "tree_name_upgrade list" where
  "sample_upgrades = [\<lparr>up_Name = [98], up_RenameFrom = [], up_Delete = False\<rparr>, \<lparr>up_Name = [97], up_RenameFrom = [], up_Delete = False\<rparr>]"

definition sample_mt :: "(nat \<times> (bytes \<times> bytes) list) multi_tree" where
  "sample_mt =
     \<lparr>mt_initialVersion = 5, mt_zeroCopy = True, mt_cacheSize = 0,
      mt_trees = [\<lparr>nt_Tree = \<lparr>tree_version = 4, tree_root = None, tree_snap = None, tree_cache = None, zeroCopy = True\<rparr>, nt_Name = [97]\<rparr>,
        \<lparr>nt_Tree = \<lparr>tree_version = 4, tree_root = None, tree_snap = None, tree_cache = None, zeroCopy = True\<rparr>, nt_Name = [98]\<rparr>],
      treesByName = [[97] \<mapsto> 0, [98] \<mapsto> 1], lastCommitInfo = CommitInfo_zero, mt_metadata = MultiTreeMetadata_zero\<rparr>"

lemma mt_next_new: "mt_next (NewEmptyMultiTree 5 0) = 5"
  by (simp add: nextVersion_def mt_Version_def NewEmptyMultiTree_def CommitInfo_zero_def)

lemma sample_mt_upgrades: "ApplyUpgrades list_cache sample_upgrades (NewEmptyMultiTree 5 0) = Inr sample_mt"
proof -
  have "\<not> (5 :: u32) \<le> 1" by (simp add: word_le_nat_alt)
  then show ?thesis
    by (simp add: sample_mt_def sample_upgrades_def ApplyUpgrades_def apply_upgrade_def NewEmptyMultiTree_def Let_def
        NewWithInitialVersion_def NewEmptyTree_def NewCache_def mt_Version_def CommitInfo_zero_def nextVersion_def)
qed

lemma sample_mt_reachable: "mt_reachable list_cache sample_mt"
  by (rule mt_reachable.upgrades [OF mt_reachable.new _ _ sample_mt_upgrades]) (simp_all add: mt_next_new)


text \<open>
  C24: an upgrade deletes, renames or adds a tree, or is rejected. On a valid multi-tree whose next
  version fits in 32 bits, \<open>ApplyUpgrades\<close> with one upgrade does to the map from names to trees
  what the upgrade says: it deletes the tree, moves it to its new name, or adds an empty tree that
  will have the next version. An unknown name and a name that is already taken are errors.
\<close>

theorem upgrade_correct:
  assumes "cache_contract ops view" "mt_ok view t" "0 < nextVersion (mt_Version t) (mt_initialVersion t)"
    "unat (nextVersion (mt_Version t) (mt_initialVersion t)) < 2 ^ 32"
  shows "case upgrade_spec u (nextVersion (mt_Version t) (mt_initialVersion t)) (tree_map (mt_trees t)) of
      Inl err \<Rightarrow> ApplyUpgrades ops [u] t = Inl err
    | Inr post \<Rightarrow> \<exists>t'. ApplyUpgrades ops [u] t = Inr t' \<and> mt_ok view t' \<and> post (tree_map (mt_trees t'))"
  using ApplyUpgrades_spec [OF assms, of u] ApplyUpgrades_ok [OF assms, of "[u]"]
  by (auto split: sum.splits)

theorem upgrade_correct_witness:
  "\<exists>t'. ApplyUpgrades list_cache [\<lparr>up_Name = [99], up_RenameFrom = [97], up_Delete = False\<rparr>] sample_mt = Inr t' \<and>
    tree_map (mt_trees t') [97] = None \<and> tree_map (mt_trees t') [99] = tree_map (mt_trees sample_mt) [97]"
  using upgrade_correct [OF list_cache_contract mt_reachable_ok [OF list_cache_contract sample_mt_reachable],
      of "\<lparr>up_Name = [99], up_RenameFrom = [97], up_Delete = False\<rparr>"]
  by (auto simp: sample_mt_def mt_Version_def CommitInfo_zero_def nextVersion_def upgrade_spec_def tree_map_def)

end
