(* ===== verification/Multi_Replay.thy ===== *)
theory Multi_Replay
  imports Multi_Tree
begin

text \<open>
  Persistence of the multi-tree: replaying the write-ahead log gives the state that the commits
  gave, and a snapshot directory that is written can be loaded. The commits themselves are
  \<open>ApplyUpgrades\<close>, \<open>ApplyChangeSets\<close> and \<open>SaveVersion(true)\<close>, as \<open>Commit\<close> of \<open>src/memiavl/db.go\<close> calls
  them; the replay saves versions without commit info and rebuilds it at the end.
\<close>

section \<open>Store infos do not influence the trees\<close>

definition set_infos :: "store_info list \<Rightarrow> 'c multi_tree \<Rightarrow> 'c multi_tree" where
  "set_infos infos t = t\<lparr>lastCommitInfo := (lastCommitInfo t)\<lparr>StoreInfos := infos\<rparr>\<rparr>"

lemma set_infos_simps [simp]:
  "mt_trees (set_infos x t) = mt_trees t" "treesByName (set_infos x t) = treesByName t"
  "mt_Version (set_infos x t) = mt_Version t" "mt_initialVersion (set_infos x t) = mt_initialVersion t"
  "mt_cacheSize (set_infos x t) = mt_cacheSize t" "set_infos x (set_infos y t) = set_infos x t"
  by (simp_all add: set_infos_def mt_Version_def)

lemma set_infos_trees [simp]:
  "set_infos x (t\<lparr>mt_trees := ts\<rparr>) = (set_infos x t)\<lparr>mt_trees := ts\<rparr>"
  "set_infos x (t\<lparr>treesByName := m\<rparr>) = (set_infos x t)\<lparr>treesByName := m\<rparr>"
  by (simp_all add: set_infos_def)

lemma apply_upgrade_infos: "apply_upgrade ops u (set_infos x t) = map_res (set_infos x) (apply_upgrade ops u t)"
  by (simp add: apply_upgrade_def Let_def map_bind_res split: option.split)

lemma apply_upgrade_list_infos:
  "apply_upgrade_list ops us (set_infos x t) = map_res (set_infos x) (apply_upgrade_list ops us t)"
  by (induction us arbitrary: t) (simp_all add: apply_upgrade_infos bind_map_res map_bind_res)

lemma ApplyUpgrades_infos: "ApplyUpgrades ops us (set_infos x t) = map_res (set_infos x) (ApplyUpgrades ops us t)"
  using apply_upgrade_list_infos [of ops us x "t\<lparr>treesByName := Map.empty\<rparr>"]
  by (simp add: ApplyUpgrades_def Let_def bind_map_res map_bind_res)

lemma mt_ApplyChangeSet_infos:
  "mt_ApplyChangeSet ops name cs (set_infos x t) = map_res (set_infos x) (mt_ApplyChangeSet ops name cs t)"
  by (simp add: mt_ApplyChangeSet_def split: option.split)

lemma mt_ApplyChangeSets_infos:
  "mt_ApplyChangeSets ops css (set_infos x t) = map_res (set_infos x) (mt_ApplyChangeSets ops css t)"
  by (induction css arbitrary: t) (simp_all add: mt_ApplyChangeSet_infos bind_map_res map_bind_res)

lemma applyWALEntry_infos:
  "applyWALEntry ops e (set_infos x t) = map_res (set_infos x) (applyWALEntry ops e t)"
  by (simp add: applyWALEntry_def ApplyUpgrades_infos bind_map_res map_bind_res mt_ApplyChangeSets_infos)

section \<open>Empty values\<close>

lemma tree_ApplyChangeSet_norm: "tree_ApplyChangeSet ops (map norm_pair ps) t = tree_ApplyChangeSet ops ps t"
proof (induction ps arbitrary: t)
  case (Cons p ps)
  have "tree_set ops t (kv_key p) (kv_value (norm_pair p)) = tree_set ops t (kv_key p) (kv_value p)" for t
    by (auto simp: tree_set_def norm_pair_def split: option.split)
  moreover have "kv_key (norm_pair p) = kv_key p" "kv_delete (norm_pair p) = kv_delete p"
    by (simp_all add: norm_pair_def)
  moreover have "tree_ApplyChangeSet ops (map norm_pair ps) = tree_ApplyChangeSet ops ps"
    using Cons.IH by (rule ext)
  ultimately show ?case by simp
qed simp

lemma applyWALEntry_norm: "applyWALEntry ops (norm_entry e) t = applyWALEntry ops e t"
proof -
  have "mt_ApplyChangeSet ops (ncs_Name (norm_named cs)) (ncs_Changeset (norm_named cs)) t =
      mt_ApplyChangeSet ops (ncs_Name cs) (ncs_Changeset cs) t" for cs t
    by (simp add: norm_named_def mt_ApplyChangeSet_def tree_ApplyChangeSet_norm split: option.split)
  then have "mt_ApplyChangeSets ops (map norm_named css) = mt_ApplyChangeSets ops css" for css
    by (induction css) (auto intro!: ext)
  then show ?thesis
    by (simp add: applyWALEntry_def norm_entry_def)
qed

section \<open>Commits\<close>

definition commit :: "'c cache_ops \<Rightarrow> wal_entry \<Rightarrow> 'c multi_tree \<Rightarrow> 'c multi_tree res" where
  "commit ops entry t =
     bind_res (applyWALEntry ops entry t) (\<lambda>t. bind_res (mt_SaveVersion True t) (\<lambda>(_, t). Inr t))"

fun commits :: "'c cache_ops \<Rightarrow> wal_entry list \<Rightarrow> 'c multi_tree \<Rightarrow> 'c multi_tree res" where
  "commits ops [] t = Inr t"
| "commits ops (e # es) t = bind_res (commit ops e t) (commits ops es)"

lemma save_trees_flag: "save_trees b trees = save_trees b' trees"
  by (induction trees) (simp_all add: tree_SaveVersion_def Let_def)

lemma mt_SaveVersion_infos:
  assumes "mt_SaveVersion True t = Inr (v, t')"
  shows "mt_SaveVersion False (set_infos x t) = Inr (v, set_infos [] t')" "t' = UpdateCommitInfo t'"
    "mt_Version t' = mt_next t" "mt_initialVersion t' = mt_initialVersion t"
  using assms save_trees_flag [of True "mt_trees t" False]
  by (auto simp: mt_SaveVersion_def Let_def bind_res_Inr UpdateCommitInfo_def buildCommitInfo_def mt_Version_def set_infos_def)

lemma UpdateCommitInfo_infos: "UpdateCommitInfo (set_infos x t) = UpdateCommitInfo t"
  by (simp add: UpdateCommitInfo_def buildCommitInfo_def set_infos_def mt_Version_def)

lemma apply_keeps_version:
  assumes "applyWALEntry ops e t = Inr t'"
  shows "mt_Version t' = mt_Version t \<and> mt_initialVersion t' = mt_initialVersion t"
proof -
  obtain t1 where t1: "ApplyUpgrades ops (Upgrades e) t = Inr t1" "mt_ApplyChangeSets ops (Changesets e) t1 = Inr t'"
    using assms by (auto simp: applyWALEntry_def bind_res_Inr)
  have list: "mt_Version b = mt_Version a \<and> mt_initialVersion b = mt_initialVersion a"
    if "apply_upgrade_list ops us a = Inr b" for us a b
    using that
  proof (induction us arbitrary: a)
    case (Cons u us)
    then obtain c where "apply_upgrade ops u a = Inr c" "apply_upgrade_list ops us c = Inr b"
      by (auto simp: bind_res_Inr)
    then show ?case
      using Cons.IH [of c] apply_upgrade_keeps [of ops u a c] by (simp add: mt_Version_def)
  qed simp
  have "mt_Version t1 = mt_Version t \<and> mt_initialVersion t1 = mt_initialVersion t"
    using t1(1) list by (fastforce simp: ApplyUpgrades_def bind_res_Inr Let_def mt_Version_def split: if_splits)
  moreover have "mt_Version b = mt_Version a \<and> mt_initialVersion b = mt_initialVersion a"
    if "mt_ApplyChangeSets ops css a = Inr b" for css a b
    using that
    by (induction css arbitrary: a)
      (fastforce simp: bind_res_Inr mt_ApplyChangeSet_def mt_Version_def split: option.splits if_splits)+
  ultimately show ?thesis
    using t1(2) by metis
qed

lemma commit_version:
  assumes "commit ops e t = Inr t'"
  shows "mt_Version t' = mt_next t \<and> mt_initialVersion t' = mt_initialVersion t \<and> t' = UpdateCommitInfo t'"
  using assms apply_keeps_version mt_SaveVersion_infos(2-4)
  by (fastforce simp: commit_def bind_res_Inr)

text \<open>Reading the log at an index gives the encoding of an entry.\<close>

definition logged :: "wal_log \<Rightarrow> nat \<Rightarrow> wal_entry \<Rightarrow> bool" where
  "logged wal i e \<longleftrightarrow> WALEntry_Size e < 2 ^ 63 \<and>
     (\<exists>bz. WALEntry_Marshal e = Some bz \<and> wal_Read wal (of_nat i) = Inr bz)"

lemma replay_step:
  assumes "logged wal i e" "commit ops e t = Inr t'"
  shows "replay_loop ops wal (of_nat i # is) (set_infos x t) = replay_loop ops wal is (set_infos [] t')"
proof -
  obtain bz where bz: "WALEntry_Marshal e = Some bz" "wal_Read wal (of_nat i) = Inr bz" "length (enc_WALEntry e) < 2 ^ 63"
    using assms(1) by (auto simp: logged_def we.size_ok)
  then have "bz = enc_WALEntry e"
    using we.marshal_ok [of e] by (simp add: WALEntry_Marshal_def)
  then have "WALEntry_Unmarshal bz WALEntry_zero = Inr (norm_entry e)"
    using we.unmarshal_ok [OF bz(3)] by simp
  moreover obtain t1 v where "applyWALEntry ops e t = Inr t1" "mt_SaveVersion True t1 = Inr (v, t')"
    using assms(2) by (auto simp: commit_def bind_res_Inr)
  ultimately show ?thesis
    using bz(2) mt_SaveVersion_infos(1) [of t1 v t' x] by (simp add: applyWALEntry_norm applyWALEntry_infos)
qed

lemma replay_commits:
  assumes "commits ops es t = Inr t'" "\<And>j. j < length es \<Longrightarrow> logged wal (i + j) (es ! j)" "es \<noteq> []"
  shows "replay_loop ops wal (map of_nat [i..<i + length es]) (set_infos x t) = Inr (set_infos [] t')"
  using assms
proof (induction es arbitrary: t i x)
  case (Cons e es)
  obtain t1 where t1: "commit ops e t = Inr t1" "commits ops es t1 = Inr t'"
    using Cons.prems(1) by (auto simp: bind_res_Inr)
  have "logged wal i e"
    using Cons.prems(2) [of 0] by simp
  from replay_step [OF this t1(1)]
  have step: "replay_loop ops wal (map of_nat [i..<i + length (e # es)]) (set_infos x t) =
      replay_loop ops wal (map of_nat [Suc i..<Suc i + length es]) (set_infos [] t1)"
    by (simp add: upt_rec [of i] del: upt_Suc)
  show ?case
  proof (cases "es = []")
    case True
    with t1 step show ?thesis by simp
  next
    case False
    show ?thesis
      unfolding step
      by (rule Cons.IH [OF t1(2) _ False]) (use Cons.prems(2) [of "Suc _"] in simp)
  qed
qed simp

lemma commits_version:
  assumes "commits ops es t = Inr t'" "es \<noteq> []" "0 < mt_next t" "unat (mt_next t) + length es < 2 ^ 64"
  shows "mt_initialVersion t' = mt_initialVersion t \<and> t' = UpdateCommitInfo t' \<and>
    mt_Version t' = mt_next t + of_nat (length es - 1)"
  using assms
proof (induction es arbitrary: t)
  case (Cons e es)
  obtain t1 where t1: "commit ops e t = Inr t1" "commits ops es t1 = Inr t'"
    using Cons.prems(1) by (auto simp: bind_res_Inr)
  note v1 = commit_version [OF t1(1)]
  show ?case
  proof (cases "es = []")
    case True
    then show ?thesis
      using t1(2) v1 by simp
  next
    case False
    then obtain n where n: "length es = Suc n"
      by (cases es) auto
    have "mt_next t1 = mt_next t + 1"
      using v1 Cons.prems(3) by (auto simp: nextVersion_def [of "mt_next t"])
    moreover from this have "unat (mt_next t1) = Suc (unat (mt_next t))"
      using Cons.prems(4) unat_plus_less [of "mt_next t" 1] by simp
    ultimately show ?thesis
      using Cons.IH [OF t1(2) False] Cons.prems(4) v1 n by (simp add: word_less_nat_alt)
  qed
qed simp

lemma walIndex_add: "walIndex (v + n) iv = walIndex v iv + n"
  by (simp add: walIndex_def)

lemma catchup_commits:
  fixes t :: "'c multi_tree"
  defines "firstIndex \<equiv> walIndex (nextVersion (mt_Version t) (mt_initialVersion t)) (mt_initialVersion t)"
  assumes "commits ops es t = Inr t'" "es \<noteq> []" "0 < nextVersion (mt_Version t) (mt_initialVersion t)"
    "unat (nextVersion (mt_Version t) (mt_initialVersion t)) + length es < 2 ^ 64"
    "unat firstIndex + length es < 2 ^ 64" "wal_LastIndex wal = Inr lastIndex" "firstIndex + of_nat (length es - 1) \<le> lastIndex"
    and log: "\<And>j. j < length es \<Longrightarrow> logged wal (unat firstIndex + j) (es ! j)"
    and target: "target = mt_Version t' \<or> target = 0 \<and> lastIndex = firstIndex + of_nat (length es - 1)"
  shows "CatchupWAL ops wal target t = Inr t'"
proof -
  let ?last = "firstIndex + of_nat (length es - 1)"
  note v = commits_version [OF assms(2-5)]
  have len: "0 < length es" using assms(3) by simp
  have n: "unat (of_nat (length es - 1) :: u64) = length es - 1"
    by (rule unat_of_nat_less) (use assms(6) in simp)
  have "unat firstIndex + unat (of_nat (length es - 1) :: u64) < 2 ^ LENGTH(64)"
    unfolding n using assms(6) by simp
  from unat_plus_less [OF this] have last: "unat ?last = unat firstIndex + (length es - 1)"
    by (simp only: n)
  then have order: "firstIndex \<le> ?last"
    unfolding word_le_nat_alt by linarith
  have "unat (mt_Version t') = unat (mt_next t) + (length es - 1)"
    using unat_plus_less [of "mt_next t" "of_nat (length es - 1)"] v assms(5) unfolding n by simp
  then have "mt_Version t' \<noteq> 0"
    using assms(4) by (auto simp: word_less_nat_alt)
  moreover have "walIndex (mt_Version t') (mt_initialVersion t) = ?last"
    using v by (simp add: firstIndex_def walIndex_add)
  ultimately have endIndex: "(if target = 0 then lastIndex else walIndex target (mt_initialVersion t)) = ?last"
    using target by auto
  have range: "[unat firstIndex..<Suc (unat ?last)] = [unat firstIndex..<unat firstIndex + length es]"
    unfolding last using len by (simp only: add_Suc_right [symmetric] Suc_diff_1 diff_Suc_1 One_nat_def Suc_pred)
  have "replay_loop ops wal (map of_nat [unat firstIndex..<unat firstIndex + length es])
      (set_infos (StoreInfos (lastCommitInfo t)) t) = Inr (set_infos [] t')"
    by (rule replay_commits [OF assms(2) log assms(3)])
  then have "replay_loop ops wal (map of_nat [unat firstIndex..<Suc (unat ?last)]) t = Inr (set_infos [] t')"
    unfolding range by (simp add: set_infos_def)
  moreover have "\<not> firstIndex > lastIndex" "\<not> ?last < firstIndex" "\<not> ?last > lastIndex"
    using order assms(8) by simp_all
  ultimately show ?thesis
    using v unfolding CatchupWAL_def assms(7) bind_res_simps Let_def endIndex firstIndex_def [symmetric]
    by (simp only: if_False bind_res_simps UpdateCommitInfo_infos)
qed

text \<open>
  C25: replaying the log rebuilds the committed state. Let a multi-tree go through a sequence of
  commits, each with its upgrades and change sets, and let the log hold their encodings from the
  index of its next version on. Then \<open>CatchupWAL\<close> on the multi-tree from before the commits, with
  the version reached as its target or with target 0 at the end of the log, succeeds and gives
  exactly the committed multi-tree: the same trees, index, version and commit info with all hashes.
\<close>

theorem catchup_rebuilds_commits:
  fixes t :: "'c multi_tree"
  defines "firstIndex \<equiv> walIndex (nextVersion (mt_Version t) (mt_initialVersion t)) (mt_initialVersion t)"
  assumes "commits ops es t = Inr t'" "es \<noteq> []" "0 < nextVersion (mt_Version t) (mt_initialVersion t)"
    "unat (nextVersion (mt_Version t) (mt_initialVersion t)) + length es < 2 ^ 64"
    "unat firstIndex + length es < 2 ^ 64" "wal_LastIndex wal = Inr lastIndex" "firstIndex + of_nat (length es - 1) \<le> lastIndex"
    and log: "\<And>j. j < length es \<Longrightarrow> logged wal (unat firstIndex + j) (es ! j)"
    and target: "target = mt_Version t' \<or> target = 0 \<and> lastIndex = firstIndex + of_nat (length es - 1)"
  shows "CatchupWAL ops wal target t = Inr t'"
  using catchup_commits [OF assms(2-5) _ assms(7)] assms(6,8) log target unfolding firstIndex_def by blast

definition sample_entry :: wal_entry where
  "sample_entry = \<lparr>Changesets = [\<lparr>ncs_Changeset = [\<lparr>kv_delete = False, kv_key = [1], kv_value = Some [2]\<rparr>], ncs_Name = [97]\<rparr>],
     Upgrades = [\<lparr>up_Name = [99], up_RenameFrom = [98], up_Delete = False\<rparr>]\<rparr>"

lemma sample_entry_size: "WALEntry_Size sample_entry < 2 ^ 63"
  by (simp add: sample_entry_def WALEntry_Size_def size_message_field_def NamedChangeSet_Size_def ChangeSet_Size_def
      KVPair_Size_def TreeNameUpgrade_Size_def size_bytes_field_def Let_def sov_small)

lemma sample_commit: "\<exists>t'. commits list_cache [sample_entry] sample_mt = Inr t'"
proof -
  have "setRecursive None [1] [2] 5 = Some (Leaf 5 [1] [2], True)"
    by (simp add: setRecursive_def newLeafNode_def)
  then show ?thesis
    by (simp add: commit_def applyWALEntry_def ApplyUpgrades_def apply_upgrade_def mt_ApplyChangeSet_def sample_entry_def
        sample_mt_def Let_def tree_set_def mt_SaveVersion_def tree_SaveVersion_def)
qed

theorem catchup_rebuilds_commits_witness:
  "\<exists>t'. commits list_cache [sample_entry] sample_mt = Inr t' \<and> mt_Version t' = 5 \<and>
    CatchupWAL list_cache \<lparr>wal_LastIndex = Inr 1, wal_Read = \<lambda>i. Inr (enc_WALEntry sample_entry)\<rparr> 0 sample_mt = Inr t' \<and>
    CatchupWAL list_cache \<lparr>wal_LastIndex = Inr 1, wal_Read = \<lambda>i. Inr (enc_WALEntry sample_entry)\<rparr> 5 sample_mt = Inr t'"
proof -
  let ?wal = "\<lparr>wal_LastIndex = Inr 1, wal_Read = \<lambda>i. Inr (enc_WALEntry sample_entry)\<rparr>"
  obtain t' where t': "commits list_cache [sample_entry] sample_mt = Inr t'"
    using sample_commit by blast
  have n5: "mt_next sample_mt = 5" "mt_initialVersion sample_mt = 5"
    by (simp_all add: sample_mt_def mt_Version_def CommitInfo_zero_def nextVersion_def)
  have index: "walIndex (mt_next sample_mt) (mt_initialVersion sample_mt) = 1"
    unfolding n5(1) by (simp add: n5(2) walIndex_def)
  have v: "mt_Version t' = 5"
    using commits_version [OF t'] n5 by simp
  have "logged ?wal i sample_entry" for i
    using sample_entry_size we.marshal_ok [of sample_entry] by (simp add: logged_def WALEntry_Marshal_def)
  then show ?thesis
    using catchup_rebuilds_commits [OF t', of ?wal 1 5] catchup_rebuilds_commits [OF t', of ?wal 1 0] t' v index n5
    by simp
qed

section \<open>The snapshot directory\<close>

definition same_tree :: "'c named_tree \<Rightarrow> 'd named_tree \<Rightarrow> bool" where
  "same_tree e e' \<longleftrightarrow> nt_Name e' = nt_Name e \<and> tree_version (nt_Tree e') = tree_version (nt_Tree e) \<and>
     tree_root (nt_Tree e') = tree_root (nt_Tree e)"

lemma write_open_trees:
  assumes "\<And>e. e \<in> set trees \<Longrightarrow> root_inv (tree_root (nt_Tree e)) \<and> root_writable (tree_root (nt_Tree e))" "\<And>n. \<not> ctx_done n"
    "distinct (names trees)"
  shows "\<exists>dirs trees'. write_trees ctx_done trees = Inr dirs \<and> list_all2 same_tree trees trees' \<and>
    (\<forall>m ns. open_trees ops zc cacheSize dirs m ns = Inr (m ++ tree_map trees', ns @ names trees))"
  using assms
proof (induction trees)
  case Nil
  then show ?case by (simp add: tree_map_def)
next
  case (Cons e trees)
  obtain dirs trees' where IH: "write_trees ctx_done trees = Inr dirs" "list_all2 same_tree trees trees'"
    "\<And>m ns. open_trees ops zc cacheSize dirs m ns = Inr (m ++ tree_map trees', ns @ names trees)"
  proof -
    have "\<exists>dirs trees'. write_trees ctx_done trees = Inr dirs \<and> list_all2 same_tree trees trees' \<and>
        (\<forall>m ns. open_trees ops zc cacheSize dirs m ns = Inr (m ++ tree_map trees', ns @ names trees))"
      by (rule Cons.IH) (use Cons.prems in auto)
    then show ?thesis using that by blast
  qed
  obtain dir s tree' where e: "WriteSnapshotWithContext ctx_done (tree_version (nt_Tree e)) (tree_root (nt_Tree e)) = Inr dir"
    "OpenSnapshot dir = Inr s" "NewFromSnapshot ops s zc cacheSize = Some tree'"
    "tree_version tree' = tree_version (nt_Tree e)" "tree_root tree' = tree_root (nt_Tree e)"
    using tree_reload [of "nt_Tree e" ctx_done ops zc cacheSize] Cons.prems(1) [of e] Cons.prems(2) by auto
  let ?e' = "\<lparr>nt_Tree = tree', nt_Name = nt_Name e\<rparr>"
  have "names trees' = names trees"
    using IH(2) by (induction rule: list_all2_induct) (simp_all add: same_tree_def)
  then have "nt_Name e \<notin> nt_Name ` set trees'"
    using Cons.prems(3) by (metis distinct.simps(2) list.set_map list.simps(9))
  then have "tree_map trees' (nt_Name e) = None"
    by (simp add: dom_tree_map)
  then have "m(nt_Name e \<mapsto> tree') ++ tree_map trees' = m ++ tree_map (?e' # trees')" for m
    by (auto simp: tree_map_def map_add_def fun_eq_iff split: option.split)
  then have "open_trees ops zc cacheSize ((nt_Name e, Some dir) # dirs) m ns =
      Inr (m ++ tree_map (?e' # trees'), ns @ names (e # trees))" for m ns
    using e IH(3) by simp
  moreover have "list_all2 same_tree (e # trees) (?e' # trees')"
    using IH(2) e by (simp add: same_tree_def)
  ultimately show ?case
    using e(1) IH(1) by (auto intro!: exI [of _ "?e' # trees'"])
qed

lemma same_names: "list_all2 same_tree trees trees' \<Longrightarrow> names trees' = names trees"
  by (induction rule: list_all2_induct) (simp_all add: same_tree_def)

lemma rebuild_trees: "distinct (names trees) \<Longrightarrow> map (\<lambda>n. \<lparr>nt_Tree = the (tree_map trees n), nt_Name = n\<rparr>) (names trees) = trees"
  by (rule nth_equalityI) (simp_all add: tree_map_nth)

text \<open>Loading keeps the versions of trees that already agree with the initial version.\<close>

lemma setInitialVersion_noop:
  assumes "tree_at view (nextVersion v initialVersion) e" "1 < initialVersion" "same_tree e e'"
  shows "e'\<lparr>nt_Tree := setInitialVersion initialVersion (nt_Tree e')\<rparr> = e'"
proof -
  have "ucast (tree_version (nt_Tree e)) + 1 = nextVersion v initialVersion"
    using assms(1) by (simp add: tree_at_def)
  moreover have "ucast initialVersion \<noteq> (1 :: u64)"
    using ucast_up_inject [of initialVersion 1, where 'b = 64] assms(2) by auto
  ultimately have "tree_version (nt_Tree e) \<noteq> 0"
    using assms(2) by (auto simp: nextVersion_def split: if_splits)
  then show ?thesis
    using assms(3) by (simp add: same_tree_def setInitialVersion_def word_gt_0)
qed

lemma sint_u32: "unat (x :: u64) < 2 ^ 32 \<Longrightarrow> sint x \<le> 0xffffffff"
proof -
  assume "unat x < 2 ^ 32"
  then have "unat x \<le> 4294967295" "unat x < 2 ^ 63" by simp_all
  from this(1) sint_small [OF this(2)] show ?thesis by linarith
qed

lemma sint_ucast32: "sint (ucast (x :: u32) :: u64) \<le> 0xffffffff"
  by (rule sint_u32) (use unsigned_less [of x, where 'a = nat] in \<open>simp add: word_conv\<close>)

lemma ucast_ucast32: "ucast (ucast (x :: u32) :: u64) = x"
  by (rule bit_word_eqI) (auto simp: bit_simps)

lemma multi_tree_reload:
  assumes "mt_ok view t" "list_all (\<lambda>e. root_writable (tree_root (nt_Tree e))) (mt_trees t)" "\<And>n. \<not> ctx_done n"
    "unat (mt_Version t) < 2 ^ 32" "CommitInfo_Size (lastCommitInfo t) < 2 ^ 62"
  shows "\<exists>dir t'. mt_WriteSnapshotWithContext ctx_done t = Inr dir \<and> LoadMultiTree ops dir zc cacheSize = Inr t' \<and>
    mt_initialVersion t' = mt_initialVersion t \<and> lastCommitInfo t' = lastCommitInfo t \<and> treesByName t' = treesByName t \<and>
    list_all2 same_tree (mt_trees t) (mt_trees t')"
proof -
  let ?md = "\<lparr>md_CommitInfo = Some (lastCommitInfo t), md_InitialVersion = ucast (mt_initialVersion t)\<rparr>"
  have d: "distinct (names (mt_trees t))" and sorted: "sorted (names (mt_trees t))"
    using assms(1) ascending_distinct by (auto simp: mt_ok_def strict_sorted_iff)
  have "\<exists>dirs trees'. write_trees ctx_done (mt_trees t) = Inr dirs \<and> list_all2 same_tree (mt_trees t) trees' \<and>
      (\<forall>m ns. open_trees ops zc cacheSize dirs m ns = Inr (m ++ tree_map trees', ns @ names (mt_trees t)))"
    by (rule write_open_trees)
      (use assms d in \<open>auto simp: mt_ok_def tree_at_def tree_ok_def list_all_iff\<close>)
  then obtain dirs trees' where io: "write_trees ctx_done (mt_trees t) = Inr dirs" "list_all2 same_tree (mt_trees t) trees'"
    "open_trees ops zc cacheSize dirs Map.empty [] = Inr (tree_map trees', names (mt_trees t))"
    by fastforce
  note names' = same_names [OF io(2)]
  have size: "MultiTreeMetadata_Size ?md < 2 ^ 63"
  proof -
    have sov: "sov x \<le> 10" for x
      using length_putUvarint [of x] by (simp add: length_putUvarint_sov)
    have "MultiTreeMetadata_Size ?md \<le> CommitInfo_Size (lastCommitInfo t) + 22"
      using sov [of "of_nat (CommitInfo_Size (lastCommitInfo t))"] sov [of "ucast (mt_initialVersion t)"]
      by (simp add: MultiTreeMetadata_Size_def size_message_field_def size_int_field_def Let_def)
    with assms(5) show ?thesis by simp
  qed
  then have md: "MultiTreeMetadata_Marshal ?md = Some (enc_MultiTreeMetadata ?md)"
    "MultiTreeMetadata_Unmarshal (enc_MultiTreeMetadata ?md) MultiTreeMetadata_zero = Inr ?md"
    using md.marshal_ok [of ?md] md.unmarshal_ok [of ?md] by (simp_all add: MultiTreeMetadata_Marshal_def md.size_ok)
  let ?dir = "\<lparr>metadata_file = Some (enc_MultiTreeMetadata ?md), dir_entries = dirs\<rparr>"
  have "sint (mt_Version t) \<le> 0xffffffff"
    using assms(4) by (rule sint_u32)
  then have "readMetadata ?dir = Inr ?md"
    using md(2) sint_ucast32 [of "mt_initialVersion t"] by (simp add: readMetadata_def mt_Version_def)
  moreover have "map (\<lambda>n. \<lparr>nt_Tree = the (tree_map trees' n), nt_Name = n\<rparr>) (sort (names (mt_trees t))) = trees'"
    using rebuild_trees [of trees'] d sorted names' by (simp add: sorted_sort_id)
  moreover have "map (\<lambda>e. e\<lparr>nt_Tree := setInitialVersion (mt_initialVersion t) (nt_Tree e)\<rparr>) trees' = trees'"
    if "1 < mt_initialVersion t"
  proof (rule map_idI)
    fix e' assume "e' \<in> set trees'"
    then obtain e where "e \<in> set (mt_trees t)" "same_tree e e'"
      using io(2) by (metis in_set_conv_nth list_all2_conv_all_nth nth_mem)
    then show "e'\<lparr>nt_Tree := setInitialVersion (mt_initialVersion t) (nt_Tree e')\<rparr> = e'"
      using assms(1) setInitialVersion_noop that by (metis mt_ok_def)
  qed
  ultimately have "LoadMultiTree ops ?dir zc cacheSize =
      Inr \<lparr>mt_initialVersion = mt_initialVersion t, mt_zeroCopy = zc, mt_cacheSize = cacheSize, mt_trees = trees',
        treesByName = index_names trees', lastCommitInfo = lastCommitInfo t, mt_metadata = ?md\<rparr>"
    using io(3) by (simp add: LoadMultiTree_def Let_def mt_setInitialVersion_def ucast_ucast32)
  moreover have "mt_WriteSnapshotWithContext ctx_done t = Inr ?dir"
    using io(1) md(1) by (simp add: mt_WriteSnapshotWithContext_def)
  moreover have "index_names trees' = treesByName t"
    using assms(1) index_names_cong [OF names'] by (simp add: mt_ok_def)
  ultimately show ?thesis
    using io(2) by (auto simp: mt_ok_def)
qed

text \<open>
  C26: a multi-tree survives its snapshot directory. Writing a valid multi-tree within the limits of
  the format succeeds, and loading the directory gives a multi-tree with the same initial version,
  commit info and index, and with the same trees in the same order: their names, versions and nodes
  are those that were written, so their root hashes are too.
\<close>

theorem multi_tree_from_directory:
  assumes "mt_ok view t" "list_all (\<lambda>e. root_writable (tree_root (nt_Tree e))) (mt_trees t)" "\<And>n. \<not> ctx_done n"
    "unat (mt_Version t) < 2 ^ 32" "CommitInfo_Size (lastCommitInfo t) < 2 ^ 62"
  shows "\<exists>dir t'. mt_WriteSnapshotWithContext ctx_done t = Inr dir \<and> LoadMultiTree ops dir zc cacheSize = Inr t' \<and>
    mt_initialVersion t' = mt_initialVersion t \<and> lastCommitInfo t' = lastCommitInfo t \<and> treesByName t' = treesByName t \<and>
    list_all2 same_tree (mt_trees t) (mt_trees t')"
  by (rule multi_tree_reload [OF assms])

theorem multi_tree_from_directory_witness:
  "\<exists>dir t'. mt_WriteSnapshotWithContext (\<lambda>_. False) sample_mt = Inr dir \<and> LoadMultiTree list_cache dir True 0 = Inr t' \<and>
    mt_initialVersion t' = 5 \<and> names (mt_trees t') = [[97], [98]]"
proof -
  have "CommitInfo_Size (lastCommitInfo sample_mt) < 2 ^ 62" "mt_Version sample_mt = 0"
    by (simp_all add: sample_mt_def CommitInfo_Size_def CommitInfo_zero_def size_int_field_def mt_Version_def)
  moreover have "list_all (\<lambda>e. root_writable (tree_root (nt_Tree e))) (mt_trees sample_mt)"
    by (simp add: sample_mt_def root_writable_def)
  ultimately obtain dir t' where "mt_WriteSnapshotWithContext (\<lambda>_. False) sample_mt = Inr dir"
    "LoadMultiTree list_cache dir True 0 = Inr t'" "mt_initialVersion t' = mt_initialVersion sample_mt"
    "list_all2 same_tree (mt_trees sample_mt) (mt_trees t')"
    using multi_tree_from_directory [OF mt_reachable_ok [OF list_cache_contract sample_mt_reachable], of "\<lambda>_. False" list_cache True 0]
    by auto
  then show ?thesis
    using same_names [of "mt_trees sample_mt" "mt_trees t'"] by (auto simp: sample_mt_def)
qed

text \<open>
  C27: versions and log indices correspond one to one. Converting a version to an index of the log
  and back gives the version, and the other way round, for every initial version; the first version
  of the chain has index 1, and the index of a later version is the successor of its predecessor's.
\<close>

theorem wal_index_round_trip:
  "walVersion (walIndex v initialVersion) initialVersion = v \<and>
   walIndex (walVersion index initialVersion) initialVersion = index \<and>
   walIndex (nextVersion 0 initialVersion) initialVersion = 1 \<and>
   (v = 0 \<or> walIndex (nextVersion v initialVersion) initialVersion = walIndex v initialVersion + 1)"
  by (simp add: walVersion_def walIndex_def nextVersion_def)

end
