(* ===== verification/Multi_Equiv.thy ===== *)
theory Multi_Equiv
  imports Multi_Replay
begin

text \<open>
  Multi-trees that differ only in their caches and snapshot handles. Every operation of
  \<open>src/memiavl/multitree.go\<close> that writes gives related results on related multi-trees, whatever
  caches the two use; a state of the engine can thus be compared with one that has no caches.
\<close>

section \<open>Related results\<close>

lemma rel_bind_res:
  assumes "rel_sum (=) A x y" "\<And>a b. A a b \<Longrightarrow> rel_sum (=) B (f a) (g b)"
  shows "rel_sum (=) B (bind_res x f) (bind_res y g)"
  using assms by (cases x; cases y) auto

lemma rel_res_Inr: "rel_sum (=) A x y \<Longrightarrow> x = Inr a \<Longrightarrow> \<exists>b. y = Inr b \<and> A a b"
  by (cases y) auto

section \<open>Trees\<close>

definition tree_equiv :: "'c tree \<Rightarrow> 'd tree \<Rightarrow> bool" where
  "tree_equiv t t' \<longleftrightarrow> tree_version t' = tree_version t \<and> tree_root t' = tree_root t"

lemma same_tree_equiv: "same_tree e e' \<longleftrightarrow> nt_Name e' = nt_Name e \<and> tree_equiv (nt_Tree e) (nt_Tree e')"
  by (auto simp: same_tree_def tree_equiv_def)

lemma tree_ApplyChangeSet_equiv:
  "tree_equiv t t' \<Longrightarrow> rel_option tree_equiv (tree_ApplyChangeSet ops ps t) (tree_ApplyChangeSet ops' ps t')"
proof (induction ps arbitrary: t t')
  case (Cons p ps)
  have "rel_option tree_equiv (tree_set ops t (kv_key p) (kv_value p)) (tree_set ops' t' (kv_key p) (kv_value p))"
    using Cons.prems
    by (cases "setRecursive (tree_root t) (kv_key p) (case kv_value p of None \<Rightarrow> [] | Some x \<Rightarrow> x) (tree_version t + 1)")
      (auto simp: tree_set_def tree_equiv_def)
  moreover have "rel_option tree_equiv (tree_remove ops t (kv_key p)) (tree_remove ops' t' (kv_key p))"
    using Cons.prems
    by (cases "removeRecursive (tree_root t) (kv_key p) (tree_version t + 1)") (auto simp: tree_remove_def tree_equiv_def)
  ultimately have "rel_option tree_equiv (if kv_delete p then tree_remove ops t (kv_key p) else tree_set ops t (kv_key p) (kv_value p))
      (if kv_delete p then tree_remove ops' t' (kv_key p) else tree_set ops' t' (kv_key p) (kv_value p))"
    by simp
  then show ?case
    by (cases rule: option.rel_cases) (use Cons.IH in simp_all)
qed simp

lemma NewWithInitialVersion_equiv:
  "rel_sum (=) tree_equiv (NewWithInitialVersion ops v n) (NewWithInitialVersion ops' v n')"
  by (simp add: NewWithInitialVersion_def tree_New_def NewEmptyTree_def tree_equiv_def)

section \<open>Multi-trees\<close>

definition mt_equiv :: "'c multi_tree \<Rightarrow> 'd multi_tree \<Rightarrow> bool" where
  "mt_equiv t t' \<longleftrightarrow> mt_initialVersion t' = mt_initialVersion t \<and> lastCommitInfo t' = lastCommitInfo t \<and>
     treesByName t' = treesByName t \<and> list_all2 same_tree (mt_trees t) (mt_trees t')"

lemma same_tree_refl: "same_tree e e"
  by (simp add: same_tree_def)

lemma mt_equiv_refl: "mt_equiv t t"
  by (simp add: mt_equiv_def list.rel_refl same_tree_refl)

lemma mt_equiv_sym: "mt_equiv t t' \<Longrightarrow> mt_equiv t' t"
  by (auto simp: mt_equiv_def list_all2_conv_all_nth same_tree_def)

lemma mt_equiv_trans: "mt_equiv t t' \<Longrightarrow> mt_equiv t' t'' \<Longrightarrow> mt_equiv t t''"
  by (auto simp: mt_equiv_def list_all2_conv_all_nth same_tree_def)

lemma mt_equiv_Version: "mt_equiv t t' \<Longrightarrow> mt_Version t' = mt_Version t"
  by (simp add: mt_equiv_def mt_Version_def)

lemma mt_equiv_next: "mt_equiv t t' \<Longrightarrow> mt_next t' = mt_next t"
  by (simp add: mt_equiv_def mt_Version_def)

lemma index_of_name_cong: "names xs = names ys \<Longrightarrow> index_of_name n xs = index_of_name n ys"
  by (induction xs arbitrary: ys) auto

lemma same_tree_update:
  assumes "list_all2 same_tree xs ys"
  shows "list_all2 same_tree (xs[i := (xs ! i)\<lparr>nt_Name := n\<rparr>]) (ys[i := (ys ! i)\<lparr>nt_Name := n\<rparr>])"
proof (cases "i < length xs")
  case True
  then have "same_tree (xs ! i) (ys ! i)"
    using assms by (simp add: list_all2_conv_all_nth)
  then show ?thesis
    using assms by (intro list_all2_update_cong) (simp_all add: same_tree_def)
next
  case False
  then show ?thesis
    using assms list_all2_lengthD [OF assms] by (simp add: list_update_beyond not_less)
qed

lemma same_tree_swap_delete:
  assumes "list_all2 same_tree xs ys" "i < length xs"
  defines "n \<equiv> length xs - 1"
  shows "list_all2 same_tree (take n (xs[i := xs ! n, n := xs ! i])) (take n (ys[i := ys ! n, n := ys ! i]))"
  using assms by (intro list_all2_takeI list_all2_update_cong) (auto simp: list_all2_conv_all_nth)

lemma apply_upgrade_equiv:
  assumes "mt_equiv t t'"
  shows "rel_sum (=) mt_equiv (apply_upgrade ops u t) (apply_upgrade ops' u t')"
proof -
  have trees: "list_all2 same_tree (mt_trees t) (mt_trees t')"
    using assms by (simp add: mt_equiv_def)
  note names = same_names [OF trees] list_all2_lengthD [OF trees]
  have index: "index_of_name n (mt_trees t') = index_of_name n (mt_trees t)" for n
    by (rule index_of_name_cong [OF names(1)])
  consider (delete) "up_Delete u" | (rename) "\<not> up_Delete u" "up_RenameFrom u \<noteq> []"
    | (add) "\<not> up_Delete u" "up_RenameFrom u = []"
    by blast
  then show ?thesis
  proof cases
    case delete
    show ?thesis
    proof (cases "index_of_name (up_Name u) (mt_trees t)")
      case (Some i)
      then have "i < length (mt_trees t)"
        by (simp add: index_of_name_Some)
      from same_tree_swap_delete [OF trees this] show ?thesis
        using delete assms Some names(2) by (simp add: apply_upgrade_def Let_def index mt_equiv_def)
    qed (simp add: apply_upgrade_def Let_def index delete)
  next
    case rename
    then show ?thesis
      using assms same_tree_update [OF trees] by (auto simp: apply_upgrade_def Let_def index mt_equiv_def split: option.split)
  next
    case add
    have "mt_next t' = mt_next t"
      by (rule mt_equiv_next [OF assms])
    with add assms show ?thesis
      unfolding apply_upgrade_def Let_def
      by (auto intro!: rel_bind_res [OF NewWithInitialVersion_equiv] list_all2_appendI simp: mt_equiv_def same_tree_equiv)
  qed
qed

lemma apply_upgrade_list_equiv:
  "mt_equiv t t' \<Longrightarrow> rel_sum (=) mt_equiv (apply_upgrade_list ops us t) (apply_upgrade_list ops' us t')"
  by (induction us arbitrary: t t') (auto intro!: rel_bind_res [OF apply_upgrade_equiv])

lemma sort_same_tree:
  assumes "list_all2 same_tree xs ys"
  shows "list_all2 same_tree (sort_key nt_Name xs) (sort_key nt_Name ys)"
proof -
  have insort: "list_all2 same_tree (insort_key nt_Name x xs) (insort_key nt_Name y ys)"
    if "same_tree x y" "list_all2 same_tree xs ys" for x y xs ys
    using that(2,1) by (induction rule: list_all2_induct) (auto simp: same_tree_def)
  from assms show ?thesis
    by (induction rule: list_all2_induct) (simp_all add: insort)
qed

lemma ApplyUpgrades_equiv:
  assumes "mt_equiv t t'"
  shows "rel_sum (=) mt_equiv (ApplyUpgrades ops us t) (ApplyUpgrades ops' us t')"
proof (cases "us = []")
  case False
  have "mt_equiv (t\<lparr>treesByName := Map.empty\<rparr>) (t'\<lparr>treesByName := Map.empty\<rparr>)"
    using assms by (simp add: mt_equiv_def)
  then have "rel_sum (=) mt_equiv (apply_upgrade_list ops us (t\<lparr>treesByName := Map.empty\<rparr>))
      (apply_upgrade_list ops' us (t'\<lparr>treesByName := Map.empty\<rparr>))"
    by (rule apply_upgrade_list_equiv)
  moreover have "rel_sum (=) mt_equiv (bind_res (rebuild_index (sort_key nt_Name (mt_trees a)) 0 Map.empty)
        (\<lambda>m. Inr (a\<lparr>mt_trees := sort_key nt_Name (mt_trees a), treesByName := m\<rparr>)))
      (bind_res (rebuild_index (sort_key nt_Name (mt_trees b)) 0 Map.empty)
        (\<lambda>m. Inr (b\<lparr>mt_trees := sort_key nt_Name (mt_trees b), treesByName := m\<rparr>)))"
    if "mt_equiv a b" for a b
  proof -
    have sorted: "list_all2 same_tree (sort_key nt_Name (mt_trees a)) (sort_key nt_Name (mt_trees b))"
      using that by (intro sort_same_tree) (simp add: mt_equiv_def)
    note names = same_names [OF this]
    have "index_from 0 (sort_key nt_Name (mt_trees b)) Map.empty = index_from 0 (sort_key nt_Name (mt_trees a)) Map.empty"
      using index_names_cong [OF names] by (simp add: index_names_from)
    with that sorted show ?thesis
      unfolding rebuild_index_eq names by (simp add: mt_equiv_def)
  qed
  ultimately show ?thesis
    unfolding ApplyUpgrades_def Let_def if_not_P [OF False] by (rule rel_bind_res)
qed (use assms in \<open>simp add: ApplyUpgrades_def\<close>)

lemma mt_ApplyChangeSet_equiv:
  assumes "mt_equiv t t'"
  shows "rel_sum (=) mt_equiv (mt_ApplyChangeSet ops n cs t) (mt_ApplyChangeSet ops' n cs t')"
proof -
  have trees: "list_all2 same_tree (mt_trees t) (mt_trees t')" "treesByName t' = treesByName t"
    using assms by (simp_all add: mt_equiv_def)
  note len = list_all2_lengthD [OF trees(1)]
  show ?thesis
  proof (cases "treesByName t n")
    case (Some i)
    show ?thesis
    proof (cases "i < length (mt_trees t)")
      case True
      then have st: "same_tree (mt_trees t ! i) (mt_trees t' ! i)"
        using trees(1) by (simp add: list_all2_conv_all_nth)
      then have "tree_equiv (nt_Tree (mt_trees t ! i)) (nt_Tree (mt_trees t' ! i))"
        by (simp add: same_tree_equiv)
      then have "rel_option tree_equiv (tree_ApplyChangeSet ops cs (nt_Tree (mt_trees t ! i)))
          (tree_ApplyChangeSet ops' cs (nt_Tree (mt_trees t' ! i)))"
        by (rule tree_ApplyChangeSet_equiv)
      then show ?thesis
        using Some True assms trees len st
        by (cases rule: option.rel_cases)
          (auto simp: mt_ApplyChangeSet_def mt_equiv_def same_tree_equiv intro!: list_all2_update_cong)
    qed (use Some len trees(2) in \<open>simp add: mt_ApplyChangeSet_def\<close>)
  qed (use trees(2) in \<open>simp add: mt_ApplyChangeSet_def\<close>)
qed

lemma mt_ApplyChangeSets_equiv:
  "mt_equiv t t' \<Longrightarrow> rel_sum (=) mt_equiv (mt_ApplyChangeSets ops css t) (mt_ApplyChangeSets ops' css t')"
  by (induction css arbitrary: t t') (auto intro!: rel_bind_res [OF mt_ApplyChangeSet_equiv])

lemma applyWALEntry_equiv:
  "mt_equiv t t' \<Longrightarrow> rel_sum (=) mt_equiv (applyWALEntry ops e t) (applyWALEntry ops' e t')"
  by (auto simp: applyWALEntry_def intro!: rel_bind_res [OF ApplyUpgrades_equiv] mt_ApplyChangeSets_equiv)

lemma save_trees_equiv:
  assumes "list_all2 same_tree xs ys"
  shows "rel_sum (=) (list_all2 same_tree) (save_trees b xs) (save_trees b ys)"
  using assms
proof (induction rule: list_all2_induct)
  case (Cons x xs y ys)
  have v: "tree_version (nt_Tree y) = tree_version (nt_Tree x)"
    using Cons(1) by (simp add: same_tree_def)
  show ?case
  proof (cases "tree_version (nt_Tree x) = 0xffffffff")
    case False
    then show ?thesis
      using Cons v by (auto simp: tree_SaveVersion_def Let_def same_tree_def intro!: rel_bind_res [OF Cons(3)])
  qed (simp add: tree_SaveVersion_def v)
qed simp

lemma buildCommitInfo_equiv: "list_all2 same_tree (mt_trees t) (mt_trees t') \<Longrightarrow> buildCommitInfo v t' = buildCommitInfo v t"
  by (auto simp: buildCommitInfo_def list_all2_conv_all_nth same_tree_def tree_RootHash_def intro!: nth_equalityI)

lemma ci_Version_build: "ci_Version (buildCommitInfo v t) = v"
  by (simp add: buildCommitInfo_def)

lemma mt_SaveVersion_equiv:
  assumes "mt_equiv t t'"
  shows "rel_sum (=) (rel_prod (=) mt_equiv) (mt_SaveVersion b t) (mt_SaveVersion b t')"
proof -
  have "list_all2 same_tree (mt_trees t) (mt_trees t')"
    using assms by (simp add: mt_equiv_def)
  from save_trees_equiv [OF this, of b] show ?thesis
    using assms unfolding mt_SaveVersion_def Let_def
    by (cases "save_trees b (mt_trees t)"; cases "save_trees b (mt_trees t')")
      (auto simp: mt_equiv_def mt_Version_def UpdateCommitInfo_def ci_Version_build intro!: buildCommitInfo_equiv)
qed

lemma commit_equiv: "mt_equiv t t' \<Longrightarrow> rel_sum (=) mt_equiv (commit ops e t) (commit ops' e t')"
  unfolding commit_def
  by (rule rel_bind_res [OF applyWALEntry_equiv], assumption, rule rel_bind_res [OF mt_SaveVersion_equiv]) auto

lemma commits_equiv: "mt_equiv t t' \<Longrightarrow> rel_sum (=) mt_equiv (commits ops es t) (commits ops' es t')"
  by (induction es arbitrary: t t') (auto intro!: rel_bind_res [OF commit_equiv])

lemma mt_Copy_equiv: "mt_ok view t \<Longrightarrow> mt_equiv t (mt_Copy ops n t)"
  by (auto simp: mt_equiv_def mt_Copy_def Let_def mt_ok_def list_all2_map2 same_tree_def tree_Copy_def o_def
      intro!: list.rel_refl_strong index_names_cong)

lemma write_trees_equiv: "list_all2 same_tree xs ys \<Longrightarrow> write_trees ctx ys = write_trees ctx xs"
  by (induction rule: list_all2_induct) (simp_all add: same_tree_def)

lemma mt_WriteSnapshot_equiv:
  "mt_equiv t t' \<Longrightarrow> mt_WriteSnapshotWithContext ctx t' = mt_WriteSnapshotWithContext ctx t"
  using write_trees_equiv [of "mt_trees t" "mt_trees t'" ctx] by (simp add: mt_equiv_def mt_WriteSnapshotWithContext_def)

section \<open>The invariant without caches\<close>

text \<open>With a view that shows nothing of a cache, \<open>mt_ok\<close> only speaks about nodes and names.\<close>

abbreviation no_view :: "'c \<Rightarrow> bytes \<rightharpoonup> bytes" where
  "no_view \<equiv> \<lambda>_. Map.empty"

abbreviation mt_sound :: "'c multi_tree \<Rightarrow> bool" where
  "mt_sound \<equiv> mt_ok no_view"

lemma mt_sound_equiv:
  assumes "mt_equiv t t'" "mt_sound t"
  shows "mt_sound t'"
proof -
  have trees: "list_all2 same_tree (mt_trees t) (mt_trees t')"
    using assms(1) by (simp add: mt_equiv_def)
  have "tree_at no_view (mt_next t) e'" if "e' \<in> set (mt_trees t')" for e'
  proof -
    from that obtain i where i: "i < length (mt_trees t')" "e' = mt_trees t' ! i"
      by (auto simp: in_set_conv_nth)
    then have st: "same_tree (mt_trees t ! i) e'" "mt_trees t ! i \<in> set (mt_trees t)"
      using trees by (auto simp: list_all2_conv_all_nth)
    then have "tree_at no_view (mt_next t) (mt_trees t ! i)"
      using assms(2) by (simp add: mt_ok_def)
    with st(1) show ?thesis
      by (simp add: tree_at_def tree_ok_def same_tree_def)
  qed
  then have "\<forall>e \<in> set (mt_trees t'). tree_at no_view (mt_next t') e"
    unfolding mt_equiv_next [OF assms(1)] by blast
  moreover have "treesByName t' = index_names (mt_trees t')"
    using assms index_names_cong [OF same_names [OF trees]] by (simp only: mt_ok_def mt_equiv_def)
  moreover have "ascending (names (mt_trees t'))"
    using assms(2) unfolding same_names [OF trees] by (simp add: mt_ok_def)
  ultimately show ?thesis
    unfolding mt_ok_def by blast
qed

text \<open>An engine whose trees have no caches, as the reference.\<close>

definition no_cache :: "unit cache_ops" where
  "no_cache = \<lparr>cache_New = \<lambda>_. (), cache_Add = \<lambda>_ _ c. c, cache_Get = \<lambda>_ c. (None, c), cache_Remove = \<lambda>_ c. c\<rparr>"

lemma no_cache_contract: "cache_contract no_cache no_view"
  by (simp add: cache_contract_def no_cache_def map_le_def)

end
