(* ===== verification/Db_Files.thy ===== *)
theory Db_Files
  imports Prelude Protobuf
begin

text \<open>
  The snapshot directories of a database: their names, and the search among them
  (\<open>snapshotName\<close>, \<open>parseVersion\<close>, \<open>traverseSnapshots\<close>, \<open>seekSnapshot\<close>, \<open>firstSnapshotVersion\<close> of
  \<open>src/memiavl/db.go\<close>). The entries of a directory come in the order of \<open>os.ReadDir\<close>, sorted by
  name; each is a name and whether it is a directory. An \<open>int64\<close> is its integer value.
\<close>

section \<open>Names\<close>

definition digit :: "nat \<Rightarrow> char" where
  "digit d = char_of (48 + d)"

text \<open>\<open>%0wd\<close>: the last \<open>w\<close> decimal digits; an \<open>int64\<close> has at most 19.\<close>

fun pad_digits :: "nat \<Rightarrow> nat \<Rightarrow> string" where
  "pad_digits 0 v = []"
| "pad_digits (Suc w) v = pad_digits w (v div 10) @ [digit (v mod 10)]"

definition SnapshotPrefix :: string where
  "SnapshotPrefix = ''snapshot-''"

definition SnapshotDirLen :: nat where
  "SnapshotDirLen = length SnapshotPrefix + 20"

definition snapshotName :: "int \<Rightarrow> string" where
  "snapshotName version =
     SnapshotPrefix @ (if version < 0 then CHR ''-'' # pad_digits 19 (nat (- version)) else pad_digits 20 (nat version))"

definition isSnapshotName :: "string \<Rightarrow> bool" where
  "isSnapshotName name \<longleftrightarrow> take (length SnapshotPrefix) name = SnapshotPrefix \<and> length name = SnapshotDirLen"

text \<open>\<open>strconv.ParseInt(s, 10, 32)\<close>; \<open>None\<close> is a syntax or a range error.\<close>

fun parse_digits :: "string \<Rightarrow> nat \<Rightarrow> nat option" where
  "parse_digits [] n = Some n"
| "parse_digits (c # cs) n =
     (if CHR ''0'' \<le> c \<and> c \<le> CHR ''9'' then parse_digits cs (10 * n + (of_char c - 48)) else None)"

definition ParseInt32 :: "string \<Rightarrow> int option" where
  "ParseInt32 s =
     (case s of
        [] \<Rightarrow> None
      | c # cs \<Rightarrow>
          let neg = (c = CHR ''-''); ds = (if c = CHR ''+'' \<or> c = CHR ''-'' then cs else s) in
          if ds = [] then None
          else case parse_digits ds 0 of
            None \<Rightarrow> None
          | Some n \<Rightarrow>
              if \<not> neg \<and> n \<ge> 2 ^ 31 then None
              else if neg \<and> n > 2 ^ 31 then None
              else Some (if neg then - int n else int n))"

definition parseVersion :: "string \<Rightarrow> int res" where
  "parseVersion name =
     (if \<not> isSnapshotName name then Inl (Error ''invalid snapshot name'')
      else case ParseInt32 (drop (length SnapshotPrefix) name) of
        None \<Rightarrow> Inl (Error ''snapshot version overflows'')
      | Some v \<Rightarrow> Inr v)"

section \<open>Searching\<close>

fun traverse :: "(string \<times> bool) list \<Rightarrow> (int \<Rightarrow> 's \<Rightarrow> (bool \<times> 's) res) \<Rightarrow> 's \<Rightarrow> 's res" where
  "traverse [] callback s = Inr s"
| "traverse ((name, isDir) # entries) callback s =
     (if \<not> isDir \<or> \<not> isSnapshotName name then traverse entries callback s
      else
        bind_res (parseVersion name) (\<lambda>version.
          bind_res (callback version s) (\<lambda>(stop, s).
            if stop then Inr s else traverse entries callback s)))"

definition traverseSnapshots ::
    "(string \<times> bool) list \<Rightarrow> bool \<Rightarrow> (int \<Rightarrow> 's \<Rightarrow> (bool \<times> 's) res) \<Rightarrow> 's \<Rightarrow> 's res" where
  "traverseSnapshots entries asc callback s = traverse (if asc then entries else rev entries) callback s"

definition seek_callback :: "int \<Rightarrow> int \<Rightarrow> bool \<times> int \<Rightarrow> (bool \<times> bool \<times> int) res" where
  "seek_callback targetVersion version found =
     (if version \<le> targetVersion then Inr (True, (True, version)) else Inr (False, found))"

definition seekSnapshot :: "(string \<times> bool) list \<Rightarrow> u32 \<Rightarrow> int res" where
  "seekSnapshot entries targetVersion =
     bind_res (traverseSnapshots entries False (seek_callback (uint targetVersion)) (False, 0))
     (\<lambda>(found, snapshotVersion).
       if \<not> found then Inl (Error ''target version is pruned'') else Inr snapshotVersion)"

definition firstSnapshotVersion :: "(string \<times> bool) list \<Rightarrow> int res" where
  "firstSnapshotVersion entries =
     bind_res (traverseSnapshots entries True (\<lambda>version found. Inr (True, version)) 0)
     (\<lambda>found. if found = 0 then Inl (Error ''empty memiavl db'') else Inr found)"

section \<open>Names and versions\<close>

lemma length_pad_digits [simp]: "length (pad_digits w v) = w"
  by (induction w arbitrary: v) simp_all

lemma of_char_digit: "d < 10 \<Longrightarrow> (of_char (digit d) :: nat) = 48 + d"
  by (simp add: digit_def take_bit_nat_eq_self_iff)

lemma digit_range: "d < 10 \<Longrightarrow> CHR ''0'' \<le> digit d \<and> digit d \<le> CHR ''9''"
  by (simp add: less_eq_char_def of_char_digit)

lemma parse_digits_append:
  "parse_digits (s @ t) n = (case parse_digits s n of None \<Rightarrow> None | Some m \<Rightarrow> parse_digits t m)"
  by (induction s arbitrary: n) auto

lemma parse_pad_digits: "v < 10 ^ w \<Longrightarrow> parse_digits (pad_digits w v) n = Some (n * 10 ^ w + v)"
proof (induction w arbitrary: v)
  case (Suc w)
  have "v div 10 < 10 ^ w"
    using Suc.prems by (simp add: less_mult_imp_div_less mult.commute)
  then show ?case
    using Suc.IH [of "v div 10"] digit_range [of "v mod 10"] of_char_digit [of "v mod 10"]
    by (simp add: parse_digits_append algebra_simps)
qed simp

lemma pad_digits_Cons: "\<exists>c cs. pad_digits (Suc w) v = c # cs \<and> CHR ''0'' \<le> c \<and> c \<le> CHR ''9''"
proof (induction w arbitrary: v)
  case 0
  show ?case
    using digit_range [of "v mod 10"] by simp
next
  case (Suc w)
  from Suc [of "v div 10"] show ?case
    by (metis append_Cons pad_digits.simps(2))
qed

lemma isSnapshotName_snapshotName: "isSnapshotName (snapshotName v)"
  by (simp add: isSnapshotName_def snapshotName_def SnapshotPrefix_def SnapshotDirLen_def)

lemma parse_snapshotName:
  assumes "0 \<le> v" "v < 10 ^ 20"
  shows "parseVersion (snapshotName v) = (if v < 2 ^ 31 then Inr v else Inl (Error ''snapshot version overflows''))"
proof -
  obtain c cs where c: "pad_digits 20 (nat v) = c # cs" "CHR ''0'' \<le> c" "c \<le> CHR ''9''"
    using pad_digits_Cons [of 19 "nat v"] by auto
  then have sign: "c \<noteq> CHR ''+''" "c \<noteq> CHR ''-''"
    by (auto simp: less_eq_char_def)
  have "nat v < 10 ^ 20"
    using assms by (simp add: nat_less_iff)
  from parse_pad_digits [OF this, of 0] have "parse_digits (c # cs) 0 = Some (nat v)"
    using c(1) by simp
  then have "ParseInt32 (c # cs) = (if nat v \<ge> 2 ^ 31 then None else Some v)"
    using sign assms(1) by (simp add: ParseInt32_def Let_def del: parse_digits.simps)
  moreover have "drop (length SnapshotPrefix) (snapshotName v) = c # cs"
    using assms(1) c(1) by (simp add: snapshotName_def)
  ultimately show ?thesis
    using isSnapshotName_snapshotName [of v] assms(1) by (auto simp: parseVersion_def nat_le_iff not_less le_nat_iff)
qed

lemma snoc_less:
  "length xs = length ys \<Longrightarrow> xs @ [x] < ys @ [y] \<longleftrightarrow> xs < ys \<or> xs = ys \<and> x < (y :: 'a::linorder)"
  by (induction xs ys rule: list_induct2) auto

lemma digit_less: "a < 10 \<Longrightarrow> b < 10 \<Longrightarrow> digit a < digit b \<longleftrightarrow> a < b"
  by (simp add: less_char_def of_char_digit)

lemma pad_digits_inj: "a < 10 ^ w \<Longrightarrow> b < 10 ^ w \<Longrightarrow> pad_digits w a = pad_digits w b \<longleftrightarrow> a = b"
  using parse_pad_digits [of a w 0] parse_pad_digits [of b w 0] by (metis add_left_cancel option.inject)

lemma pad_digits_less: "a < 10 ^ w \<Longrightarrow> b < 10 ^ w \<Longrightarrow> pad_digits w a < pad_digits w b \<longleftrightarrow> a < b"
proof (induction w arbitrary: a b)
  case (Suc w)
  have div: "a div 10 < 10 ^ w" "b div 10 < 10 ^ w"
    using Suc.prems by (simp_all add: less_mult_imp_div_less mult.commute)
  have "10 * p + x < 10 * q + y \<longleftrightarrow> p < q \<or> p = q \<and> x < y" if "x < 10" "y < 10" for p q x y :: nat
    using that by auto
  from this [of "a mod 10" "b mod 10" "a div 10" "b div 10"]
  have "a < b \<longleftrightarrow> a div 10 < b div 10 \<or> a div 10 = b div 10 \<and> a mod 10 < b mod 10"
    by simp
  then show ?case
    using Suc.IH [OF div] pad_digits_inj [OF div] by (simp add: snoc_less digit_less)
qed simp

lemma append_less_same: "xs @ ys < xs @ zs \<longleftrightarrow> ys < (zs :: 'a::linorder list)"
  by (induction xs) simp_all

lemma snapshotName_less:
  assumes "0 \<le> a" "a < 2 ^ 31" "0 \<le> b" "b < 2 ^ 31"
  shows "snapshotName a \<le> snapshotName b \<longleftrightarrow> a \<le> b"
proof -
  have "nat a < 10 ^ 20" "nat b < 10 ^ 20"
    using assms by (simp_all add: nat_less_iff)
  then have "pad_digits 20 (nat b) < pad_digits 20 (nat a) \<longleftrightarrow> nat b < nat a"
    by (intro pad_digits_less)
  also have "\<dots> \<longleftrightarrow> b < a"
    using assms(3) by linarith
  finally have "snapshotName b < snapshotName a \<longleftrightarrow> b < a"
    using assms(1,3) by (simp add: snapshotName_def append_less_same)
  then show ?thesis
    by (metis not_less)
qed

section \<open>Correctness of the search\<close>

text \<open>Directories with a snapshot name are those of versions below 2^31.\<close>

definition well_named :: "string \<times> bool \<Rightarrow> bool" where
  "well_named e \<longleftrightarrow> \<not> snd e \<or> \<not> isSnapshotName (fst e) \<or> (\<exists>v. 0 \<le> v \<and> v < 2 ^ 31 \<and> fst e = snapshotName v)"

definition versions :: "(string \<times> bool) list \<Rightarrow> int set" where
  "versions entries = {v. 0 \<le> v \<and> v < 2 ^ 31 \<and> (snapshotName v, True) \<in> set entries}"

lemma snapshotName_inj: "0 \<le> a \<Longrightarrow> a < 2 ^ 31 \<Longrightarrow> 0 \<le> b \<Longrightarrow> b < 2 ^ 31 \<Longrightarrow> snapshotName a = snapshotName b \<Longrightarrow> a = b"
  using snapshotName_less [of a b] snapshotName_less [of b a] by simp

lemma versions_simps:
  "versions [] = {}"
  "\<not> isDir \<or> \<not> isSnapshotName name \<Longrightarrow> versions ((name, isDir) # es) = versions es"
  "0 \<le> v \<Longrightarrow> v < 2 ^ 31 \<Longrightarrow> versions ((snapshotName v, True) # es) = insert v (versions es)"
  using isSnapshotName_snapshotName snapshotName_inj by (auto simp: versions_def)

lemma finite_versions: "finite (versions es)"
  by (rule finite_subset [of _ "{0..<2 ^ 31}"]) (auto simp: versions_def)

lemma parse_known: "0 \<le> v \<Longrightarrow> v < 2 ^ 31 \<Longrightarrow> parseVersion (snapshotName v) = Inr v"
  using parse_snapshotName [of v] by simp

lemma well_named_cases:
  assumes "well_named (name, isDir)"
  obtains (other) "\<not> isDir \<or> \<not> isSnapshotName name"
    | (snapshot) v where "0 \<le> v" "v < 2 ^ 31" "name = snapshotName v" "isDir"
  using assms by (auto simp: well_named_def)

lemma traverse_seek:
  assumes "sorted_wrt (\<ge>) (map fst es)" "list_all well_named es"
  shows "traverse es (seek_callback target) (False, 0) =
    Inr (if {v \<in> versions es. v \<le> target} = {} then (False, 0) else (True, Max {v \<in> versions es. v \<le> target}))"
  using assms
proof (induction es)
  case Nil
  then show ?case by (simp add: versions_simps)
next
  case (Cons e es)
  obtain name isDir where e: "e = (name, isDir)" by fastforce
  have IH: "traverse es (seek_callback target) (False, 0) =
      Inr (if {v \<in> versions es. v \<le> target} = {} then (False, 0) else (True, Max {v \<in> versions es. v \<le> target}))"
    by (rule Cons.IH) (use Cons.prems in simp_all)
  have "well_named (name, isDir)"
    using Cons.prems(2) by (simp add: e)
  then show ?case
  proof (cases rule: well_named_cases)
    case other
    then have "traverse (e # es) (seek_callback target) (False, 0) = traverse es (seek_callback target) (False, 0)"
      by (auto simp: e)
    with other show ?thesis
      unfolding IH by (simp add: e versions_simps)
  next
    case (snapshot v)
    have le: "w \<le> v" if "w \<in> versions es" for w
    proof -
      have "(snapshotName w, True) \<in> set es" "0 \<le> w" "w < 2 ^ 31"
        using that by (simp_all add: versions_def)
      moreover have "snapshotName w \<le> snapshotName v"
        using Cons.prems(1) calculation(1) snapshot(3) by (force simp: e)
      ultimately show ?thesis
        using snapshotName_less [of w v] snapshot(1,2) by blast
    qed
    have step: "traverse (e # es) (seek_callback target) (False, 0) =
        (if v \<le> target then Inr (True, v) else traverse es (seek_callback target) (False, 0))"
      using snapshot isSnapshotName_snapshotName by (simp add: e parse_known seek_callback_def)
    show ?thesis
    proof (cases "v \<le> target")
      case True
      have "Max {w \<in> versions (e # es). w \<le> target} = v"
        using True snapshot le finite_versions by (intro Max_eqI) (auto simp: e versions_simps)
      moreover have "v \<in> {w \<in> versions (e # es). w \<le> target}"
        using True snapshot by (simp add: e versions_simps)
      ultimately show ?thesis
        using True unfolding step by auto
    next
      case False
      then have "{w \<in> versions (e # es). w \<le> target} = {w \<in> versions es. w \<le> target}"
        using snapshot by (auto simp: e versions_simps)
      then show ?thesis
        unfolding step using False IH by simp
    qed
  qed
qed

lemma traverse_first:
  assumes "sorted (map fst es)" "list_all well_named es"
  shows "traverse es (\<lambda>version found. Inr (True, version)) 0 = Inr (if versions es = {} then 0 else Min (versions es))"
  using assms
proof (induction es)
  case Nil
  then show ?case by (simp add: versions_simps)
next
  case (Cons e es)
  obtain name isDir where e: "e = (name, isDir)" by fastforce
  have "well_named (name, isDir)"
    using Cons.prems(2) by (simp add: e)
  then show ?case
  proof (cases rule: well_named_cases)
    case other
    then show ?thesis
      using Cons by (auto simp: e versions_simps)
  next
    case (snapshot v)
    have "v \<le> w" if "w \<in> versions es" for w
    proof -
      have "(snapshotName w, True) \<in> set es" "0 \<le> w" "w < 2 ^ 31"
        using that by (simp_all add: versions_def)
      moreover have "snapshotName v \<le> snapshotName w"
        using Cons.prems(1) calculation(1) snapshot(3) by (force simp: e)
      ultimately show ?thesis
        using snapshotName_less [of v w] snapshot(1,2) by blast
    qed
    then have "Min (versions (e # es)) = v"
      using snapshot finite_versions by (intro Min_eqI) (auto simp: e versions_simps)
    then show ?thesis
      using snapshot isSnapshotName_snapshotName by (simp add: e parse_known versions_simps)
  qed
qed

text \<open>
  C29: names of snapshots. The name of a version below 2^31 parses back to the version; the name of a
  larger version, which the rest of the code allows up to 2^32 - 1, is rejected as an overflow.
\<close>

theorem snapshot_name_round_trip:
  assumes "0 \<le> v" "v < 10 ^ 19"
  shows "isSnapshotName (snapshotName v) \<and>
    parseVersion (snapshotName v) = (if v < 2 ^ 31 then Inr v else Inl (Error ''snapshot version overflows''))"
  using parse_snapshotName [of v] assms isSnapshotName_snapshotName by simp

theorem snapshot_name_round_trip_witness:
  "parseVersion (snapshotName 1000) = Inr 1000 \<and>
   parseVersion (snapshotName 4000000000) = Inl (Error ''snapshot version overflows'')"
  using snapshot_name_round_trip [of 1000] snapshot_name_round_trip [of 4000000000] by simp

text \<open>
  C30: the search finds the right snapshot. In a directory whose snapshots are those of versions below
  2^31, \<open>seekSnapshot\<close> returns the largest snapshot version that is at most the target, and an error when
  there is none, although it compares names and not numbers; \<open>firstSnapshotVersion\<close> returns the smallest
  version, and an error when there is none or when the smallest version is 0.
\<close>

theorem seek_snapshot_correct:
  assumes "sorted (map fst entries)" "list_all well_named entries"
  shows "seekSnapshot entries target =
      (let vs = {v \<in> versions entries. v \<le> uint target} in
       if vs = {} then Inl (Error ''target version is pruned'') else Inr (Max vs)) \<and>
    firstSnapshotVersion entries =
      (if versions entries = {} \<or> Min (versions entries) = 0 then Inl (Error ''empty memiavl db'')
       else Inr (Min (versions entries)))"
proof
  have "sorted_wrt (\<ge>) (map fst (rev entries))" "list_all well_named (rev entries)"
    using assms by (simp_all add: rev_map [symmetric] sorted_wrt_rev)
  moreover have "versions (rev entries) = versions entries"
    by (simp add: versions_def)
  ultimately have "traverse (rev entries) (seek_callback (uint target)) (False, 0) =
      Inr (if {v \<in> versions entries. v \<le> uint target} = {} then (False, 0)
        else (True, Max {v \<in> versions entries. v \<le> uint target}))"
    using traverse_seek [of "rev entries" "uint target"] by metis
  then show "seekSnapshot entries target =
      (let vs = {v \<in> versions entries. v \<le> uint target} in
       if vs = {} then Inl (Error ''target version is pruned'') else Inr (Max vs))"
    by (simp add: seekSnapshot_def traverseSnapshots_def Let_def)
  show "firstSnapshotVersion entries =
      (if versions entries = {} \<or> Min (versions entries) = 0 then Inl (Error ''empty memiavl db'')
       else Inr (Min (versions entries)))"
    using traverse_first [OF assms] by (simp add: firstSnapshotVersion_def traverseSnapshots_def)
qed

theorem seek_snapshot_correct_witness:
  "seekSnapshot [(''LOCK'', False), (snapshotName 5, True), (snapshotName 10, True), (''wal'', True)] 9 = Inr 5"
proof -
  let ?es = "[(''LOCK'', False), (snapshotName 5, True), (snapshotName 10, True), (''wal'', True)]"
  have "\<not> isSnapshotName ''wal''"
    by (simp add: isSnapshotName_def SnapshotDirLen_def)
  then have "versions ?es = {5, 10}"
    by (simp add: versions_simps)
  moreover have "well_named (snapshotName 5, True)" "well_named (snapshotName 10, True)"
    unfolding well_named_def by (rule disjI2, rule disjI2, rule exI [of _ 5], simp)
      (rule disjI2, rule disjI2, rule exI [of _ 10], simp)
  then have "list_all well_named ?es"
    using \<open>\<not> isSnapshotName ''wal''\<close> by (simp add: well_named_def)
  moreover have "sorted (map fst ?es)"
    using snapshotName_less [of 5 10] by (simp add: snapshotName_def SnapshotPrefix_def)
  moreover have "{v \<in> {5, 10 :: int}. v \<le> uint (9 :: u32)} = {5}"
    by auto
  ultimately show ?thesis
    using seek_snapshot_correct [of ?es 9] by simp
qed

end
