(* ===== verification/Db.thy ===== *)
theory Db
  imports Multi_Equiv Db_Files "HOL-Library.AList"
begin

text \<open>
  \<open>src/memiavl/db.go\<close>: the database on top of the multi-tree, with its directory of snapshots, its
  write-ahead log and its background tasks. The log of \<open>tidwall/wal\<close> is a parameter: the record of its
  operations on a state \<open>'w\<close>. A call that runs under the mutex of the database is one function; where
  it waits for another goroutine (a full channel, the log, a lock) it is cut into steps, with the point
  it has reached in \<open>db_pc\<close>. Calls that return an error end the use of the database, as the callers
  panic, so that no state is given for them, except where the code itself goes on after an error.
\<close>

section \<open>The directory\<close>

text \<open>
  The entries of the database directory by name: snapshot directories, and symbolic links with their
  targets. The lock file and the directory of the log are left out; nothing that lists the
  directory looks at them.
\<close>

record root_dir =
  root_dirs :: "(string \<times> multi_dir) list"
  root_links :: "(string \<times> string) list"

definition TmpSuffix :: string where
  "TmpSuffix = ''-tmp''"

definition ReadDir :: "root_dir \<Rightarrow> (string \<times> bool) list" where
  "ReadDir root = sort_key fst (map (\<lambda>(name, _). (name, True)) (root_dirs root) @ map (\<lambda>(name, _). (name, False)) (root_links root))"

definition os_RemoveAll :: "string \<Rightarrow> root_dir \<Rightarrow> root_dir" where
  "os_RemoveAll name root =
     \<lparr>root_dirs = AList.delete name (root_dirs root), root_links = AList.delete name (root_links root)\<rparr>"

definition empty_dir :: multi_dir where
  "empty_dir = \<lparr>metadata_file = None, dir_entries = []\<rparr>"

text \<open>\<open>os.Rename\<close> of a directory fails over a link or a directory that is not empty.\<close>

definition os_Rename_dir :: "string \<Rightarrow> string \<Rightarrow> root_dir \<Rightarrow> root_dir res" where
  "os_Rename_dir old new root =
     (case map_of (root_dirs root) old of
        None \<Rightarrow> Inl (Error ''rename: no such file or directory'')
      | Some d \<Rightarrow>
          if map_of (root_links root) new \<noteq> None then Inl (Error ''rename: not a directory'')
          else if (case map_of (root_dirs root) new of None \<Rightarrow> False | Some d' \<Rightarrow> d' \<noteq> empty_dir)
            then Inl (Error ''rename: directory not empty'')
          else Inr (root\<lparr>root_dirs := AList.update new d (AList.delete old (root_dirs root))\<rparr>))"

definition os_Rename_link :: "string \<Rightarrow> string \<Rightarrow> root_dir \<Rightarrow> root_dir res" where
  "os_Rename_link old new root =
     (case map_of (root_links root) old of
        None \<Rightarrow> Inl (Error ''rename: no such file or directory'')
      | Some target \<Rightarrow>
          if map_of (root_dirs root) new \<noteq> None then Inl (Error ''rename: file exists'')
          else Inr (root\<lparr>root_links := AList.update new target (AList.delete old (root_links root))\<rparr>))"

definition os_Symlink :: "string \<Rightarrow> string \<Rightarrow> root_dir \<Rightarrow> root_dir res" where
  "os_Symlink target name root =
     (if map_of (root_links root) name \<noteq> None \<or> map_of (root_dirs root) name \<noteq> None then Inl (Error ''symlink: file exists'')
      else Inr (root\<lparr>root_links := (name, target) # root_links root\<rparr>))"

text \<open>The directory behind a path, through a link; a missing one reads as an empty one.\<close>

definition open_dir :: "string \<Rightarrow> root_dir \<Rightarrow> multi_dir" where
  "open_dir name root =
     (let name = (case map_of (root_links root) name of None \<Rightarrow> name | Some target \<Rightarrow> target) in
      case map_of (root_dirs root) name of None \<Rightarrow> empty_dir | Some d \<Rightarrow> d)"

text \<open>Writing into a directory that exists replaces the files of the same name and keeps the others.\<close>

definition write_into :: "multi_dir \<Rightarrow> multi_dir \<Rightarrow> multi_dir" where
  "write_into new old =
     \<lparr>metadata_file = metadata_file new,
      dir_entries = sort_key fst (fold (\<lambda>(name, d). AList.update name d) (dir_entries new) (dir_entries old))\<rparr>"

definition write_dir :: "string \<Rightarrow> multi_dir \<Rightarrow> root_dir \<Rightarrow> root_dir" where
  "write_dir name new root =
     root\<lparr>root_dirs := AList.update name (case map_of (root_dirs root) name of None \<Rightarrow> new | Some old \<Rightarrow> write_into new old) (root_dirs root)\<rparr>"

definition currentPath :: string where
  "currentPath = ''current''"

definition currentTmpPath :: string where
  "currentTmpPath = ''current-tmp''"

definition updateCurrentSymlink :: "string \<Rightarrow> root_dir \<Rightarrow> root_dir res" where
  "updateCurrentSymlink snapshot root =
     bind_res (os_Symlink snapshot currentTmpPath root) (os_Rename_link currentTmpPath currentPath)"

definition currentVersion :: "root_dir \<Rightarrow> int res" where
  "currentVersion root =
     (case map_of (root_links root) currentPath of
        None \<Rightarrow> Inl (Error ''readlink: no such file or directory'')
      | Some name \<Rightarrow> parseVersion name)"

definition atomicRemoveDir :: "string \<Rightarrow> root_dir \<Rightarrow> root_dir res" where
  "atomicRemoveDir path root =
     bind_res (os_Rename_dir path (path @ TmpSuffix) root) (\<lambda>root. Inr (os_RemoveAll (path @ TmpSuffix) root))"

definition has_suffix :: "string \<Rightarrow> string \<Rightarrow> bool" where
  "has_suffix s suffix \<longleftrightarrow> length suffix \<le> length s \<and> drop (length s - length suffix) s = suffix"

definition removeTmpDirs :: "root_dir \<Rightarrow> root_dir" where
  "removeTmpDirs root =
     fold (\<lambda>(name, isDir) root. if \<not> isDir \<or> \<not> has_suffix name TmpSuffix then root else os_RemoveAll name root) (ReadDir root) root"

definition initEmptyDB :: "u32 \<Rightarrow> root_dir \<Rightarrow> root_dir res" where
  "initEmptyDB initialVersion root =
     bind_res (mt_WriteSnapshotWithContext (\<lambda>_. False) (NewEmptyMultiTree initialVersion 0 :: unit multi_tree)) (\<lambda>d.
       updateCurrentSymlink (snapshotName 0) (write_dir (snapshotName 0) d root))"

definition createDBIfNotExist :: "u32 \<Rightarrow> root_dir \<Rightarrow> root_dir res" where
  "createDBIfNotExist initialVersion root =
     (if metadata_file (open_dir currentPath root) = None then initEmptyDB initialVersion root else Inr root)"

section \<open>The log\<close>

record 'w wal_ops =
  w_LastIndex :: "'w \<Rightarrow> u64 res"
  w_Read :: "'w \<Rightarrow> u64 \<Rightarrow> bytes res"
  w_WriteBatch :: "(u64 \<times> bytes) list \<Rightarrow> 'w \<Rightarrow> 'w res"
  w_TruncateFront :: "u64 \<Rightarrow> 'w \<Rightarrow> 'w res"
  w_TruncateBack :: "u64 \<Rightarrow> 'w \<Rightarrow> 'w res"

definition reader :: "'w wal_ops \<Rightarrow> 'w \<Rightarrow> wal_log" where
  "reader wops w = \<lparr>wal_LastIndex = w_LastIndex wops w, wal_Read = w_Read wops w\<rparr>"

record wal_item =
  wi_index :: u64
  wi_data :: wal_entry

text \<open>An entry that the log already has is skipped.\<close>

definition writeEntry :: "u64 \<Rightarrow> wal_item \<Rightarrow> (u64 \<times> bytes) list \<Rightarrow> (u64 \<times> bytes) list res" where
  "writeEntry lastIndex entry batch =
     (case WALEntry_Marshal (wi_data entry) of
        None \<Rightarrow> Inl (Panic ''index out of range'')
      | Some bz \<Rightarrow> if wi_index entry \<le> lastIndex then Inr batch else Inr (batch @ [(wi_index entry, bz)]))"

fun writeEntries :: "u64 \<Rightarrow> wal_item list \<Rightarrow> (u64 \<times> bytes) list \<Rightarrow> (u64 \<times> bytes) list res" where
  "writeEntries lastIndex [] batch = Inr batch"
| "writeEntries lastIndex (entry # items) batch =
     bind_res (writeEntry lastIndex entry batch) (writeEntries lastIndex items)"

definition write_batch :: "'w wal_ops \<Rightarrow> wal_item list \<Rightarrow> 'w \<Rightarrow> 'w res" where
  "write_batch wops items w =
     bind_res (w_LastIndex wops w) (\<lambda>lastIndex.
     bind_res (writeEntries lastIndex items []) (\<lambda>batch. w_WriteBatch wops batch w))"

section \<open>The state\<close>

text \<open>
  The goroutine that writes the log receives a batch, then writes it; after an error it offers the
  error on \<open>walQuit\<close> and ends. The goroutine that rewrites the snapshot has a copy of the multi-tree,
  writes it to a temporary directory, renames the directory, makes the new link, renames the link,
  loads the new snapshot, replays the log and offers its result; after an error in the first steps it
  closes its channel. The goroutine that prunes has the directory entries to visit, the number of
  snapshots to keep and the version of the current one; then it truncates the log.
\<close>

datatype writer = Receiving | Writing "wal_item list" | Quit go_err

datatype 'c rewriter =
    Cloned "'c multi_tree" | Written "'c multi_tree" | Renamed "'c multi_tree" | Linked "'c multi_tree"
  | Current "'c multi_tree" | Loaded "'c multi_tree" | Result "'c multi_tree res" | Closed

datatype pruner = Starting | Visiting "(string \<times> bool) list" u32 int | Truncating

text \<open>
  Where the caller of \<open>Commit\<close> is: outside, sending the entry, checking the background tasks, waiting for
  the log before it switches to a new multi-tree, or waiting for the last pruning to end.
\<close>

datatype 'c pc =
    Idle | Sending wal_item u64 | Checking u64
  | Switching "'c multi_tree" u64 "go_err option" | Pruning u64 "go_err option"

record ('c, 'w) db =
  db_mt :: "'c multi_tree"
  db_root :: root_dir
  db_readOnly :: bool
  snapshotRewrite :: "'c rewriter option"
  snapshotKeepRecent :: u32
  snapshotInterval :: u32
  db_prune :: "pruner option"
  db_wal :: "'w option"
  walChanSize :: int
  walChan :: "wal_item list option"
  walQuit :: writer
  pendingLog :: wal_entry
  db_pc :: "'c pc"

abbreviation (input) "errReadOnly \<equiv> Error ''db is read-only''"

section \<open>Options\<close>

record options =
  CreateIfMissing :: bool
  InitialVersion :: u32
  ReadOnly :: bool
  InitialStores :: "bytes list"
  SnapshotKeepRecent :: u32
  SnapshotInterval :: u32
  TargetVersion :: u32
  AsyncCommitBuffer :: int
  ZeroCopy :: bool
  CacheSize :: int
  LoadForOverwriting :: bool
  SnapshotWriterLimit :: int

definition Validate :: "options \<Rightarrow> unit res" where
  "Validate opts =
     (if ReadOnly opts \<and> CreateIfMissing opts then Inl (Error ''can't create db in read-only mode'')
      else if ReadOnly opts \<and> LoadForOverwriting opts then Inl (Error ''can't rollback db in read-only mode'')
      else Inr ())"

definition FillDefaults :: "options \<Rightarrow> options" where
  "FillDefaults opts =
     (let opts = (if SnapshotInterval opts = 0 then opts\<lparr>SnapshotInterval := 1000\<rparr> else opts) in
      if SnapshotWriterLimit opts \<le> 0 then opts\<lparr>SnapshotWriterLimit := 4\<rparr> else opts)"

section \<open>Changes\<close>

definition db_ApplyUpgrades :: "'c cache_ops \<Rightarrow> tree_name_upgrade list \<Rightarrow> ('c, 'w) db \<Rightarrow> ('c, 'w) db res" where
  "db_ApplyUpgrades ops upgrades db =
     (if db_readOnly db then Inl errReadOnly
      else
        bind_res (ApplyUpgrades ops upgrades (db_mt db)) (\<lambda>mt.
          Inr (db\<lparr>db_mt := mt, pendingLog := (pendingLog db)\<lparr>Upgrades := Upgrades (pendingLog db) @ upgrades\<rparr>\<rparr>)))"

text \<open>The loop that looks for a pending change set of the same store and appends to the first one.\<close>

fun append_pairs :: "bytes \<Rightarrow> change_set \<Rightarrow> named_change_set list \<Rightarrow> named_change_set list option" where
  "append_pairs name changeSet [] = None"
| "append_pairs name changeSet (cs # css) =
     (if ncs_Name cs = name then Some (cs\<lparr>ncs_Changeset := ncs_Changeset cs @ changeSet\<rparr> # css)
      else map_option ((#) cs) (append_pairs name changeSet css))"

definition merge_change_set :: "bytes \<Rightarrow> change_set \<Rightarrow> named_change_set list \<Rightarrow> named_change_set list" where
  "merge_change_set name changeSet css =
     (case append_pairs name changeSet css of
        Some css \<Rightarrow> css
      | None \<Rightarrow> sort_key ncs_Name (css @ [\<lparr>ncs_Changeset = changeSet, ncs_Name = name\<rparr>]))"

definition applyChangeSet :: "'c cache_ops \<Rightarrow> bytes \<Rightarrow> change_set \<Rightarrow> ('c, 'w) db \<Rightarrow> ('c, 'w) db res" where
  "applyChangeSet ops name changeSet db =
     (if changeSet = [] then Inr db
      else if db_readOnly db then Inl errReadOnly
      else
        let db = db\<lparr>pendingLog := (pendingLog db)\<lparr>Changesets := merge_change_set name changeSet (Changesets (pendingLog db))\<rparr>\<rparr> in
        bind_res (mt_ApplyChangeSet ops name changeSet (db_mt db)) (\<lambda>mt. Inr (db\<lparr>db_mt := mt\<rparr>)))"

definition db_ApplyChangeSet :: "'c cache_ops \<Rightarrow> bytes \<Rightarrow> change_set \<Rightarrow> ('c, 'w) db \<Rightarrow> ('c, 'w) db res" where
  "db_ApplyChangeSet ops name changeSet db = (if changeSet = [] then Inr db else applyChangeSet ops name changeSet db)"

fun applyChangeSets_loop :: "'c cache_ops \<Rightarrow> named_change_set list \<Rightarrow> ('c, 'w) db \<Rightarrow> ('c, 'w) db res" where
  "applyChangeSets_loop ops [] db = Inr db"
| "applyChangeSets_loop ops (cs # css) db =
     bind_res (applyChangeSet ops (ncs_Name cs) (ncs_Changeset cs) db) (applyChangeSets_loop ops css)"

definition db_ApplyChangeSets :: "'c cache_ops \<Rightarrow> named_change_set list \<Rightarrow> ('c, 'w) db \<Rightarrow> ('c, 'w) db res" where
  "db_ApplyChangeSets ops changeSets db =
     (if changeSets = [] then Inr db
      else if db_readOnly db then Inl errReadOnly
      else if Changesets (pendingLog db) = [] then
        (let db = db\<lparr>pendingLog := (pendingLog db)\<lparr>Changesets := changeSets\<rparr>\<rparr> in
         bind_res (mt_ApplyChangeSets ops changeSets (db_mt db)) (\<lambda>mt. Inr (db\<lparr>db_mt := mt\<rparr>)))
      else applyChangeSets_loop ops changeSets db)"

section \<open>Loading\<close>

text \<open>The callback that removes the snapshots after the target version; a failure is only logged.\<close>

definition rollback_callback :: "int \<Rightarrow> int \<Rightarrow> root_dir \<Rightarrow> (bool \<times> root_dir) res" where
  "rollback_callback target version root =
     (if version \<le> target then Inr (True, root)
      else Inr (False, case atomicRemoveDir (snapshotName version) root of Inl _ \<Rightarrow> root | Inr root \<Rightarrow> root))"

definition rollback :: "'w wal_ops \<Rightarrow> options \<Rightarrow> string \<Rightarrow> 'c multi_tree \<Rightarrow> root_dir \<Rightarrow> 'w option \<Rightarrow> (root_dir \<times> 'w option) res" where
  "rollback wops opts snapshot mtree root wal =
     (case map_of (root_links root) currentPath of
        None \<Rightarrow> Inl (Error ''fail to read current version'')
      | Some currentSnapshot \<Rightarrow>
          bind_res (if snapshot \<noteq> currentSnapshot then updateCurrentSymlink snapshot root else Inr root) (\<lambda>root.
          case wal of
            None \<Rightarrow> Inl (Panic ''nil pointer dereference'')
          | Some w \<Rightarrow>
              bind_res (w_TruncateBack wops (walIndex (ucast (TargetVersion opts)) (mt_initialVersion mtree)) w) (\<lambda>w.
              bind_res (traverseSnapshots (ReadDir root) False (rollback_callback (uint (TargetVersion opts))) root) (\<lambda>root.
                Inr (root, Some w)))))"

definition load_tree :: "'c cache_ops \<Rightarrow> 'w wal_ops \<Rightarrow> options \<Rightarrow> string \<Rightarrow> root_dir \<Rightarrow> 'w option res \<Rightarrow> ('c multi_tree \<times> 'w option) res" where
  "load_tree ops wops opts snapshot root log =
     bind_res (LoadMultiTree ops (open_dir snapshot root) (ZeroCopy opts) (CacheSize opts)) (\<lambda>mtree.
     bind_res log (\<lambda>wal.
       if TargetVersion opts = 0 \<or> uint (TargetVersion opts) > sint (mt_Version mtree) then
         (case wal of
            None \<Rightarrow> Inl (Panic ''nil pointer dereference'')
          | Some w \<Rightarrow> bind_res (CatchupWAL ops (reader wops w) (ucast (TargetVersion opts)) mtree) (\<lambda>mtree. Inr (mtree, wal)))
       else Inr (mtree, wal)))"

definition new_db :: "options \<Rightarrow> 'c multi_tree \<Rightarrow> root_dir \<Rightarrow> 'w option \<Rightarrow> ('c, 'w) db" where
  "new_db opts mtree root wal =
     \<lparr>db_mt = mtree, db_root = root, db_readOnly = ReadOnly opts, snapshotRewrite = None,
      snapshotKeepRecent = SnapshotKeepRecent opts, snapshotInterval = SnapshotInterval opts, db_prune = None,
      db_wal = wal, walChanSize = AsyncCommitBuffer opts, walChan = None, walQuit = Receiving,
      pendingLog = WALEntry_zero, db_pc = Idle\<rparr>"

text \<open>
  \<open>Load\<close>, given whether another process holds the lock, and what \<open>OpenWAL\<close> returns for the log of the
  directory.
\<close>

definition Load :: "'c cache_ops \<Rightarrow> 'w wal_ops \<Rightarrow> bool \<Rightarrow> 'w option res \<Rightarrow> options \<Rightarrow> root_dir \<Rightarrow> ('c, 'w) db res" where
  "Load ops wops locked log opts root =
     bind_res (Validate opts) (\<lambda>_.
     let opts = FillDefaults opts in
     bind_res (if CreateIfMissing opts then createDBIfNotExist (InitialVersion opts) root else Inr root) (\<lambda>root.
     bind_res
       (if ReadOnly opts then Inr root
        else if locked then Inl (Error ''fail to lock db'')
        else Inr (removeTmpDirs root)) (\<lambda>root.
     bind_res
       (if TargetVersion opts > 0 then map_res snapshotName (seekSnapshot (ReadDir root) (TargetVersion opts))
        else Inr currentPath) (\<lambda>snapshot.
     bind_res (load_tree ops wops opts snapshot root log) (\<lambda>(mtree, wal).
     bind_res
       (if LoadForOverwriting opts \<and> TargetVersion opts > 0 then rollback wops opts snapshot mtree root wal
        else Inr (root, wal)) (\<lambda>(root, wal).
     let db = new_db opts mtree root wal in
     if \<not> ReadOnly opts \<and> mt_Version mtree = 0 \<and> InitialStores opts \<noteq> [] then
       db_ApplyUpgrades ops (map (\<lambda>name. \<lparr>up_Name = name, up_RenameFrom = [], up_Delete = False\<rparr>) (InitialStores opts)) db
     else Inr db))))))"

text \<open>\<open>SetInitialVersion\<close> writes an empty snapshot with the new initial version at once.\<close>

definition db_SetInitialVersion :: "u64 \<Rightarrow> ('c, 'w) db \<Rightarrow> ('c, 'w) db res" where
  "db_SetInitialVersion initialVersion db =
     (if db_readOnly db then Inl errReadOnly
      else if sint (mt_Version (db_mt db)) > 0 then Inl (Error ''initial version can only be set before any commit'')
      else
        bind_res (mt_SetInitialVersion initialVersion (db_mt db)) (\<lambda>mt.
        bind_res (initEmptyDB (mt_initialVersion mt) (db_root db)) (\<lambda>root.
          Inr (db\<lparr>db_mt := mt, db_root := root\<rparr>))))"

section \<open>Rewriting the snapshot\<close>

definition db_copy :: "'c cache_ops \<Rightarrow> int \<Rightarrow> ('c, 'w) db \<Rightarrow> ('c, 'w) db" where
  "db_copy ops cacheSize db =
     db\<lparr>db_mt := mt_Copy ops cacheSize (db_mt db), db_readOnly := False, snapshotRewrite := None, snapshotKeepRecent := 0,
       snapshotInterval := 0, db_prune := None, db_wal := None, walChanSize := 0, walChan := None, walQuit := Receiving,
       pendingLog := WALEntry_zero, db_pc := Idle\<rparr>"

text \<open>
  The steps of \<open>RewriteSnapshotWithContext\<close> on the directory: write into the temporary directory,
  which is removed after an error; rename it; make the temporary link; rename the link.
\<close>

abbreviation snapshot_dir :: "'c multi_tree \<Rightarrow> string" where
  "snapshot_dir mt \<equiv> snapshotName (sint (mt_Version mt))"

definition write_tmp :: "(u32 \<Rightarrow> bool) \<Rightarrow> 'c multi_tree \<Rightarrow> root_dir \<Rightarrow> unit res \<times> root_dir" where
  "write_tmp ctx_done mt root =
     (let path = snapshot_dir mt @ TmpSuffix in
      case mt_WriteSnapshotWithContext ctx_done mt of
        Inl err \<Rightarrow> (Inl err, os_RemoveAll path root)
      | Inr d \<Rightarrow> (Inr (), write_dir path d root))"

definition keep_root :: "root_dir res \<Rightarrow> root_dir \<Rightarrow> unit res \<times> root_dir" where
  "keep_root r root = (case r of Inl err \<Rightarrow> (Inl err, root) | Inr root \<Rightarrow> (Inr (), root))"

definition rename_tmp :: "'c multi_tree \<Rightarrow> root_dir \<Rightarrow> unit res \<times> root_dir" where
  "rename_tmp mt root = keep_root (os_Rename_dir (snapshot_dir mt @ TmpSuffix) (snapshot_dir mt) root) root"

definition link_tmp :: "'c multi_tree \<Rightarrow> root_dir \<Rightarrow> unit res \<times> root_dir" where
  "link_tmp mt root = keep_root (os_Symlink (snapshot_dir mt) currentTmpPath root) root"

definition rename_link :: "root_dir \<Rightarrow> unit res \<times> root_dir" where
  "rename_link root = keep_root (os_Rename_link currentTmpPath currentPath root) root"

definition then_root :: "unit res \<times> root_dir \<Rightarrow> (root_dir \<Rightarrow> unit res \<times> root_dir) \<Rightarrow> unit res \<times> root_dir" where
  "then_root x f = (case x of (Inl err, root) \<Rightarrow> (Inl err, root) | (Inr (), root) \<Rightarrow> f root)"

definition RewriteSnapshotWithContext :: "(u32 \<Rightarrow> bool) \<Rightarrow> ('c, 'w) db \<Rightarrow> unit res \<times> ('c, 'w) db" where
  "RewriteSnapshotWithContext ctx_done db =
     (if db_readOnly db then (Inl errReadOnly, db)
      else
        let (r, root) = then_root (then_root (then_root (write_tmp ctx_done (db_mt db) (db_root db))
          (rename_tmp (db_mt db))) (link_tmp (db_mt db))) rename_link
        in (r, db\<lparr>db_root := root\<rparr>))"

definition rewriteSnapshotBackground :: "'c cache_ops \<Rightarrow> ('c, 'w) db \<Rightarrow> ('c, 'w) db res" where
  "rewriteSnapshotBackground ops db =
     (if snapshotRewrite db \<noteq> None then Inl (Error ''there's another ongoing snapshot rewriting process'')
      else Inr (db\<lparr>snapshotRewrite := Some (Cloned (db_mt (db_copy ops 0 db)))\<rparr>))"

definition RewriteSnapshotBackground :: "'c cache_ops \<Rightarrow> ('c, 'w) db \<Rightarrow> ('c, 'w) db res" where
  "RewriteSnapshotBackground ops db = (if db_readOnly db then Inl errReadOnly else rewriteSnapshotBackground ops db)"

text \<open>An error is only logged. The interval is not 0, as \<open>FillDefaults\<close> sees to; else the modulus panics.\<close>

definition rewriteIfApplicable :: "'c cache_ops \<Rightarrow> u64 \<Rightarrow> ('c, 'w) db \<Rightarrow> ('c, 'w) db res" where
  "rewriteIfApplicable ops height db =
     (if snapshotInterval db = 0 then Inl (Panic ''integer divide by zero'')
      else if sint height mod uint (snapshotInterval db) \<noteq> 0 then Inr db
      else case rewriteSnapshotBackground ops db of Inl _ \<Rightarrow> Inr db | Inr db \<Rightarrow> Inr db)"

text \<open>One step of the goroutine; \<open>None\<close> when it has nothing to do. \<open>Closed\<close> follows an error that is only logged.\<close>

definition advance :: "unit res \<times> root_dir \<Rightarrow> 'c rewriter \<Rightarrow> ('c, 'w) db \<Rightarrow> ('c, 'w) db" where
  "advance r stage db =
     db\<lparr>db_root := snd r, snapshotRewrite := Some (case fst r of Inl _ \<Rightarrow> Closed | Inr _ \<Rightarrow> stage)\<rparr>"

definition rewrite_step :: "'c cache_ops \<Rightarrow> 'w wal_ops \<Rightarrow> (u32 \<Rightarrow> bool) \<Rightarrow> ('c, 'w) db \<Rightarrow> ('c, 'w) db option" where
  "rewrite_step ops wops ctx_done db =
     (case snapshotRewrite db of
        Some (Cloned mt) \<Rightarrow> Some (advance (write_tmp ctx_done mt (db_root db)) (Written mt) db)
      | Some (Written mt) \<Rightarrow> Some (advance (rename_tmp mt (db_root db)) (Renamed mt) db)
      | Some (Renamed mt) \<Rightarrow> Some (advance (link_tmp mt (db_root db)) (Linked mt) db)
      | Some (Linked mt) \<Rightarrow> Some (advance (rename_link (db_root db)) (Current mt) db)
      | Some (Current mt) \<Rightarrow>
          Some (db\<lparr>snapshotRewrite := Some
            (case LoadMultiTree ops (open_dir currentPath (db_root db)) (mt_zeroCopy mt) 0 of
               Inl err \<Rightarrow> Result (Inl err) | Inr mt' \<Rightarrow> Loaded mt')\<rparr>)
      | Some (Loaded mt) \<Rightarrow>
          Some (db\<lparr>snapshotRewrite := Some (Result
            (case db_wal db of
               None \<Rightarrow> Inl (Panic ''nil pointer dereference'')
             | Some w \<Rightarrow> CatchupWAL ops (reader wops w) 0 mt))\<rparr>)
      | _ \<Rightarrow> None)"

section \<open>Pruning\<close>

definition visit :: "string \<times> bool \<Rightarrow> u32 \<Rightarrow> int \<Rightarrow> root_dir \<Rightarrow> (u32 \<times> root_dir) option" where
  "visit entry counter cur root =
     (if \<not> snd entry \<or> \<not> isSnapshotName (fst entry) then Some (counter, root)
      else case parseVersion (fst entry) of
        Inl _ \<Rightarrow> None
      | Inr version \<Rightarrow>
          if version \<ge> cur then Some (counter, root)
          else if counter > 0 then Some (counter - 1, root)
          else Some (counter, case atomicRemoveDir (snapshotName version) root of Inl _ \<Rightarrow> root | Inr root \<Rightarrow> root))"

definition truncate_log :: "'w wal_ops \<Rightarrow> u32 \<Rightarrow> root_dir \<Rightarrow> 'w \<Rightarrow> 'w" where
  "truncate_log wops initialVersion root w =
     (let earliestVersion = (case firstSnapshotVersion (ReadDir root) of Inl _ \<Rightarrow> 0 | Inr v \<Rightarrow> v) in
      case w_TruncateFront wops (walIndex (of_int (earliestVersion + 1)) initialVersion) w of Inl _ \<Rightarrow> w | Inr w \<Rightarrow> w)"

text \<open>One step of the goroutine. Truncating after \<open>Close\<close> finds a nil log and panics: there is no next state.\<close>

definition prune_step :: "'w wal_ops \<Rightarrow> ('c, 'w) db \<Rightarrow> ('c, 'w) db option" where
  "prune_step wops db =
     (case db_prune db of
        None \<Rightarrow> None
      | Some Starting \<Rightarrow>
          (case currentVersion (db_root db) of
             Inl _ \<Rightarrow> Some (db\<lparr>db_prune := None\<rparr>)
           | Inr v \<Rightarrow> Some (db\<lparr>db_prune := Some (Visiting (rev (ReadDir (db_root db))) (snapshotKeepRecent db) v)\<rparr>))
      | Some (Visiting [] counter cur) \<Rightarrow> Some (db\<lparr>db_prune := Some Truncating\<rparr>)
      | Some (Visiting (e # es) counter cur) \<Rightarrow>
          (case visit e counter cur (db_root db) of
             None \<Rightarrow> Some (db\<lparr>db_prune := None\<rparr>)
           | Some (counter, root) \<Rightarrow> Some (db\<lparr>db_root := root, db_prune := Some (Visiting es counter cur)\<rparr>))
      | Some Truncating \<Rightarrow>
          (case db_wal db of
             None \<Rightarrow> None
           | Some w \<Rightarrow> Some (db\<lparr>db_wal := Some (truncate_log wops (mt_initialVersion (db_mt db)) (db_root db) w), db_prune := None\<rparr>)))"

section \<open>Commit\<close>

definition CommittedVersion :: "'w wal_ops \<Rightarrow> ('c, 'w) db \<Rightarrow> u64 res" where
  "CommittedVersion wops db =
     (case db_wal db of
        None \<Rightarrow> Inl (Panic ''nil pointer dereference'')
      | Some w \<Rightarrow>
          bind_res (w_LastIndex wops w) (\<lambda>lastIndex.
            if lastIndex = 0 then
              (case md_CommitInfo (mt_metadata (db_mt db)) of
                 None \<Rightarrow> Inl (Panic ''nil pointer dereference'')
               | Some ci \<Rightarrow> Inr (ci_Version ci))
            else Inr (walVersion lastIndex (mt_initialVersion (db_mt db)))))"

text \<open>\<open>Commit\<close> up to the send: save the version, then write the log or have the entry ready for the goroutine.\<close>

definition commit_begin :: "'w wal_ops \<Rightarrow> ('c, 'w) db \<Rightarrow> ('c, 'w) db res" where
  "commit_begin wops db =
     (if db_readOnly db then Inl errReadOnly
      else
        bind_res (mt_SaveVersion True (db_mt db)) (\<lambda>(v, mt).
          let db = db\<lparr>db_mt := mt\<rparr>;
              entry = \<lparr>wi_index = walIndex v (mt_initialVersion mt), wi_data = pendingLog db\<rparr>
          in case db_wal db of
               None \<Rightarrow> Inr (db\<lparr>pendingLog := WALEntry_zero, db_pc := Checking v\<rparr>)
             | Some w \<Rightarrow>
                 if walChanSize db \<ge> 0 then
                   (let db = (if walChan db = None then db\<lparr>walChan := Some [], walQuit := Receiving\<rparr> else db)
                    in Inr (db\<lparr>db_pc := Sending entry v\<rparr>))
                 else
                   bind_res (write_batch wops [entry] w) (\<lambda>w.
                     Inr (db\<lparr>db_wal := Some w, pendingLog := WALEntry_zero, db_pc := Checking v\<rparr>))))"

text \<open>
  The send: a buffered channel takes an entry while it is not full, an unbuffered one when the
  goroutine waits for it.
\<close>

definition chan_ready :: "int \<Rightarrow> wal_item list \<Rightarrow> writer \<Rightarrow> bool" where
  "chan_ready chanSize queue w \<longleftrightarrow> (if chanSize = 0 then queue = [] \<and> w = Receiving else int (length queue) < chanSize)"

definition commit_send :: "('c, 'w) db \<Rightarrow> ('c, 'w) db option" where
  "commit_send db =
     (case (db_pc db, walChan db) of
        (Sending entry v, Some queue) \<Rightarrow>
          if chan_ready (walChanSize db) queue (walQuit db)
          then Some (db\<lparr>walChan := Some (queue @ [entry]), pendingLog := WALEntry_zero, db_pc := Checking v\<rparr>)
          else None
      | _ \<Rightarrow> None)"

text \<open>The end of \<open>Commit\<close>: the errors of the two checks, then the rewrite at its interval.\<close>

definition commit_end :: "'c cache_ops \<Rightarrow> u64 \<Rightarrow> go_err option \<Rightarrow> ('c, 'w) db \<Rightarrow> ('c, 'w) db res" where
  "commit_end ops v err db =
     (case err of
        Some err \<Rightarrow> Inl err
      | None \<Rightarrow> map_res (\<lambda>db. db\<lparr>db_pc := Idle\<rparr>) (rewriteIfApplicable ops v db))"

definition checkAsyncCommit :: "('c, 'w) db \<Rightarrow> go_err option" where
  "checkAsyncCommit db =
     (case (walChan db, walQuit db) of
        (Some _, Quit err) \<Rightarrow> Some err
      | _ \<Rightarrow> None)"

text \<open>
  \<open>checkAsyncTasks\<close>: both checks run, without blocking. A result of the rewriting leads to the wait for
  the log; a closed channel gives the zero result, which is ignored.
\<close>

definition commit_check :: "'c cache_ops \<Rightarrow> ('c, 'w) db \<Rightarrow> ('c, 'w) db res option" where
  "commit_check ops db =
     (case db_pc db of
        Checking v \<Rightarrow>
          let err = checkAsyncCommit db in
          Some (case snapshotRewrite db of
            Some (Result (Inr mt)) \<Rightarrow> Inr (db\<lparr>snapshotRewrite := None, db_pc := Switching mt v err\<rparr>)
          | Some (Result (Inl e)) \<Rightarrow> Inl e
          | Some Closed \<Rightarrow> commit_end ops v err (db\<lparr>snapshotRewrite := None\<rparr>)
          | _ \<Rightarrow> commit_end ops v err db)
      | _ \<Rightarrow> None)"

definition reloadMultiTree :: "'c cache_ops \<Rightarrow> 'c multi_tree \<Rightarrow> ('c, 'w) db \<Rightarrow> ('c, 'w) db res" where
  "reloadMultiTree ops mtree db =
     bind_res (applyWALEntry ops (pendingLog db) mtree) (\<lambda>mt. Inr (db\<lparr>db_mt := mt\<rparr>))"

definition reload :: "'c cache_ops \<Rightarrow> ('c, 'w) db \<Rightarrow> ('c, 'w) db res" where
  "reload ops db =
     bind_res (LoadMultiTree ops (open_dir currentPath (db_root db)) (mt_zeroCopy (db_mt db)) (mt_cacheSize (db_mt db)))
       (\<lambda>mtree. reloadMultiTree ops mtree db)"

text \<open>One round of the loop that waits until the log has the current version; \<open>None\<close> is another round.\<close>

definition commit_wait :: "'c cache_ops \<Rightarrow> 'w wal_ops \<Rightarrow> ('c, 'w) db \<Rightarrow> ('c, 'w) db res option" where
  "commit_wait ops wops db =
     (case db_pc db of
        Switching mtree v err \<Rightarrow>
          (case CommittedVersion wops db of
             Inl e \<Rightarrow> Some (Inl e)
           | Inr committedVersion \<Rightarrow>
               if mt_Version (db_mt db) \<noteq> committedVersion then None
               else Some (case db_wal db of
                   None \<Rightarrow> Inl (Panic ''nil pointer dereference'')
                 | Some w \<Rightarrow>
                     bind_res (CatchupWAL ops (reader wops w) 0 mtree) (\<lambda>mtree.
                     bind_res (reloadMultiTree ops mtree db) (\<lambda>db. Inr (db\<lparr>db_pc := Pruning v err\<rparr>)))))
      | _ \<Rightarrow> None)"

definition commit_prune :: "'c cache_ops \<Rightarrow> ('c, 'w) db \<Rightarrow> ('c, 'w) db res option" where
  "commit_prune ops db =
     (case db_pc db of
        Pruning v err \<Rightarrow>
          if db_prune db \<noteq> None then None
          else Some (commit_end ops v err (db\<lparr>db_prune := Some Starting\<rparr>))
      | _ \<Rightarrow> None)"

section \<open>The goroutine that writes the log\<close>

definition channelBatchRecv :: "wal_item list \<Rightarrow> (wal_item list \<times> wal_item list) option" where
  "channelBatchRecv queue = (if queue = [] then None else Some (queue, []))"

definition writer_step :: "'w wal_ops \<Rightarrow> ('c, 'w) db \<Rightarrow> ('c, 'w) db option" where
  "writer_step wops db =
     (case (walChan db, walQuit db, db_wal db) of
        (Some queue, Receiving, Some w) \<Rightarrow>
          (case channelBatchRecv queue of
             None \<Rightarrow> None
           | Some (items, rest) \<Rightarrow> Some (db\<lparr>walChan := Some rest, walQuit := Writing items\<rparr>))
      | (Some queue, Writing items, Some w) \<Rightarrow>
          (case write_batch wops items w of
             Inl err \<Rightarrow> Some (db\<lparr>walQuit := Quit err\<rparr>)
           | Inr w \<Rightarrow> Some (db\<lparr>db_wal := Some w, walQuit := Receiving\<rparr>))
      | _ \<Rightarrow> None)"

text \<open>
  \<open>waitAsyncCommit\<close> closes the channel and waits until the goroutine has written what is left: its batch,
  then the entries of the channel.
\<close>

definition waitAsyncCommit :: "'w wal_ops \<Rightarrow> ('c, 'w) db \<Rightarrow> ('c, 'w) db res" where
  "waitAsyncCommit wops db =
     (case (walChan db, db_wal db) of
        (Some queue, Some w) \<Rightarrow>
          bind_res
            (case walQuit db of
               Quit err \<Rightarrow> Inl err
             | Writing items \<Rightarrow> write_batch wops items w
             | Receiving \<Rightarrow> Inr w) (\<lambda>w.
          bind_res (if queue = [] then Inr w else write_batch wops queue w) (\<lambda>w.
            Inr (db\<lparr>db_wal := Some w, walChan := None, walQuit := Receiving\<rparr>)))
      | _ \<Rightarrow> Inr db)"

text \<open>
  \<open>Close\<close> writes what is left, cancels the rewriting and waits for its result, \<open>None\<close> until then. The
  error returned is that of the asynchronous commit.
\<close>

definition rewriting_ended :: "'c rewriter option \<Rightarrow> bool" where
  "rewriting_ended r \<longleftrightarrow> (case r of None \<Rightarrow> True | Some (Result _) \<Rightarrow> True | Some Closed \<Rightarrow> True | _ \<Rightarrow> False)"

definition db_Close :: "'w wal_ops \<Rightarrow> ('c, 'w) db \<Rightarrow> ('c, 'w) db res option" where
  "db_Close wops db =
     (if \<not> rewriting_ended (snapshotRewrite db) then None
      else if db_wal db = None then Some (Inl (Panic ''nil pointer dereference''))
      else Some (bind_res (waitAsyncCommit wops db) (\<lambda>db.
        Inr (db\<lparr>snapshotRewrite := None, db_mt := mt_Close (db_mt db), db_wal := None\<rparr>))))"

definition db_UpdateCommitInfo :: "('c, 'w) db \<Rightarrow> ('c, 'w) db res" where
  "db_UpdateCommitInfo db =
     (if db_readOnly db then Inl (Panic ''can't update commit info in read-only mode'')
      else Inr (db\<lparr>db_mt := UpdateCommitInfo (db_mt db)\<rparr>))"

definition db_SaveVersion :: "bool \<Rightarrow> ('c, 'w) db \<Rightarrow> (u64 \<times> ('c, 'w) db) res" where
  "db_SaveVersion updateCommitInfo db =
     (if db_readOnly db then Inl errReadOnly
      else bind_res (mt_SaveVersion updateCommitInfo (db_mt db)) (\<lambda>(v, mt). Inr (v, db\<lparr>db_mt := mt\<rparr>)))"

text \<open>\<open>GetLatestVersion\<close>, given what \<open>OpenWAL\<close> returns. A missing directory is version 0.\<close>

definition GetLatestVersion :: "'w wal_ops \<Rightarrow> 'w option res \<Rightarrow> root_dir \<Rightarrow> u64 res" where
  "GetLatestVersion wops log root =
     (let dir = open_dir currentPath root in
      if metadata_file dir = None then Inr 0
      else
        bind_res (readMetadata dir) (\<lambda>metadata.
        bind_res log (\<lambda>wal.
        case wal of
          None \<Rightarrow> Inl (Panic ''nil pointer dereference'')
        | Some w \<Rightarrow>
            bind_res (w_LastIndex wops w) (\<lambda>lastIndex.
              Inr (walVersion lastIndex (ucast (md_InitialVersion metadata)))))))"

end
