(* ===== verification/Db_Pending.thy ===== *)
theory Db_Pending
  imports Db
begin

text \<open>
  The pending log of the database. \<open>ApplyChangeSets\<close> and \<open>ApplyChangeSet\<close> change the trees at once and
  merge the changes into one change set per store, sorted by name. Here it is shown that the merged
  log, applied to the trees from before, gives the same trees: change sets of different stores
  commute, and those of one store are appended in order.
\<close>

section \<open>Change sets of distinct stores\<close>

definition indexed :: "'c multi_tree \<Rightarrow> bool" where
  "indexed t \<longleftrightarrow> distinct (names (mt_trees t)) \<and> treesByName t = index_names (mt_trees t)"

lemma mt_ok_indexed: "mt_ok view t \<Longrightarrow> indexed t"
  using ascending_distinct by (auto simp: mt_ok_def indexed_def)

definition change_map :: "named_change_set list \<Rightarrow> bytes \<rightharpoonup> change_set" where
  "change_map css = map_of (map (\<lambda>cs. (ncs_Name cs, ncs_Changeset cs)) css)"

abbreviation change_names :: "named_change_set list \<Rightarrow> bytes list" where
  "change_names css \<equiv> map ncs_Name css"

lemma change_map_Nil [simp]: "change_map [] = Map.empty"
  by (simp add: change_map_def)

lemma change_map_Cons [simp]: "change_map (cs # css) = (change_map css)(ncs_Name cs \<mapsto> ncs_Changeset cs)"
  by (simp add: change_map_def)

lemma dom_change_map: "dom (change_map css) = ncs_Name ` set css"
  by (simp add: change_map_def dom_map_of_conv_image_fst image_image)

lemma map_eqI: "(\<And>n v. f n = Some v \<longleftrightarrow> g n = Some v) \<Longrightarrow> f = g"
  by (rule ext) (metis not_None_eq)

lemma change_map_permute:
  assumes "distinct (change_names css)" "mset css' = mset css"
  shows "change_map css' = change_map css"
proof -
  let ?p = "\<lambda>cs. (ncs_Name cs, ncs_Changeset cs)"
  have "mset (change_names css') = mset (change_names css)"
    using assms(2) by simp
  then have d: "distinct (map fst (map ?p css'))" "distinct (map fst (map ?p css))"
    using assms(1) mset_eq_imp_distinct_iff [of "change_names css'" "change_names css"] by (simp_all add: o_def)
  have "set css' = set css"
    using assms(2) by (rule mset_eq_setD)
  then have "map_of (map ?p css') n = Some cs \<longleftrightarrow> map_of (map ?p css) n = Some cs" for n cs
    using d by (simp only: map_of_eq_Some_iff set_map)
  then show ?thesis
    unfolding change_map_def by (intro map_eqI)
qed

text \<open>What a set of changes makes of the entry of a store, and when it succeeds.\<close>

definition changed :: "'c cache_ops \<Rightarrow> (bytes \<rightharpoonup> change_set) \<Rightarrow> 'c named_tree \<Rightarrow> 'c named_tree option" where
  "changed ops f e =
     (case f (nt_Name e) of
        None \<Rightarrow> Some e
      | Some cs \<Rightarrow> map_option (\<lambda>tree. e\<lparr>nt_Tree := tree\<rparr>) (tree_ApplyChangeSet ops cs (nt_Tree e)))"

abbreviation changed_to :: "'c cache_ops \<Rightarrow> (bytes \<rightharpoonup> change_set) \<Rightarrow> 'c named_tree \<Rightarrow> 'c named_tree \<Rightarrow> bool" where
  "changed_to ops f \<equiv> \<lambda>e e'. changed ops f e = Some e'"

definition applied :: "'c cache_ops \<Rightarrow> (bytes \<rightharpoonup> change_set) \<Rightarrow> 'c multi_tree \<Rightarrow> 'c multi_tree \<Rightarrow> bool" where
  "applied ops f t t' \<longleftrightarrow> dom f \<subseteq> set (names (mt_trees t)) \<and>
     (\<exists>trees. list_all2 (changed_to ops f) (mt_trees t) trees \<and> t' = t\<lparr>mt_trees := trees\<rparr>)"

lemma changed_Name: "changed ops f e = Some e' \<Longrightarrow> nt_Name e' = nt_Name e"
  by (auto simp: changed_def split: option.splits)

lemma changed_names: "list_all2 (changed_to ops f) trees trees' \<Longrightarrow> names trees' = names trees"
  by (induction rule: list_all2_induct) (auto dest: changed_Name)

lemma applied_indexed:
  assumes "applied ops f t t'" "indexed t"
  shows "indexed t'" "names (mt_trees t') = names (mt_trees t)"
proof -
  have n: "names (mt_trees t') = names (mt_trees t)" "treesByName t' = treesByName t"
    using assms(1) changed_names by (auto simp: applied_def)
  then show "names (mt_trees t') = names (mt_trees t)" by blast
  show "indexed t'"
    using assms(2) index_names_cong [OF n(1)] n by (simp add: indexed_def)
qed

lemma tree_ApplyChangeSet_append:
  "tree_ApplyChangeSet ops (ps @ qs) t = Option.bind (tree_ApplyChangeSet ops ps t) (tree_ApplyChangeSet ops qs)"
  by (induction ps arbitrary: t) (auto split: bind_splits)

lemma index_names_None:
  assumes "index_names trees n = None" "distinct (names trees)"
  shows "n \<notin> set (names trees)"
proof
  assume "n \<in> set (names trees)"
  then obtain i where "i < length trees" "nt_Name (trees ! i) = n"
    by (metis in_set_conv_nth length_map nth_map)
  then show False
    using assms index_names_Some [OF assms(2), of n i] by simp
qed

lemma changed_single:
  assumes "distinct (names trees)" "i < length trees"
  shows "list_all2 (changed_to ops [nt_Name (trees ! i) \<mapsto> cs]) trees trees' \<longleftrightarrow>
    (\<exists>tree. tree_ApplyChangeSet ops cs (nt_Tree (trees ! i)) = Some tree \<and> trees' = trees[i := (trees ! i)\<lparr>nt_Tree := tree\<rparr>])"
    (is "?l \<longleftrightarrow> ?r")
proof -
  have other: "changed ops [nt_Name (trees ! i) \<mapsto> cs] (trees ! j) = Some (trees ! j)" if "j < length trees" "j \<noteq> i" for j
  proof -
    have "nt_Name (trees ! j) \<noteq> nt_Name (trees ! i)"
      using assms that by (simp add: distinct_conv_nth)
    then show ?thesis by (simp add: changed_def)
  qed
  have at_i: "changed ops [nt_Name (trees ! i) \<mapsto> cs] (trees ! i) =
      map_option (\<lambda>tree. (trees ! i)\<lparr>nt_Tree := tree\<rparr>) (tree_ApplyChangeSet ops cs (nt_Tree (trees ! i)))"
    by (simp add: changed_def)
  show ?thesis
  proof
    assume l: ?l
    then have at: "\<And>j. j < length trees \<Longrightarrow> changed ops [nt_Name (trees ! i) \<mapsto> cs] (trees ! j) = Some (trees' ! j)"
      "length trees' = length trees"
      by (simp_all add: list_all2_conv_all_nth)
    obtain tree where tree: "tree_ApplyChangeSet ops cs (nt_Tree (trees ! i)) = Some tree"
      "trees' ! i = (trees ! i)\<lparr>nt_Tree := tree\<rparr>"
      using at(1) [OF assms(2)] at_i by auto
    have "trees' = trees[i := (trees ! i)\<lparr>nt_Tree := tree\<rparr>]"
    proof (rule nth_equalityI)
      show "trees' ! j = trees[i := (trees ! i)\<lparr>nt_Tree := tree\<rparr>] ! j" if "j < length trees'" for j
        using that at other tree(2) by (cases "j = i") auto
    qed (simp add: at(2))
    with tree(1) show ?r by blast
  next
    assume ?r
    then obtain tree where tree: "tree_ApplyChangeSet ops cs (nt_Tree (trees ! i)) = Some tree"
      "trees' = trees[i := (trees ! i)\<lparr>nt_Tree := tree\<rparr>]" by blast
    have "changed ops [nt_Name (trees ! i) \<mapsto> cs] (trees ! j) = Some (trees' ! j)" if "j < length trees" for j
      using that other at_i tree by (cases "j = i") auto
    then show ?l
      using tree(2) by (simp add: list_all2_conv_all_nth)
  qed
qed

lemma mt_ApplyChangeSet_applied:
  assumes "indexed t"
  shows "mt_ApplyChangeSet ops n cs t = Inr t' \<longleftrightarrow> applied ops [n \<mapsto> cs] t t'"
proof (cases "treesByName t n")
  case None
  then have "n \<notin> set (names (mt_trees t))"
    using assms by (intro index_names_None) (simp_all add: indexed_def)
  with None show ?thesis
    by (simp add: mt_ApplyChangeSet_def applied_def)
next
  case (Some i)
  have d: "distinct (names (mt_trees t))"
    using assms by (simp add: indexed_def)
  have i: "i < length (mt_trees t)" "nt_Name (mt_trees t ! i) = n"
    using assms Some index_names_Some [of "mt_trees t" n i] by (simp_all add: indexed_def)
  then have "dom [n \<mapsto> cs] \<subseteq> set (names (mt_trees t))"
    by auto
  moreover have "list_all2 (changed_to ops [n \<mapsto> cs]) (mt_trees t) trees' \<longleftrightarrow>
      (\<exists>tree. tree_ApplyChangeSet ops cs (nt_Tree (mt_trees t ! i)) = Some tree \<and>
        trees' = (mt_trees t)[i := (mt_trees t ! i)\<lparr>nt_Tree := tree\<rparr>])" for trees'
    using changed_single [OF d i(1), of ops cs] i(2) by simp
  ultimately have "applied ops [n \<mapsto> cs] t t' \<longleftrightarrow> (\<exists>tree. tree_ApplyChangeSet ops cs (nt_Tree (mt_trees t ! i)) = Some tree \<and>
      t' = t\<lparr>mt_trees := (mt_trees t)[i := (mt_trees t ! i)\<lparr>nt_Tree := tree\<rparr>]\<rparr>)"
    by (auto simp: applied_def)
  then show ?thesis
    using Some i(1) by (cases "tree_ApplyChangeSet ops cs (nt_Tree (mt_trees t ! i))") (auto simp: mt_ApplyChangeSet_def)
qed

text \<open>Changes to disjoint stores in sequence are changes at once.\<close>

lemma changed_add:
  assumes "dom f \<inter> dom g = {}"
  shows "changed ops (f ++ g) e = Option.bind (changed ops f e) (changed ops g)"
proof (cases "f (nt_Name e)")
  case None
  then show ?thesis
    by (simp add: changed_def map_add_def split: option.split)
next
  case (Some cs)
  then have "g (nt_Name e) = None"
    using assms by blast
  with Some show ?thesis
    by (cases "tree_ApplyChangeSet ops cs (nt_Tree e)") (simp_all add: changed_def map_add_def)
qed

lemma applied_compose:
  assumes "\<And>e. changed ops h e = Option.bind (changed ops f e) (changed ops g)" "dom h = dom f \<union> dom g"
  shows "(\<exists>t1. applied ops f t t1 \<and> applied ops g t1 t') \<longleftrightarrow> applied ops h t t'"
proof -
  have "changed_to ops h = changed_to ops f OO changed_to ops g"
    using assms(1) by (auto simp: fun_eq_iff relcompp_apply bind_eq_Some_conv)
  then have split: "list_all2 (changed_to ops h) xs zs \<longleftrightarrow>
      (\<exists>ys. list_all2 (changed_to ops f) xs ys \<and> list_all2 (changed_to ops g) ys zs)" for xs zs
    by (simp add: list.rel_compp relcompp_apply)
  show ?thesis
  proof
    assume "\<exists>t1. applied ops f t t1 \<and> applied ops g t1 t'"
    then obtain ts ts' where ts: "list_all2 (changed_to ops f) (mt_trees t) ts" "dom f \<subseteq> set (names (mt_trees t))"
      "list_all2 (changed_to ops g) ts ts'" "dom g \<subseteq> set (names ts)" "t' = t\<lparr>mt_trees := ts'\<rparr>"
      by (auto simp: applied_def)
    have "list_all2 (changed_to ops h) (mt_trees t) ts'"
      using split ts(1,3) by blast
    moreover have "dom h \<subseteq> set (names (mt_trees t))"
      using ts(2,4) unfolding assms(2) changed_names [OF ts(1)] by (rule Un_least)
    ultimately show "applied ops h t t'"
      unfolding applied_def using ts(5) by blast
  next
    assume "applied ops h t t'"
    then obtain ts' where ts': "list_all2 (changed_to ops h) (mt_trees t) ts'" "dom f \<union> dom g \<subseteq> set (names (mt_trees t))"
      "t' = t\<lparr>mt_trees := ts'\<rparr>"
      unfolding applied_def assms(2) by blast
    then obtain ts where ts: "list_all2 (changed_to ops f) (mt_trees t) ts" "list_all2 (changed_to ops g) ts ts'"
      unfolding split by blast
    then have "applied ops f t (t\<lparr>mt_trees := ts\<rparr>)" "applied ops g (t\<lparr>mt_trees := ts\<rparr>) t'"
      using changed_names [OF ts(1)] ts' unfolding applied_def by auto
    then show "\<exists>t1. applied ops f t t1 \<and> applied ops g t1 t'" by blast
  qed
qed

lemma applied_add:
  assumes "dom f \<inter> dom g = {}"
  shows "(\<exists>t1. applied ops f t t1 \<and> applied ops g t1 t') \<longleftrightarrow> applied ops (f ++ g) t t'"
  by (rule applied_compose) (rule changed_add [OF assms], simp add: Un_commute)

lemma applied_empty: "applied ops Map.empty t t' \<longleftrightarrow> t' = t"
proof -
  have "changed_to ops Map.empty = (=)"
    by (simp add: changed_def fun_eq_iff)
  then show ?thesis
    by (auto simp: applied_def list.rel_eq)
qed

lemma mt_ApplyChangeSets_applied:
  "indexed t \<Longrightarrow> distinct (change_names css) \<Longrightarrow> mt_ApplyChangeSets ops css t = Inr t' \<longleftrightarrow> applied ops (change_map css) t t'"
proof (induction css arbitrary: t)
  case Nil
  then show ?case
    by (auto simp: applied_empty)
next
  case (Cons cs css)
  let ?f = "[ncs_Name cs \<mapsto> ncs_Changeset cs]"
  have disj: "dom ?f \<inter> dom (change_map css) = {}"
    using Cons.prems(2) by (auto simp: dom_change_map)
  have cm: "change_map (cs # css) = ?f ++ change_map css"
    using disj by (auto simp: fun_eq_iff map_add_def split: option.split)
  have "mt_ApplyChangeSets ops (cs # css) t = Inr t' \<longleftrightarrow>
      (\<exists>t1. mt_ApplyChangeSet ops (ncs_Name cs) (ncs_Changeset cs) t = Inr t1 \<and> mt_ApplyChangeSets ops css t1 = Inr t')"
    by (simp add: bind_res_Inr)
  also have "\<dots> \<longleftrightarrow> (\<exists>t1. applied ops ?f t t1 \<and> applied ops (change_map css) t1 t')"
    using Cons.IH Cons.prems applied_indexed mt_ApplyChangeSet_applied [OF Cons.prems(1)] by (metis distinct.simps(2) list.simps(9))
  also have "\<dots> \<longleftrightarrow> applied ops (change_map (cs # css)) t t'"
    unfolding cm by (rule applied_add [OF disj])
  finally show ?case .
qed

section \<open>Merging into the pending log\<close>

lemma append_pairs_None: "append_pairs n cs css = None \<longleftrightarrow> n \<notin> ncs_Name ` set css"
  by (induction css) auto

lemma append_pairs_Some:
  "append_pairs n cs css = Some css' \<Longrightarrow> distinct (change_names css) \<Longrightarrow>
    change_names css' = change_names css \<and> n \<in> dom (change_map css) \<and>
    change_map css' = (change_map css)(n \<mapsto> the (change_map css n) @ cs)"
proof (induction css arbitrary: css')
  case (Cons c css)
  show ?case
  proof (cases "ncs_Name c = n")
    case False
    then obtain css1 where "append_pairs n cs css = Some css1" "css' = c # css1"
      using Cons.prems(1) by auto
    with Cons False show ?thesis
      by (auto simp: fun_upd_twist)
  qed (use Cons.prems in auto)
qed simp

lemma changed_merge:
  assumes "f n = Some cs0"
  shows "changed ops (f(n \<mapsto> cs0 @ cs)) e = Option.bind (changed ops f e) (changed ops [n \<mapsto> cs])"
proof (cases "nt_Name e = n")
  case True
  then show ?thesis
    using assms
    by (cases "tree_ApplyChangeSet ops cs0 (nt_Tree e)")
      (simp_all add: changed_def tree_ApplyChangeSet_append option.map_comp o_def)
next
  case False
  then show ?thesis
    by (cases "f (nt_Name e)"; cases "tree_ApplyChangeSet ops (the (f (nt_Name e))) (nt_Tree e)") (simp_all add: changed_def)
qed

lemma applied_merge:
  assumes "applied ops f t t1" "applied ops [n \<mapsto> cs] t1 t'" "f n = Some cs0"
  shows "applied ops (f(n \<mapsto> cs0 @ cs)) t t'"
proof -
  have "(\<exists>t1. applied ops f t t1 \<and> applied ops [n \<mapsto> cs] t1 t') \<longleftrightarrow> applied ops (f(n \<mapsto> cs0 @ cs)) t t'"
    by (rule applied_compose) (use changed_merge [of f n cs0 ops cs] assms(3) in auto)
  with assms(1,2) show ?thesis by blast
qed

lemma merge_change_set_distinct:
  "distinct (change_names css) \<Longrightarrow> distinct (change_names (merge_change_set n cs css))"
proof (cases "append_pairs n cs css")
  case None
  assume "distinct (change_names css)"
  then have "distinct (change_names (css @ [\<lparr>ncs_Changeset = cs, ncs_Name = n\<rparr>]))"
    using None by (simp add: append_pairs_None)
  moreover have "mset (change_names (merge_change_set n cs css)) = mset (change_names (css @ [\<lparr>ncs_Changeset = cs, ncs_Name = n\<rparr>]))"
    using None by (simp only: merge_change_set_def option.case mset_map mset_sort)
  ultimately show ?thesis
    using mset_eq_imp_distinct_iff by blast
qed (auto simp: merge_change_set_def dest: append_pairs_Some)

lemma merge_change_set_applied:
  assumes "indexed t" "distinct (change_names css)" "mt_ApplyChangeSets ops css t = Inr t1"
    "mt_ApplyChangeSet ops n cs t1 = Inr t'"
  shows "mt_ApplyChangeSets ops (merge_change_set n cs css) t = Inr t'"
proof -
  have a1: "applied ops (change_map css) t t1"
    using assms(1-3) by (simp add: mt_ApplyChangeSets_applied)
  then have "indexed t1"
    using assms(1) applied_indexed by blast
  then have a2: "applied ops [n \<mapsto> cs] t1 t'"
    using assms(4) by (simp add: mt_ApplyChangeSet_applied)
  have "applied ops (change_map (merge_change_set n cs css)) t t'"
  proof (cases "append_pairs n cs css")
    case (Some css')
    note m = append_pairs_Some [OF Some assms(2)]
    then obtain cs0 where "change_map css n = Some cs0" by blast
    then show ?thesis
      using applied_merge [OF a1 a2] m Some by (simp add: merge_change_set_def)
  next
    case None
    let ?css = "css @ [\<lparr>ncs_Changeset = cs, ncs_Name = n\<rparr>]"
    have new: "n \<notin> dom (change_map css)"
      using None by (simp add: append_pairs_None dom_change_map)
    have "distinct (change_names ?css)"
      using None assms(2) by (simp add: append_pairs_None)
    then have "change_map (merge_change_set n cs css) = change_map ?css"
      using None by (simp only: merge_change_set_def option.case) (intro change_map_permute, simp_all)
    also have "\<dots> = change_map css ++ [n \<mapsto> cs]"
    proof -
      have "change_map (xs @ ys) = change_map ys ++ change_map xs" for xs ys
        by (simp add: change_map_def)
      then show ?thesis
        using new map_add_comm [of "change_map css" "[n \<mapsto> cs]"] by simp
    qed
    finally show ?thesis
      using applied_add [of "change_map css" "[n \<mapsto> cs]" ops t t'] a1 a2 new by auto
  qed
  then show ?thesis
    using mt_ApplyChangeSets_applied assms(1) merge_change_set_distinct [OF assms(2)] by blast
qed

end
