(* ===== verification/Db_History.thy ===== *)
theory Db_History
  imports Db_Pending
begin

text \<open>
  What the database promises, without caches, files and goroutines: the history of the committed log
  entries from an empty multi-tree. The log holds a segment of that history, and \<open>CatchupWAL\<close> moves a
  multi-tree along it. The log of \<open>tidwall/wal\<close> is specified by its documented behaviour.
\<close>

section \<open>Histories\<close>

definition genesis :: "u32 \<Rightarrow> unit multi_tree" where
  "genesis initialVersion = NewEmptyMultiTree initialVersion 0"

text \<open>The version after a number of commits.\<close>

definition ver :: "u32 \<Rightarrow> nat \<Rightarrow> nat" where
  "ver initialVersion k = (if k = 0 then 0 else if initialVersion > 1 then unat initialVersion + k - 1 else k)"

text \<open>The limits of the snapshot format.\<close>

definition fits :: "'c multi_tree \<Rightarrow> bool" where
  "fits t \<longleftrightarrow> list_all (\<lambda>e. root_writable (tree_root (nt_Tree e))) (mt_trees t) \<and> CommitInfo_Size (lastCommitInfo t) < 2 ^ 62"

inductive history :: "u32 \<Rightarrow> wal_entry list \<Rightarrow> unit multi_tree \<Rightarrow> bool" for iv where
  start: "history iv [] (genesis iv)"
| more: "history iv es m \<Longrightarrow> commit no_cache e m = Inr m' \<Longrightarrow> mt_sound m' \<Longrightarrow> fits m' \<Longrightarrow>
    ver iv (Suc (length es)) < 2 ^ 31 \<Longrightarrow> WALEntry_Size e < 2 ^ 63 \<Longrightarrow> history iv (es @ [e]) m'"

lemma ver_Suc: "ver iv (Suc k) = (if k = 0 then if iv > 1 then unat iv else 1 else Suc (ver iv k))"
  by (auto simp: ver_def)

lemma ver_mono: "k \<le> l \<Longrightarrow> ver iv k \<le> ver iv l"
  by (auto simp: ver_def)

lemma ver_less: "ver iv k < ver iv l \<longleftrightarrow> k < l"
proof -
  have "0 < unat iv" if "iv > 1"
    using that by (simp add: word_less_nat_alt)
  then show ?thesis
    by (auto simp: ver_def)
qed

lemma ver_inject: "ver iv k = ver iv l \<longleftrightarrow> k = l"
  using ver_less [of iv k l] ver_less [of iv l k] by (metis less_irrefl nat_neq_iff)

lemma ver_le: "ver iv k \<le> ver iv l \<longleftrightarrow> k \<le> l"
  using ver_less [of iv l k] by linarith

lemma ver_ge: "k \<le> ver iv k"
proof -
  have "1 < unat iv" if "iv > 1"
    using that by (simp add: word_less_nat_alt)
  then show ?thesis
    by (auto simp: ver_def)
qed

lemma ver_0: "ver iv k = 0 \<longleftrightarrow> k = 0"
  using ver_inject [of iv k 0] by (simp add: ver_def)

lemma nextVersion_ver:
  assumes "ver iv (Suc k) < 2 ^ 63"
  shows "nextVersion (of_nat (ver iv k)) iv = of_nat (ver iv (Suc k))"
proof (cases "k = 0")
  case True
  then show ?thesis
    by (simp add: nextVersion_def ver_def)
next
  case False
  then have "ver iv k \<noteq> 0" "ver iv k < 2 ^ 64"
    using assms ver_0 [of iv k] ver_mono [of k "Suc k" iv] by simp_all
  then have "(of_nat (ver iv k) :: u64) \<noteq> 0"
    using unat_of_nat_less [of "ver iv k", where 'a = 64] by (intro notI) simp
  then show ?thesis
    using False by (simp add: nextVersion_def ver_Suc)
qed

lemma walIndex_ver: "0 < k \<Longrightarrow> walIndex (of_nat (ver iv k)) iv = of_nat k"
  by (cases k) (simp_all add: walIndex_def ver_def)

lemma walVersion_ver: "0 < k \<Longrightarrow> walVersion (of_nat k) iv = of_nat (ver iv k)"
  by (cases k) (simp_all add: walVersion_def ver_def)

lemma fits_equiv: "mt_equiv t t' \<Longrightarrow> fits t' \<longleftrightarrow> fits t"
  by (auto simp: fits_def mt_equiv_def list_all_length list_all2_conv_all_nth same_tree_def)

lemma genesis_simps [simp]: "mt_Version (genesis iv) = 0" "mt_initialVersion (genesis iv) = iv" "mt_trees (genesis iv) = []"
  by (simp_all add: genesis_def NewEmptyMultiTree_def mt_Version_def CommitInfo_zero_def)

lemma genesis_sound: "mt_sound (genesis iv)"
  by (simp add: mt_ok_def genesis_def NewEmptyMultiTree_def index_names_def)

lemma genesis_fits: "fits (genesis iv)"
  by (simp add: fits_def genesis_def NewEmptyMultiTree_def CommitInfo_zero_def CommitInfo_Size_def size_int_field_def)

lemma history_limits:
  "history iv es m \<Longrightarrow> (es = [] \<or> ver iv (length es) < 2 ^ 31) \<and> mt_sound m \<and> fits m \<and> (\<forall>e \<in> set es. WALEntry_Size e < 2 ^ 63)"
  by (induction rule: history.induct) (auto simp: genesis_sound genesis_fits)

lemma history_version:
  "history iv es m \<Longrightarrow> mt_initialVersion m = iv \<and> mt_Version m = of_nat (ver iv (length es))"
proof (induction rule: history.induct)
  case start
  then show ?case by (simp add: ver_def)
next
  case (more es m e m')
  then show ?case
    using commit_version [OF more(2)] nextVersion_ver [of iv "length es"] by simp
qed

lemma commits_append: "commits ops (xs @ ys) t = bind_res (commits ops xs t) (commits ops ys)"
proof (induction xs arbitrary: t)
  case (Cons x xs)
  then show ?case
    by (cases "commit ops x t") simp_all
qed simp

lemma history_commits: "history iv es m \<Longrightarrow> commits no_cache es (genesis iv) = Inr m"
  by (induction rule: history.induct) (simp_all add: commits_append)

lemma history_unique: "history iv es m \<Longrightarrow> history iv es m' \<Longrightarrow> m' = m"
  by (drule history_commits, drule history_commits) simp

lemma history_take:
  assumes "history iv es m" "k \<le> length es"
  shows "\<exists>mk. history iv (take k es) mk \<and> commits no_cache (drop k es) mk = Inr m"
  using assms
proof (induction rule: history.induct)
  case start
  then show ?case
    using history.start by auto
next
  case (more es m e m')
  show ?case
  proof (cases "k = Suc (length es)")
    case True
    then show ?thesis
      using history.more [OF more(1-6)] by auto
  next
    case False
    then have "k \<le> length es"
      using more.prems by simp
    then show ?thesis
      using more.IH more(2) by (auto simp: commits_append)
  qed
qed

lemma history_between:
  assumes "history iv es m" "k \<le> n" "n \<le> length es" "history iv (take k es) mk"
  shows "\<exists>mn. history iv (take n es) mn \<and> commits no_cache (take (n - k) (drop k es)) mk = Inr mn"
proof -
  obtain mn where mn: "history iv (take n es) mn"
    using history_take [OF assms(1,3)] by blast
  have eq: "take k (take n es) = take k es" "drop k (take n es) = take (n - k) (drop k es)"
    using assms(2) by (simp_all add: min_absorb1 drop_take)
  obtain mk' where mk': "history iv (take k es) mk'" "commits no_cache (take (n - k) (drop k es)) mk' = Inr mn"
    using history_take [OF mn, of k] assms(2,3) unfolding eq by auto
  then have "mk' = mk"
    using history_unique [OF assms(4)] by blast
  with mk'(2) mn show ?thesis by blast
qed

section \<open>The log\<close>

text \<open>
  The documented behaviour of the log: its entries are numbered without gaps from one above a base,
  which is the last index that was truncated from the front; indices are written in order, a write
  out of order is rejected; a truncation needs an index that the log has.
\<close>

definition wal_spec :: "'w wal_ops \<Rightarrow> ('w \<Rightarrow> nat \<times> bytes list) \<Rightarrow> 'w \<Rightarrow> nat \<Rightarrow> bytes list \<Rightarrow> nat \<Rightarrow> bool" where
  "wal_spec wops view w base bs n \<longleftrightarrow>
     w_LastIndex wops w = Inr (of_nat n) \<and>
     (\<forall>i. base < i \<and> i \<le> n \<and> i < 2 ^ 64 \<longrightarrow> w_Read wops w (of_nat i) = Inr (bs ! (i - base - 1))) \<and>
     (\<forall>batch. map fst batch = map of_nat [Suc n..<Suc n + length batch] \<longrightarrow>
        (\<exists>w'. w_WriteBatch wops batch w = Inr w' \<and> view w' = (base, bs @ map snd batch))) \<and>
     (\<forall>i bz batch. 0 < n \<and> i \<noteq> of_nat (Suc n) \<longrightarrow> (\<exists>err. w_WriteBatch wops ((i, bz) # batch) w = Inl err)) \<and>
     (\<forall>i. if base < unat i \<and> unat i \<le> n
        then (\<exists>w'. w_TruncateFront wops i w = Inr w' \<and> view w' = (unat i - 1, drop (unat i - 1 - base) bs))
        else (\<exists>err. w_TruncateFront wops i w = Inl err)) \<and>
     (\<forall>i. if base < unat i \<and> unat i \<le> n
        then (\<exists>w'. w_TruncateBack wops i w = Inr w' \<and> view w' = (base, take (unat i - base) bs))
        else (\<exists>err. w_TruncateBack wops i w = Inl err))"

definition wal_contract :: "'w wal_ops \<Rightarrow> ('w \<Rightarrow> nat \<times> bytes list) \<Rightarrow> bool" where
  "wal_contract wops view \<longleftrightarrow> (\<forall>w. case view w of (base, bs) \<Rightarrow> wal_spec wops view w base bs (base + length bs))"

lemma wal_contractD:
  assumes "wal_contract wops view" "view w = (base, bs)"
  shows "w_LastIndex wops w = Inr (of_nat (base + length bs))"
    and "base < i \<Longrightarrow> i \<le> base + length bs \<Longrightarrow> i < 2 ^ 64 \<Longrightarrow> w_Read wops w (of_nat i) = Inr (bs ! (i - base - 1))"
    and "map fst batch = map of_nat [Suc (base + length bs)..<Suc (base + length bs) + length batch] \<Longrightarrow>
      \<exists>w'. w_WriteBatch wops batch w = Inr w' \<and> view w' = (base, bs @ map snd batch)"
    and "0 < base + length bs \<Longrightarrow> j \<noteq> of_nat (Suc (base + length bs)) \<Longrightarrow> \<exists>err. w_WriteBatch wops ((j, bz) # batch) w = Inl err"
    and "base < unat j \<Longrightarrow> unat j \<le> base + length bs \<Longrightarrow>
      \<exists>w'. w_TruncateFront wops j w = Inr w' \<and> view w' = (unat j - 1, drop (unat j - 1 - base) bs)"
    and "\<not> (base < unat j \<and> unat j \<le> base + length bs) \<Longrightarrow> \<exists>err. w_TruncateFront wops j w = Inl err"
    and "base < unat j \<Longrightarrow> unat j \<le> base + length bs \<Longrightarrow>
      \<exists>w'. w_TruncateBack wops j w = Inr w' \<and> view w' = (base, take (unat j - base) bs)"
    and "\<not> (base < unat j \<and> unat j \<le> base + length bs) \<Longrightarrow> \<exists>err. w_TruncateBack wops j w = Inl err"
proof -
  have "case view w of (base, bs) \<Rightarrow> wal_spec wops view w base bs (base + length bs)"
    using assms(1) unfolding wal_contract_def by (rule spec)
  then have c: "wal_spec wops view w base bs (base + length bs)"
    using assms(2) by simp
  show "w_LastIndex wops w = Inr (of_nat (base + length bs))"
    using c unfolding wal_spec_def by blast
  show "base < i \<Longrightarrow> i \<le> base + length bs \<Longrightarrow> i < 2 ^ 64 \<Longrightarrow> w_Read wops w (of_nat i) = Inr (bs ! (i - base - 1))"
    using c unfolding wal_spec_def by blast
  show "map fst batch = map of_nat [Suc (base + length bs)..<Suc (base + length bs) + length batch] \<Longrightarrow>
      \<exists>w'. w_WriteBatch wops batch w = Inr w' \<and> view w' = (base, bs @ map snd batch)"
    using c unfolding wal_spec_def by blast
  show "0 < base + length bs \<Longrightarrow> j \<noteq> of_nat (Suc (base + length bs)) \<Longrightarrow> \<exists>err. w_WriteBatch wops ((j, bz) # batch) w = Inl err"
    using c unfolding wal_spec_def by blast
  show "base < unat j \<Longrightarrow> unat j \<le> base + length bs \<Longrightarrow>
      \<exists>w'. w_TruncateFront wops j w = Inr w' \<and> view w' = (unat j - 1, drop (unat j - 1 - base) bs)"
    using c unfolding wal_spec_def by presburger
  show "\<not> (base < unat j \<and> unat j \<le> base + length bs) \<Longrightarrow> \<exists>err. w_TruncateFront wops j w = Inl err"
    using c unfolding wal_spec_def by presburger
  show "base < unat j \<Longrightarrow> unat j \<le> base + length bs \<Longrightarrow>
      \<exists>w'. w_TruncateBack wops j w = Inr w' \<and> view w' = (base, take (unat j - base) bs)"
    using c unfolding wal_spec_def by presburger
  show "\<not> (base < unat j \<and> unat j \<le> base + length bs) \<Longrightarrow> \<exists>err. w_TruncateBack wops j w = Inl err"
    using c unfolding wal_spec_def by presburger
qed

text \<open>A log in memory satisfies the contract.\<close>

definition list_wal :: "(nat \<times> bytes list) wal_ops" where
  "list_wal = \<lparr>
     w_LastIndex = \<lambda>(base, bs). Inr (of_nat (base + length bs)),
     w_Read = \<lambda>(base, bs) i.
       if base < unat i \<and> unat i \<le> base + length bs then Inr (bs ! (unat i - base - 1)) else Inl (Error ''not found''),
     w_WriteBatch = \<lambda>batch (base, bs).
       if map fst batch = map of_nat [Suc (base + length bs)..<Suc (base + length bs) + length batch]
       then Inr (base, bs @ map snd batch) else Inl (Error ''out of order''),
     w_TruncateFront = \<lambda>i (base, bs).
       if base < unat i \<and> unat i \<le> base + length bs then Inr (unat i - 1, drop (unat i - 1 - base) bs)
       else Inl (Error ''out of range''),
     w_TruncateBack = \<lambda>i (base, bs).
       if base < unat i \<and> unat i \<le> base + length bs then Inr (base, take (unat i - base) bs)
       else Inl (Error ''out of range'')\<rparr>"

lemma list_wal_simps:
  "w_LastIndex list_wal (base, bs) = Inr (of_nat (base + length bs))"
  "w_Read list_wal (base, bs) i =
     (if base < unat i \<and> unat i \<le> base + length bs then Inr (bs ! (unat i - base - 1)) else Inl (Error ''not found''))"
  "w_WriteBatch list_wal batch (base, bs) =
     (if map fst batch = map of_nat [Suc (base + length bs)..<Suc (base + length bs) + length batch]
      then Inr (base, bs @ map snd batch) else Inl (Error ''out of order''))"
  "w_TruncateFront list_wal i (base, bs) =
     (if base < unat i \<and> unat i \<le> base + length bs then Inr (unat i - 1, drop (unat i - 1 - base) bs)
      else Inl (Error ''out of range''))"
  "w_TruncateBack list_wal i (base, bs) =
     (if base < unat i \<and> unat i \<le> base + length bs then Inr (base, take (unat i - base) bs) else Inl (Error ''out of range''))"
  by (simp_all add: list_wal_def del: upt_Suc)

lemma list_wal_contract: "wal_contract list_wal (\<lambda>w. w)"
proof -
  have read: "unat (of_nat i :: u64) = i" if "i < 2 ^ 64" for i
    using that by (intro unat_of_nat_less) simp
  have order: "i = of_nat (Suc n)"
    if "map fst ((i, bz) # batch) = map of_nat [Suc n..<Suc n + length ((i, bz) # batch)]" for i :: u64 and bz :: bytes and batch n
    using arg_cong [OF that, of hd] by (subst (asm) (2) hd_map) (simp_all del: upt_Suc)
  have "wal_spec list_wal (\<lambda>w. w) (base, bs) base bs (base + length bs)" for base bs
    unfolding wal_spec_def list_wal_simps
  proof (intro conjI allI impI)
    show "\<exists>err. (if map fst ((i, bz) # batch) = map of_nat
          [Suc (base + length bs)..<Suc (base + length bs) + length ((i, bz) # batch)]
        then Inr (base, bs @ map snd ((i, bz) # batch)) else Inl (Error ''out of order'')) = Inl err"
      if "0 < base + length bs \<and> i \<noteq> of_nat (Suc (base + length bs))" for i :: u64 and bz batch
    proof -
      have ne: "map fst ((i, bz) # batch) \<noteq> map of_nat [Suc (base + length bs)..<Suc (base + length bs) + length ((i, bz) # batch)]"
        using that order [of i bz batch "base + length bs"] by blast
      show ?thesis
        unfolding if_not_P [OF ne] by blast
    qed
  qed (simp_all add: read del: upt_Suc)
  then show ?thesis
    by (simp add: wal_contract_def split: prod.split)
qed

text \<open>The log holds the entries of a history from its base on.\<close>

definition log_of :: "wal_entry list \<Rightarrow> nat \<times> bytes list \<Rightarrow> bool" where
  "log_of es v \<longleftrightarrow> (case v of (base, bs) \<Rightarrow> base + length bs \<le> length es \<and>
     (\<forall>i < length bs. bs ! i = enc_WALEntry (es ! (base + i))))"

lemma log_of_logged:
  assumes "wal_contract wops view" "view w = (base, bs)" "log_of es (base, bs)" "\<forall>e \<in> set es. WALEntry_Size e < 2 ^ 63"
    "base \<le> j" "j < base + length bs" "length es < 2 ^ 63"
  shows "logged (reader wops w) (Suc j) (es ! j)"
proof -
  have "w_Read wops w (of_nat (Suc j)) = Inr (bs ! (Suc j - base - 1))"
    by (rule wal_contractD(2) [OF assms(1,2)]) (use assms(3,5-7) in \<open>auto simp: log_of_def\<close>)
  moreover have "bs ! (Suc j - base - 1) = enc_WALEntry (es ! j)"
    using assms(3,5,6) by (auto simp: log_of_def)
  moreover have "es ! j \<in> set es"
    using assms(3,6) by (auto simp: log_of_def)
  ultimately show ?thesis
    using assms(4) we.marshal_ok [of "es ! j"] by (simp add: logged_def reader_def WALEntry_Marshal_def)
qed

section \<open>Replay along a history\<close>

lemma history_length: "history iv es m \<Longrightarrow> length es < 2 ^ 31"
  using history_limits [of iv es m] ver_ge [of "length es" iv] by (cases "es = []") auto

lemma history_take_version:
  assumes "history iv es m" "k \<le> length es"
  shows "ver iv k < 2 ^ 31"
proof (cases "es = []")
  case False
  then show ?thesis
    using history_limits [OF assms(1)] ver_mono [OF assms(2), of iv] by simp
qed (use assms in \<open>simp add: ver_def\<close>)

lemma unat_ver: "ver iv k < 2 ^ 31 \<Longrightarrow> unat (of_nat (ver iv k) :: u64) = ver iv k"
  by (rule unat_of_nat_less) simp

lemma mt_next_history:
  assumes "history iv es m" "k < length es" "history iv (take k es) mk" "mt_equiv mk t"
  shows "mt_next t = of_nat (ver iv (Suc k))" "mt_initialVersion t = iv"
proof -
  have "length (take k es) = k"
    using assms(2) by simp
  then have "mt_initialVersion mk = iv" "mt_Version mk = of_nat (ver iv k)"
    using history_version [OF assms(3)] by simp_all
  moreover have "ver iv (Suc k) < 2 ^ 63"
    using history_take_version [OF assms(1), of "Suc k"] assms(2) by simp
  ultimately show "mt_next t = of_nat (ver iv (Suc k))" "mt_initialVersion t = iv"
    using nextVersion_ver [of iv k] mt_equiv_next [OF assms(4)] assms(4) by (simp_all add: mt_equiv_def)
qed

lemma catchup_history:
  assumes "wal_contract wops view" "view w = (base, bs)" "log_of es (base, bs)"
    and "history iv es m" "history iv (take k es) mk" "mt_equiv mk t" "base \<le> k"
    and "k < j" "j \<le> base + length bs" "target = of_nat (ver iv j) \<or> target = 0 \<and> j = base + length bs"
  shows "\<exists>t' mj. CatchupWAL ops (reader wops w) target t = Inr t' \<and> history iv (take j es) mj \<and> mt_equiv mj t'"
proof -
  let ?es = "take (j - k) (drop k es)"
  have j: "j \<le> length es"
    using assms(3,9) by (simp add: log_of_def)
  then have len: "length ?es = j - k" "?es \<noteq> []"
    using assms(8) by simp_all
  obtain mj where mj: "history iv (take j es) mj" "commits no_cache ?es mk = Inr mj"
    using history_between [OF assms(4) _ j assms(5)] assms(8) by auto
  obtain t' where t': "commits ops ?es t = Inr t'" "mt_equiv mj t'"
    using rel_res_Inr [OF commits_equiv [OF assms(6)] mj(2)] by blast
  note n = mt_next_history [OF assms(4) _ assms(5,6)]
  have k: "k < length es"
    using assms(8) j by simp
  have v: "ver iv (Suc k) < 2 ^ 31" "ver iv j < 2 ^ 31" "length es < 2 ^ 31"
    using history_take_version [OF assms(4)] history_length [OF assms(4)] k j by simp_all
  have first: "walIndex (mt_next t) (mt_initialVersion t) = of_nat (Suc k)"
    using walIndex_ver [of "Suc k" iv] n [OF k] by simp
  have ufirst: "unat (of_nat (Suc k) :: u64) = Suc k"
    by (rule unat_of_nat_less) (use k v(3) in simp)
  have unext: "unat (mt_next t) = ver iv (Suc k)"
    unfolding n(1) [OF k] by (rule unat_ver [OF v(1)])
  have lastIndex: "wal_LastIndex (reader wops w) = Inr (of_nat (base + length bs))"
    using wal_contractD(1) [OF assms(1,2)] by (simp add: reader_def)
  have reach: "of_nat (Suc k) + of_nat (length ?es - 1) = (of_nat j :: u64)"
    using assms(8) unfolding len(1) of_nat_add [symmetric] by (intro arg_cong [of _ _ of_nat]) simp
  have n64: "base + length bs < 2 ^ 64"
    using assms(3) v(3) by (simp add: log_of_def)
  have log: "logged (reader wops w) (Suc k + i) (?es ! i)" if "i < length ?es" for i
  proof -
    have "logged (reader wops w) (Suc (k + i)) (es ! (k + i))"
      by (rule log_of_logged [OF assms(1-3)]) (use history_limits [OF assms(4)] assms(7,9) that v(3) in auto)
    then show ?thesis
      using that k by simp
  qed
  have version: "mt_Version t' = of_nat (ver iv j)"
    using history_version [OF mj(1)] mt_equiv_Version [OF t'(2)] j by simp
  have "CatchupWAL ops (reader wops w) target t = Inr t'"
  proof (rule catchup_commits [OF t'(1) len(2)])
    show "0 < mt_next t"
      unfolding word_less_nat_alt unext using ver_0 [of iv "Suc k"] by simp
    show "unat (mt_next t) + length ?es < 2 ^ 64"
      unfolding unext len(1) using v j by simp
    show "unat (walIndex (mt_next t) (mt_initialVersion t)) + length ?es < 2 ^ 64"
      unfolding first ufirst len(1) using v j k by simp
    show "wal_LastIndex (reader wops w) = Inr (of_nat (base + length bs))"
      by (rule lastIndex)
    show "walIndex (mt_next t) (mt_initialVersion t) + of_nat (length ?es - 1) \<le> of_nat (base + length bs)"
      unfolding first reach using assms(9) n64 by (simp add: word_le_nat_alt unat_of_nat_less del: of_nat_add)
    show "logged (reader wops w) (unat (walIndex (mt_next t) (mt_initialVersion t)) + i) (?es ! i)" if "i < length ?es" for i
      unfolding first ufirst by (rule log [OF that])
    show "target = mt_Version t' \<or> target = 0 \<and> of_nat (base + length bs) =
        walIndex (mt_next t) (mt_initialVersion t) + of_nat (length ?es - 1)"
      unfolding first reach version using assms(10) by auto
  qed
  with mj(1) t'(2) show ?thesis by blast
qed

text \<open>Nothing is replayed when the multi-tree is not behind the log.\<close>

lemma catchup_nothing:
  assumes "wal_contract wops view" "view w = (base, bs)" "log_of es (base, bs)"
    and "history iv es m" "history iv (take k es) mk" "mt_equiv mk t" "k \<le> length es" "base + length bs \<le> k"
    and "ver iv (Suc k) < 2 ^ 63"
  shows "CatchupWAL ops (reader wops w) target t = Inr t"
proof -
  have "length (take k es) = k"
    using assms(7) by simp
  then have "mt_next t = of_nat (ver iv (Suc k))" "mt_initialVersion t = iv"
    using history_version [OF assms(5)] nextVersion_ver [OF assms(9)] mt_equiv_next [OF assms(6)] assms(6)
    by (simp_all add: mt_equiv_def)
  then have first: "walIndex (mt_next t) (mt_initialVersion t) = of_nat (Suc k)"
    using walIndex_ver [of "Suc k" iv] by simp
  have "Suc k < 2 ^ 64" "base + length bs < 2 ^ 64"
    using assms(7,8) history_length [OF assms(4)] by simp_all
  then have "(of_nat (base + length bs) :: u64) < of_nat (Suc k)"
    using assms(8) by (simp add: word_less_nat_alt unat_of_nat_less del: of_nat_add of_nat_Suc)
  then show ?thesis
    using wal_contractD(1) [OF assms(1,2)] by (simp add: CatchupWAL_def reader_def first Let_def del: of_nat_add of_nat_Suc)
qed

end
