(* ===== verification/Db_Disk.thy ===== *)
theory Db_Disk
  imports Db_History
begin

text \<open>
  The directory of a database whose commits are a history: every snapshot directory is the snapshot
  of a prefix of the history, the link \<open>current\<close> points to one of them, and directories with the
  temporary suffix may hold anything. Loading such a directory gives a state of the history.
\<close>

declare map_of_eq_Some_iff [simp del]

section \<open>Names\<close>

abbreviation sname :: "u32 \<Rightarrow> nat \<Rightarrow> string" where
  "sname iv k \<equiv> snapshotName (int (ver iv k))"

lemma length_snapshotName: "0 \<le> v \<Longrightarrow> length (snapshotName v) = 29"
  by (simp add: snapshotName_def SnapshotPrefix_def)

lemma snapshot_tmp_name: "0 \<le> v \<Longrightarrow> \<not> isSnapshotName (snapshotName v @ TmpSuffix)"
  by (simp add: isSnapshotName_def SnapshotDirLen_def length_snapshotName TmpSuffix_def SnapshotPrefix_def)

lemma has_suffix_append: "has_suffix (x @ s) s"
  by (simp add: has_suffix_def)

lemma digit_not_p: "d < 10 \<Longrightarrow> digit d \<noteq> CHR ''p''"
proof
  assume "d < 10" "digit d = CHR ''p''"
  then have "(of_char (digit d) :: nat) = of_char (CHR ''p'')" by simp
  with \<open>d < 10\<close> show False
    by (simp add: of_char_digit)
qed

lemma last_pad_digits: "last (pad_digits (Suc w) v) = digit (v mod 10)"
  by simp

lemma has_suffix_last: "has_suffix x s \<Longrightarrow> s \<noteq> [] \<Longrightarrow> last x = last s"
  by (metis has_suffix_def last_drop length_drop length_greater_0_conv diff_diff_cancel zero_less_diff)

lemma snapshotName_not_tmp: "0 \<le> v \<Longrightarrow> \<not> has_suffix (snapshotName v) TmpSuffix"
proof
  assume v: "0 \<le> v" "has_suffix (snapshotName v) TmpSuffix"
  have "pad_digits 20 (nat v) \<noteq> []"
    by (metis length_pad_digits list.size(3) zero_neq_numeral)
  then have "last (snapshotName v) = last (pad_digits (Suc 19) (nat v))"
    using v(1) by (simp add: snapshotName_def)
  then have "last (snapshotName v) = digit (nat v mod 10)"
    by (simp only: last_pad_digits)
  moreover have "last (snapshotName v) = CHR ''p''"
    using has_suffix_last [OF v(2)] by (simp add: TmpSuffix_def)
  ultimately show False
    using digit_not_p [of "nat v mod 10"] by simp
qed

lemma snapshotName_other:
  assumes "0 \<le> v"
  shows "snapshotName v \<noteq> currentPath" "snapshotName v \<noteq> currentTmpPath" "snapshotName v @ TmpSuffix \<noteq> currentPath"
    "snapshotName v @ TmpSuffix \<noteq> currentTmpPath" "snapshotName v \<noteq> snapshotName u @ TmpSuffix"
  using length_snapshotName [OF assms] snapshotName_not_tmp [OF assms] has_suffix_append [of "snapshotName u" TmpSuffix]
  by (auto simp: currentPath_def currentTmpPath_def TmpSuffix_def dest: arg_cong [of _ _ length])

lemma snapshotName_tmp_inj:
  "0 \<le> a \<Longrightarrow> a < 2 ^ 31 \<Longrightarrow> 0 \<le> b \<Longrightarrow> b < 2 ^ 31 \<Longrightarrow> snapshotName a @ TmpSuffix = snapshotName b @ TmpSuffix \<Longrightarrow> a = b"
  using snapshotName_inj by simp

lemma sname_inject:
  "ver iv k < 2 ^ 31 \<Longrightarrow> ver iv l < 2 ^ 31 \<Longrightarrow> sname iv k = sname iv l \<longleftrightarrow> k = l"
  using snapshotName_inj [of "int (ver iv k)" "int (ver iv l)"] ver_inject [of iv k l] by auto

section \<open>Snapshots of a history\<close>

definition snapshot_at :: "u32 \<Rightarrow> wal_entry list \<Rightarrow> nat \<Rightarrow> multi_dir \<Rightarrow> bool" where
  "snapshot_at iv es k d \<longleftrightarrow> k \<le> length es \<and>
     (\<exists>mk. history iv (take k es) mk \<and> mt_WriteSnapshotWithContext (\<lambda>_. False) mk = Inr d)"

lemma snapshot_at_append: "snapshot_at iv es k d \<Longrightarrow> snapshot_at iv (es @ es') k d"
  by (simp add: snapshot_at_def)

lemma snapshot_at_unique: "snapshot_at iv es k d \<Longrightarrow> snapshot_at iv es k d' \<Longrightarrow> d' = d"
  using history_unique by (fastforce simp: snapshot_at_def)

lemma history_reload:
  assumes "history iv es m"
  shows "\<exists>d t'. mt_WriteSnapshotWithContext (\<lambda>_. False) m = Inr d \<and> LoadMultiTree ops d zc cacheSize = Inr t' \<and> mt_equiv m t'"
proof -
  have "unat (mt_Version m) = ver iv (length es)" "ver iv (length es) < 2 ^ 31"
    using history_version [OF assms] history_take_version [OF assms, of "length es"] unat_ver by simp_all
  then have "\<exists>d t'. mt_WriteSnapshotWithContext (\<lambda>_. False) m = Inr d \<and> LoadMultiTree ops d zc cacheSize = Inr t' \<and>
      mt_initialVersion t' = mt_initialVersion m \<and> lastCommitInfo t' = lastCommitInfo m \<and> treesByName t' = treesByName m \<and>
      list_all2 same_tree (mt_trees m) (mt_trees t')"
    using history_limits [OF assms] by (intro multi_tree_reload [of no_view]) (auto simp: fits_def)
  then show ?thesis
    by (auto simp: mt_equiv_def)
qed

lemma snapshot_load:
  assumes "snapshot_at iv es k d"
  shows "\<exists>mk t'. history iv (take k es) mk \<and> LoadMultiTree ops d zc cacheSize = Inr t' \<and> mt_equiv mk t'"
  using assms history_reload unfolding snapshot_at_def by (metis Inr_inject)

lemma snapshot_metadata: "snapshot_at iv es k d \<Longrightarrow> metadata_file d \<noteq> None"
  by (auto simp: snapshot_at_def mt_WriteSnapshotWithContext_def bind_res_Inr split: option.splits)

section \<open>The directory\<close>

definition tmp_name :: "string \<Rightarrow> bool" where
  "tmp_name name \<longleftrightarrow> (\<exists>v. 0 \<le> v \<and> v < 2 ^ 31 \<and> name = snapshotName v @ TmpSuffix)"

definition dir_ok :: "u32 \<Rightarrow> wal_entry list \<Rightarrow> nat \<Rightarrow> nat \<Rightarrow> root_dir \<Rightarrow> bool" where
  "dir_ok iv es base cur root \<longleftrightarrow>
     distinct (map fst (root_dirs root)) \<and> distinct (map fst (root_links root)) \<and>
     (\<forall>name d. map_of (root_dirs root) name = Some d \<longrightarrow>
        tmp_name name \<or> (\<exists>k. name = sname iv k \<and> base \<le> k \<and> snapshot_at iv es k d)) \<and>
     (\<forall>name. map_of (root_links root) name \<noteq> None \<longrightarrow> name = currentPath \<or> name = currentTmpPath) \<and>
     map_of (root_links root) currentPath = Some (sname iv cur) \<and> map_of (root_dirs root) (sname iv cur) \<noteq> None \<and>
     cur \<le> length es"

lemma dir_okD:
  assumes "dir_ok iv es base cur root"
  shows "distinct (map fst (root_dirs root))" "distinct (map fst (root_links root))"
    and "map_of (root_dirs root) name = Some d \<Longrightarrow>
      tmp_name name \<or> (\<exists>k. name = sname iv k \<and> base \<le> k \<and> snapshot_at iv es k d)"
    and "map_of (root_links root) name = Some target \<Longrightarrow> name = currentPath \<or> name = currentTmpPath"
    and "map_of (root_links root) currentPath = Some (sname iv cur)" "map_of (root_dirs root) (sname iv cur) \<noteq> None"
    and "cur \<le> length es"
  using assms unfolding dir_ok_def by blast+

lemma dir_ok_append: "dir_ok iv es base cur root \<Longrightarrow> dir_ok iv (es @ es') base cur root"
  unfolding dir_ok_def using snapshot_at_append by (metis length_append trans_le_add1)

lemma tmp_name_sname: "\<not> tmp_name (sname iv k)"
  using snapshotName_other(5) by (auto simp: tmp_name_def)

lemma dir_ok_snapshot:
  assumes "dir_ok iv es base cur root" "history iv es m" "map_of (root_dirs root) (sname iv k) = Some d" "ver iv k < 2 ^ 31"
  shows "base \<le> k" "snapshot_at iv es k d"
proof -
  obtain l where l: "sname iv k = sname iv l" "base \<le> l" "snapshot_at iv es l d"
    using dir_okD(3) [OF assms(1,3)] tmp_name_sname by blast
  have "ver iv l < 2 ^ 31"
    using l(3) history_take_version [OF assms(2)] by (simp add: snapshot_at_def)
  with l assms(4) have "l = k"
    using sname_inject by blast
  with l show "base \<le> k" "snapshot_at iv es k d" by simp_all
qed

lemma dir_ok_current:
  assumes "dir_ok iv es base cur root" "history iv es m"
  shows "base \<le> cur \<and> snapshot_at iv es cur (open_dir currentPath root)"
proof -
  have cur: "ver iv cur < 2 ^ 31"
    using history_take_version [OF assms(2) dir_okD(7) [OF assms(1)]] .
  obtain d where d: "map_of (root_dirs root) (sname iv cur) = Some d"
    using dir_okD(6) [OF assms(1)] by blast
  have "open_dir currentPath root = d"
    using dir_okD(5) [OF assms(1)] d by (simp add: open_dir_def)
  with dir_ok_snapshot [OF assms(1,2) d cur] show ?thesis
    by (simp add: snapshot_at_def)
qed

section \<open>Listing\<close>

lemma sorted_ReadDir: "sorted (map fst (ReadDir root))"
  by (simp add: ReadDir_def)

lemma set_ReadDir:
  "(name, True) \<in> set (ReadDir root) \<longleftrightarrow> map_of (root_dirs root) name \<noteq> None"
  "(name, False) \<in> set (ReadDir root) \<longleftrightarrow> map_of (root_links root) name \<noteq> None"
  by (force simp: ReadDir_def map_of_eq_None_iff)+

lemma ReadDir_well_named:
  assumes "dir_ok iv es base cur root" "history iv es m"
  shows "list_all well_named (ReadDir root)"
proof -
  have "well_named e" if e: "e \<in> set (ReadDir root)" for e
  proof (cases e)
    case (Pair name isDir)
    show ?thesis
    proof (cases isDir)
      case True
      then obtain d where "map_of (root_dirs root) name = Some d"
        using e Pair set_ReadDir(1) [of name root] by auto
      from dir_okD(3) [OF assms(1) this] show ?thesis
      proof
        assume "tmp_name name"
        then have "\<not> isSnapshotName name"
          using snapshot_tmp_name by (auto simp: tmp_name_def)
        then show ?thesis
          by (simp add: Pair well_named_def)
      next
        assume "\<exists>k. name = sname iv k \<and> base \<le> k \<and> snapshot_at iv es k d"
        then obtain k where "name = sname iv k" "k \<le> length es"
          by (auto simp: snapshot_at_def)
        then show ?thesis
          using history_take_version [OF assms(2), of k] unfolding Pair well_named_def
          by (intro disjI2 exI [of _ "int (ver iv k)"]) simp
      qed
    qed (simp add: Pair well_named_def)
  qed
  then show ?thesis
    by (simp add: list_all_iff)
qed

text \<open>The commits that have a snapshot.\<close>

definition snapshots :: "u32 \<Rightarrow> wal_entry list \<Rightarrow> root_dir \<Rightarrow> nat set" where
  "snapshots iv es root = {k. k \<le> length es \<and> map_of (root_dirs root) (sname iv k) \<noteq> None}"

lemma finite_snapshots: "finite (snapshots iv es root)"
  by (rule finite_subset [of _ "{..length es}"]) (auto simp: snapshots_def)

lemma versions_ReadDir:
  assumes "dir_ok iv es base cur root" "history iv es m"
  shows "versions (ReadDir root) = (\<lambda>k. int (ver iv k)) ` snapshots iv es root"
proof (intro equalityI subsetI)
  fix v assume "v \<in> versions (ReadDir root)"
  then obtain d where v: "0 \<le> v" "v < 2 ^ 31" "map_of (root_dirs root) (snapshotName v) = Some d"
    using set_ReadDir(1) by (auto simp: versions_def)
  have "\<not> tmp_name (snapshotName v)"
    using snapshotName_other(5) [OF v(1)] by (auto simp: tmp_name_def)
  then obtain k where k: "snapshotName v = sname iv k" "snapshot_at iv es k d"
    using dir_okD(3) [OF assms(1) v(3)] by blast
  then have "k \<le> length es"
    by (simp add: snapshot_at_def)
  moreover have "ver iv k < 2 ^ 31"
    using history_take_version [OF assms(2) \<open>k \<le> length es\<close>] .
  then have "v = int (ver iv k)"
    using snapshotName_inj [OF v(1,2) _ _ k(1)] by simp
  ultimately show "v \<in> (\<lambda>k. int (ver iv k)) ` snapshots iv es root"
    using v(3) by (auto simp: snapshots_def)
next
  fix v assume "v \<in> (\<lambda>k. int (ver iv k)) ` snapshots iv es root"
  then show "v \<in> versions (ReadDir root)"
    using set_ReadDir(1) history_take_version [OF assms(2)] by (auto simp: snapshots_def versions_def)
qed

lemma current_snapshot: "dir_ok iv es base cur root \<Longrightarrow> cur \<in> snapshots iv es root"
  using dir_okD(6,7) by (simp add: snapshots_def)

lemma snapshots_base:
  assumes "dir_ok iv es base cur root" "history iv es m" "k \<in> snapshots iv es root"
  shows "base \<le> k"
proof -
  obtain d where "map_of (root_dirs root) (sname iv k) = Some d" "k \<le> length es"
    using assms(3) by (auto simp: snapshots_def)
  then show ?thesis
    using dir_ok_snapshot(1) [OF assms(1,2)] history_take_version [OF assms(2)] by blast
qed

lemma first_snapshot:
  assumes "dir_ok iv es base cur root" "history iv es m"
  defines "k0 \<equiv> Min (snapshots iv es root)"
  shows "firstSnapshotVersion (ReadDir root) = (if k0 = 0 then Inl (Error ''empty memiavl db'') else Inr (int (ver iv k0)))"
proof -
  have ne: "snapshots iv es root \<noteq> {}"
    using current_snapshot [OF assms(1)] by blast
  have "Min ((\<lambda>k. int (ver iv k)) ` snapshots iv es root) = int (ver iv k0)"
    unfolding k0_def
  proof (rule Min_eqI)
    fix v assume "v \<in> (\<lambda>k. int (ver iv k)) ` snapshots iv es root"
    then show "int (ver iv (Min (snapshots iv es root))) \<le> v"
      using ver_mono [OF Min_le [OF finite_snapshots]] by auto
  qed (use finite_snapshots ne Min_in in auto)
  then show ?thesis
    using traverse_first [OF sorted_ReadDir ReadDir_well_named [OF assms(1,2)]] ne ver_0 [of iv k0]
    by (auto simp: firstSnapshotVersion_def traverseSnapshots_def versions_ReadDir [OF assms(1,2)])
qed

lemma seek_snapshot:
  assumes "dir_ok iv es base cur root" "history iv es m" "j \<le> length es" "k \<in> snapshots iv es root" "k \<le> j"
    and "\<And>l. l \<in> snapshots iv es root \<Longrightarrow> l \<le> j \<Longrightarrow> l \<le> k"
  shows "seekSnapshot (ReadDir root) (of_nat (ver iv j)) = Inr (int (ver iv k))"
proof -
  let ?vs = "{v \<in> versions (ReadDir root). v \<le> uint (of_nat (ver iv j) :: u32)}"
  have "uint (of_nat (ver iv j) :: u32) = int (ver iv j)"
    using history_take_version [OF assms(2,3)] by (simp add: unsigned_of_nat take_bit_nat_eq_self)
  then have vs: "?vs = (\<lambda>l. int (ver iv l)) ` {l \<in> snapshots iv es root. l \<le> j}"
    by (auto simp: versions_ReadDir [OF assms(1,2)] ver_le)
  have "Max ?vs = int (ver iv k)"
    unfolding vs by (rule Max_eqI) (use finite_snapshots assms(4-6) ver_mono in auto)
  moreover have "?vs \<noteq> {}"
    unfolding vs using assms(4,5) by blast
  moreover have "sorted_wrt (\<ge>) (map fst (rev (ReadDir root)))" "list_all well_named (rev (ReadDir root))"
    using sorted_ReadDir ReadDir_well_named [OF assms(1,2)] by (simp_all add: rev_map [symmetric] sorted_wrt_rev)
  moreover have "versions (rev (ReadDir root)) = versions (ReadDir root)"
    by (simp add: versions_def)
  ultimately show ?thesis
    using traverse_seek [of "rev (ReadDir root)" "uint (of_nat (ver iv j) :: u32)"]
    by (simp add: seekSnapshot_def traverseSnapshots_def)
qed

section \<open>Operations on the directory\<close>

text \<open>The temporary directories of a running database hold complete snapshots of the history.\<close>

definition tmp_ok :: "u32 \<Rightarrow> wal_entry list \<Rightarrow> root_dir \<Rightarrow> bool" where
  "tmp_ok iv es root \<longleftrightarrow> (\<forall>name d. map_of (root_dirs root) name = Some d \<and> tmp_name name \<longrightarrow>
     (\<exists>k. name = sname iv k @ TmpSuffix \<and> snapshot_at iv es k d))"

lemma tmp_okD: "tmp_ok iv es root \<Longrightarrow> map_of (root_dirs root) name = Some d \<Longrightarrow> tmp_name name \<Longrightarrow>
    \<exists>k. name = sname iv k @ TmpSuffix \<and> snapshot_at iv es k d"
  by (simp add: tmp_ok_def)

lemma tmp_ok_append: "tmp_ok iv es root \<Longrightarrow> tmp_ok iv (es @ es') root"
  unfolding tmp_ok_def using snapshot_at_append by metis

lemma tmp_ok_mono:
  assumes "tmp_ok iv es root" "\<And>name d. map_of (root_dirs root') name = Some d \<Longrightarrow> tmp_name name \<Longrightarrow> map_of (root_dirs root) name = Some d"
  shows "tmp_ok iv es root'"
  using assms unfolding tmp_ok_def by blast

text \<open>What has to be shown for a changed directory.\<close>

lemma dir_ok_change:
  assumes "dir_ok iv es base cur root" "distinct (map fst (root_dirs root'))" "distinct (map fst (root_links root'))"
    and "\<And>name d. map_of (root_dirs root') name = Some d \<Longrightarrow> map_of (root_dirs root) name = Some d \<or> tmp_name name \<or>
      (\<exists>k. name = sname iv k \<and> base \<le> k \<and> snapshot_at iv es k d)"
    and "\<And>name. map_of (root_links root') name \<noteq> None \<Longrightarrow> map_of (root_links root) name \<noteq> None \<or> name = currentPath \<or> name = currentTmpPath"
    and "map_of (root_links root') currentPath = Some (sname iv cur')" "map_of (root_dirs root') (sname iv cur') \<noteq> None" "cur' \<le> length es"
  shows "dir_ok iv es base cur' root'"
  unfolding dir_ok_def
proof (intro conjI allI impI)
  show "tmp_name name \<or> (\<exists>k. name = sname iv k \<and> base \<le> k \<and> snapshot_at iv es k d)"
    if "map_of (root_dirs root') name = Some d" for name d
    using assms(4) [OF that] dir_okD(3) [OF assms(1)] by blast
  show "name = currentPath \<or> name = currentTmpPath" if "map_of (root_links root') name \<noteq> None" for name
    using assms(5) [OF that] dir_okD(4) [OF assms(1)] by blast
qed (use assms(2,3,6,7,8) in simp_all)

lemmas map_of_alist = update_conv' delete_conv' fun_upd_apply

lemma currentPath_not_tmp: "\<not> has_suffix currentPath TmpSuffix"
  by (simp add: currentPath_def TmpSuffix_def has_suffix_def)

lemma tmp_name_suffix: "tmp_name name \<Longrightarrow> has_suffix name TmpSuffix"
  using has_suffix_append by (auto simp: tmp_name_def)

lemma os_RemoveAll_ok:
  assumes "dir_ok iv es base cur root" "has_suffix name TmpSuffix"
  shows "dir_ok iv es base cur (os_RemoveAll name root)"
proof -
  have "name \<noteq> sname iv k" "name \<noteq> currentPath" for k
    using assms(2) snapshotName_not_tmp currentPath_not_tmp by auto
  then show ?thesis
    using dir_okD [OF assms(1)]
    by (intro dir_ok_change [OF assms(1)]) (auto simp: os_RemoveAll_def distinct_delete map_of_alist split: if_splits)
qed

lemma os_RemoveAll_dirs: "map_of (root_dirs (os_RemoveAll name root)) = (map_of (root_dirs root))(name := None)"
  by (simp add: os_RemoveAll_def delete_conv')

lemma os_RemoveAll_links: "map_of (root_links (os_RemoveAll name root)) = (map_of (root_links root))(name := None)"
  by (simp add: os_RemoveAll_def delete_conv')

lemma remove_fold:
  fixes xs :: "(string \<times> bool) list"
  defines "rm \<equiv> \<lambda>(name, isDir) root. if \<not> isDir \<or> \<not> has_suffix name TmpSuffix then root else os_RemoveAll name root"
  shows "map_of (root_dirs (fold rm xs root)) name =
      (if (name, True) \<in> set xs \<and> has_suffix name TmpSuffix then None else map_of (root_dirs root) name)"
    and "map_of (root_links (fold rm xs root)) name =
      (if (name, True) \<in> set xs \<and> has_suffix name TmpSuffix then None else map_of (root_links root) name)"
    and "dir_ok iv es base cur root \<Longrightarrow> dir_ok iv es base cur (fold rm xs root)"
proof -
  show "map_of (root_dirs (fold rm xs root)) name =
      (if (name, True) \<in> set xs \<and> has_suffix name TmpSuffix then None else map_of (root_dirs root) name)"
    by (induction xs arbitrary: root) (auto simp: rm_def os_RemoveAll_dirs split: if_splits)
  show "map_of (root_links (fold rm xs root)) name =
      (if (name, True) \<in> set xs \<and> has_suffix name TmpSuffix then None else map_of (root_links root) name)"
    by (induction xs arbitrary: root) (auto simp: rm_def os_RemoveAll_links split: if_splits)
  show "dir_ok iv es base cur root \<Longrightarrow> dir_ok iv es base cur (fold rm xs root)"
    by (induction xs arbitrary: root) (auto simp: rm_def os_RemoveAll_ok)
qed

lemma removeTmpDirs_ok:
  assumes "dir_ok iv es base cur root"
  shows "dir_ok iv es base cur (removeTmpDirs root)" "tmp_ok iv es (removeTmpDirs root)"
    and "map_of (root_dirs (removeTmpDirs root)) (sname iv k) = map_of (root_dirs root) (sname iv k)"
    and "map_of (root_links (removeTmpDirs root)) name = map_of (root_links root) name"
proof -
  show "dir_ok iv es base cur (removeTmpDirs root)"
    unfolding removeTmpDirs_def by (rule remove_fold(3) [OF assms])
  show "tmp_ok iv es (removeTmpDirs root)"
    unfolding tmp_ok_def removeTmpDirs_def remove_fold(1) by (auto simp: set_ReadDir(1) dest: tmp_name_suffix split: if_splits)
  show "map_of (root_dirs (removeTmpDirs root)) (sname iv k) = map_of (root_dirs root) (sname iv k)"
    unfolding removeTmpDirs_def remove_fold(1) using snapshotName_not_tmp by simp
  have "\<not> ((name, True) \<in> set (ReadDir root) \<and> has_suffix name TmpSuffix)" if "map_of (root_links root) name \<noteq> None"
  proof
    assume *: "(name, True) \<in> set (ReadDir root) \<and> has_suffix name TmpSuffix"
    then obtain d where d: "map_of (root_dirs root) name = Some d"
      using set_ReadDir(1) by blast
    have "name = currentTmpPath"
      using that dir_okD(4) [OF assms] * currentPath_not_tmp by blast
    then show False
      using dir_okD(3) [OF assms d] snapshotName_other(2,4) by (metis of_nat_0_le_iff tmp_name_def)
  qed
  then show "map_of (root_links (removeTmpDirs root)) name = map_of (root_links root) name"
    unfolding removeTmpDirs_def remove_fold(2) by (cases "map_of (root_links root) name") auto
qed

lemma update_same: "map_of al k = Some v \<Longrightarrow> AList.update k v al = al"
  by (induction al) (auto split: if_splits)

lemma fold_update_same:
  "(\<And>k v. (k, v) \<in> set xs \<Longrightarrow> map_of al k = Some v) \<Longrightarrow> fold (\<lambda>(k, v). AList.update k v) xs al = al"
  by (induction xs) (auto simp: update_same)

lemma write_trees_names: "write_trees ctx trees = Inr dirs \<Longrightarrow> map fst dirs = names trees"
  by (induction trees arbitrary: dirs) (auto simp: bind_res_Inr)

lemma write_into_same:
  assumes "snapshot_at iv es k d"
  shows "write_into d d = d"
proof -
  obtain mk where mk: "history iv (take k es) mk" "mt_WriteSnapshotWithContext (\<lambda>_. False) mk = Inr d"
    using assms by (auto simp: snapshot_at_def)
  then have "map fst (dir_entries d) = names (mt_trees mk)"
    by (auto simp: mt_WriteSnapshotWithContext_def bind_res_Inr write_trees_names split: option.splits)
  moreover have "ascending (names (mt_trees mk))"
    using history_limits [OF mk(1)] by (simp add: mt_ok_def)
  ultimately have "distinct (map fst (dir_entries d))" "sorted (map fst (dir_entries d))"
    using ascending_distinct by (auto simp: strict_sorted_iff)
  moreover from this(1) have "fold (\<lambda>(k, v). AList.update k v) (dir_entries d) (dir_entries d) = dir_entries d"
    by (intro fold_update_same) simp
  ultimately show ?thesis
    by (simp add: write_into_def sort_key_id_if_sorted)
qed

lemma tmp_name_sname_tmp: "ver iv k < 2 ^ 31 \<Longrightarrow> tmp_name (sname iv k @ TmpSuffix)"
  by (auto simp: tmp_name_def intro!: exI [of _ "int (ver iv k)"])

text \<open>The steps of rewriting a snapshot, for a multi-tree in a state of the history.\<close>

definition rewriting ::
    "u32 \<Rightarrow> wal_entry list \<Rightarrow> unit multi_tree \<Rightarrow> nat \<Rightarrow> nat \<Rightarrow> nat \<Rightarrow> root_dir \<Rightarrow> 'c multi_tree \<Rightarrow> bool" where
  "rewriting iv es m base cur k root mt \<longleftrightarrow> history iv es m \<and> dir_ok iv es base cur root \<and> tmp_ok iv es root \<and>
     cur \<le> k \<and> k \<le> length es \<and> (\<exists>mk. history iv (take k es) mk \<and> mt_equiv mk mt)"

lemma rewritingD:
  assumes "rewriting iv es m base cur k root mt"
  shows "history iv es m" "dir_ok iv es base cur root" "tmp_ok iv es root" "cur \<le> k" "k \<le> length es" "base \<le> cur"
    "\<exists>mk. history iv (take k es) mk \<and> mt_equiv mk mt"
  using assms dir_ok_current [of iv es base cur root m] unfolding rewriting_def by blast+

lemma rewriting_version:
  assumes "rewriting iv es m base cur k root mt"
  shows "snapshot_dir mt = sname iv k" "ver iv k < 2 ^ 31"
proof -
  note r = rewritingD [OF assms]
  show v: "ver iv k < 2 ^ 31"
    by (rule history_take_version [OF r(1,5)])
  obtain mk where "history iv (take k es) mk" "mt_equiv mk mt"
    using r(7) by blast
  then have "mt_Version mt = of_nat (ver iv k)"
    using history_version mt_equiv_Version r(5) by fastforce
  then have "sint (mt_Version mt) = int (ver iv k)"
    using v sint_small [of "mt_Version mt"] unat_ver [OF v] by simp
  then show "snapshot_dir mt = sname iv k" by simp
qed

lemma rewriting_write:
  assumes "rewriting iv es m base cur k root mt"
  obtains d root' where "write_tmp (\<lambda>_. False) mt root = (Inr (), root')" "snapshot_at iv es k d"
    "map_of (root_dirs root') = (map_of (root_dirs root))(sname iv k @ TmpSuffix \<mapsto> d)" "root_links root' = root_links root"
    "dir_ok iv es base cur root'" "tmp_ok iv es root'"
proof -
  note r = rewritingD [OF assms] and version = rewriting_version [OF assms]
  obtain mk d where mk: "history iv (take k es) mk" "mt_equiv mk mt" "mt_WriteSnapshotWithContext (\<lambda>_. False) mk = Inr d"
    using r(7) history_reload by blast
  then have d: "snapshot_at iv es k d" "mt_WriteSnapshotWithContext (\<lambda>_. False) mt = Inr d"
    using r(5) mt_WriteSnapshot_equiv [OF mk(2)] by (auto simp: snapshot_at_def)
  let ?tmp = "sname iv k @ TmpSuffix"
  let ?root = "write_dir ?tmp d root"
  note t = tmp_name_sname_tmp [OF version(2)]
  have old: "write_into d old = d" if o: "map_of (root_dirs root) ?tmp = Some old" for old
  proof -
    obtain l where l: "?tmp = sname iv l @ TmpSuffix" "snapshot_at iv es l old"
      using tmp_okD [OF r(3) o t] by blast
    then have "l = k"
      using sname_inject [OF version(2)] history_take_version [OF r(1)] by (auto simp: snapshot_at_def)
    with l(2) d(1) have "old = d"
      using snapshot_at_unique by blast
    then show ?thesis
      using write_into_same [OF d(1)] by simp
  qed
  have dirs: "map_of (root_dirs ?root) = (map_of (root_dirs root))(?tmp \<mapsto> d)"
    using old by (auto simp: write_dir_def update_conv' split: option.split)
  have ne: "?tmp \<noteq> sname iv l" for l
    using snapshotName_other(5) [of "int (ver iv l)" "int (ver iv k)"] by auto
  show ?thesis
  proof (rule that)
    show "write_tmp (\<lambda>_. False) mt root = (Inr (), ?root)"
      by (simp add: write_tmp_def Let_def d(2) version(1))
    have "distinct (map fst (root_dirs ?root))" "root_links ?root = root_links root"
      using dir_okD(1) [OF r(2)] by (simp_all add: write_dir_def distinct_update)
    then show "dir_ok iv es base cur ?root"
      using dir_okD [OF r(2)] t ne by (intro dir_ok_change [OF r(2)]) (auto simp: dirs split: if_splits)
    show "tmp_ok iv es ?root"
      using r(3) d(1) unfolding tmp_ok_def dirs by auto
    show "root_links ?root = root_links root"
      by (simp add: write_dir_def)
  qed (use d(1) dirs in simp_all)
qed

lemma rewriting_cancel:
  assumes rw: "rewriting iv es m base cur k root mt" and "write_tmp ctx mt root = (Inl err, root')"
  shows "dir_ok iv es base cur root'" "tmp_ok iv es root'"
    "map_of (root_dirs root') (sname iv l) = map_of (root_dirs root) (sname iv l)"
proof -
  note version = rewriting_version [OF rw] and dir = rewritingD(2) [OF rw] and tmp = rewritingD(3) [OF rw]
  have r: "root' = os_RemoveAll (sname iv k @ TmpSuffix) root"
    using assms(2) by (auto simp: write_tmp_def Let_def version(1) split: sum.splits)
  show "dir_ok iv es base cur root'"
    unfolding r by (rule os_RemoveAll_ok [OF dir has_suffix_append])
  show "tmp_ok iv es root'"
    unfolding r by (rule tmp_ok_mono [OF tmp]) (auto simp: os_RemoveAll_dirs split: if_splits)
  show "map_of (root_dirs root') (sname iv l) = map_of (root_dirs root) (sname iv l)"
    unfolding r os_RemoveAll_dirs using snapshotName_other(5) [of "int (ver iv l)" "int (ver iv k)"] by simp
qed

lemma rewriting_rename:
  assumes rw: "rewriting iv es m base cur k root mt" and "map_of (root_dirs root) (sname iv k @ TmpSuffix) = Some d" "snapshot_at iv es k d"
  obtains (failed) err where "rename_tmp mt root = (Inl err, root)"
    | (renamed) root' where "rename_tmp mt root = (Inr (), root')" "dir_ok iv es base cur root'" "tmp_ok iv es root'"
      "map_of (root_dirs root') (sname iv k) \<noteq> None"
proof (cases "os_Rename_dir (sname iv k @ TmpSuffix) (sname iv k) root")
  case (Inl err)
  then show ?thesis
    using failed by (simp add: rename_tmp_def keep_root_def rewriting_version(1) [OF rw])
next
  case (Inr root')
  note version = rewriting_version [OF rw] and dir = rewritingD(2) [OF rw] and tmp = rewritingD(3) [OF rw]
  let ?tmp = "sname iv k @ TmpSuffix"
  have r: "root' = root\<lparr>root_dirs := AList.update (sname iv k) d (AList.delete ?tmp (root_dirs root))\<rparr>"
    using Inr assms(2) by (auto simp: os_Rename_dir_def split: if_splits option.splits)
  then have dirs: "map_of (root_dirs root') = (map_of (root_dirs root))(?tmp := None, sname iv k \<mapsto> d)"
    by (simp add: map_of_alist fun_eq_iff)
  have ne: "?tmp \<noteq> sname iv l" for l
    using snapshotName_other(5) [of "int (ver iv l)" "int (ver iv k)"] by auto
  have "distinct (map fst (root_dirs root'))" "root_links root' = root_links root"
    using dir_okD(1) [OF dir] by (simp_all add: r distinct_update distinct_delete)
  moreover have "base \<le> k"
    using rewritingD(4,6) [OF rw] by simp
  ultimately have "dir_ok iv es base cur root'"
    using dir_okD [OF dir] ne ne [symmetric] assms(3) by (intro dir_ok_change [OF dir]) (auto simp: dirs split: if_splits)
  moreover have "tmp_ok iv es root'"
    by (rule tmp_ok_mono [OF tmp]) (auto simp: dirs tmp_name_sname split: if_splits)
  moreover have "rename_tmp mt root = (Inr (), root')"
    by (simp add: rename_tmp_def keep_root_def version(1) Inr)
  ultimately show ?thesis
    using renamed dirs by simp
qed

lemma rewriting_link:
  assumes rw: "rewriting iv es m base cur k root mt"
  obtains (failed) err where "link_tmp mt root = (Inl err, root)"
    | (linked) root' where "link_tmp mt root = (Inr (), root')" "dir_ok iv es base cur root'" "root_dirs root' = root_dirs root"
      "map_of (root_links root') currentTmpPath = Some (sname iv k)"
proof (cases "os_Symlink (sname iv k) currentTmpPath root")
  case (Inl err)
  then show ?thesis
    using failed by (simp add: link_tmp_def keep_root_def rewriting_version(1) [OF rw])
next
  case (Inr root')
  note version = rewriting_version [OF rw] and dir = rewritingD(2) [OF rw]
  from Inr have r: "root' = root\<lparr>root_links := (currentTmpPath, sname iv k) # root_links root\<rparr>"
    and new: "map_of (root_links root) currentTmpPath = None"
    by (auto simp: os_Symlink_def split: if_splits)
  have "currentTmpPath \<noteq> currentPath"
    by (simp add: currentTmpPath_def currentPath_def)
  then have "dir_ok iv es base cur root'"
    using dir_okD [OF dir] new by (intro dir_ok_change [OF dir]) (auto simp: r simp flip: map_of_eq_None_iff split: if_splits)
  then show ?thesis
    using linked Inr r by (simp add: link_tmp_def keep_root_def version(1))
qed

lemma rewriting_switch:
  assumes rw: "rewriting iv es m base cur k root mt" and "map_of (root_links root) currentTmpPath = Some (sname iv k)" "map_of (root_dirs root) (sname iv k) \<noteq> None"
  obtains root' where "rename_link root = (Inr (), root')" "dir_ok iv es base k root'" "root_dirs root' = root_dirs root"
proof -
  note dir = rewritingD(2) [OF rw]
  have "map_of (root_dirs root) currentPath = None"
    using dir_okD(3) [OF dir, of currentPath] snapshotName_other(1,3)
    by (metis not_None_eq of_nat_0_le_iff tmp_name_def)
  then have "rename_link root = (Inr (), root\<lparr>root_links :=
      AList.update currentPath (sname iv k) (AList.delete currentTmpPath (root_links root))\<rparr>)"
    using assms(2) by (simp add: rename_link_def keep_root_def os_Rename_link_def)
  moreover have "dir_ok iv es base k (root\<lparr>root_links :=
      AList.update currentPath (sname iv k) (AList.delete currentTmpPath (root_links root))\<rparr>)"
    using dir_okD [OF dir] assms(2,3) rewritingD(5) [OF rw]
    by (intro dir_ok_change [OF dir]) (auto simp: distinct_update distinct_delete map_of_alist split: if_splits)
  ultimately show ?thesis
    using that by simp
qed

section \<open>Pruning\<close>

lemma atomicRemoveDir_ok:
  assumes "atomicRemoveDir (sname iv k) root = Inr root'" "dir_ok iv es base cur root" "tmp_ok iv es root"
    "history iv es m" "k \<noteq> cur" "ver iv k < 2 ^ 31"
  shows "dir_ok iv es base cur root'" "tmp_ok iv es root'" "root_links root' = AList.delete (sname iv k @ TmpSuffix) (root_links root)"
    "l \<noteq> k \<Longrightarrow> l \<le> length es \<Longrightarrow> map_of (root_dirs root') (sname iv l) = map_of (root_dirs root) (sname iv l)"
    "map_of (root_dirs root') (sname iv k) = None"
proof -
  let ?tmp = "sname iv k @ TmpSuffix"
  obtain d root1 where d: "map_of (root_dirs root) (sname iv k) = Some d"
    "root1 = root\<lparr>root_dirs := AList.update ?tmp d (AList.delete (sname iv k) (root_dirs root))\<rparr>"
    "root' = os_RemoveAll ?tmp root1"
    using assms(1) by (auto simp: atomicRemoveDir_def bind_res_Inr os_Rename_dir_def split: option.splits if_splits)
  have ne: "?tmp \<noteq> sname iv l" "sname iv l \<noteq> ?tmp" for l
    using snapshotName_other(5) [of "int (ver iv l)" "int (ver iv k)"] by auto
  have dirs: "map_of (root_dirs root') = (map_of (root_dirs root))(sname iv k := None, ?tmp := None)"
    by (simp add: d(2,3) os_RemoveAll_dirs map_of_alist fun_eq_iff)
  have other: "sname iv l \<noteq> sname iv k" if "l \<noteq> k" "l \<le> length es" for l
    using sname_inject [of iv l k] history_take_version [OF assms(4) that(2)] assms(6) that(1) by simp
  have cur: "sname iv cur \<noteq> sname iv k"
    using other [of cur] assms(5) dir_okD(7) [OF assms(2)] by blast
  have cp: "?tmp \<noteq> currentPath"
    using snapshotName_other(3) by simp
  have "distinct (map fst (root_dirs root'))" "distinct (map fst (root_links root'))"
    "map_of (root_links root') = (map_of (root_links root))(?tmp := None)"
    using dir_okD(1,2) [OF assms(2)]
    by (simp_all add: d(2,3) os_RemoveAll_def distinct_update distinct_delete delete_conv')
  then show "dir_ok iv es base cur root'"
    using dir_okD [OF assms(2)] cur ne cp by (intro dir_ok_change [OF assms(2)]) (auto simp: dirs split: if_splits)
  show "tmp_ok iv es root'"
    by (rule tmp_ok_mono [OF assms(3)]) (auto simp: dirs split: if_splits)
  show "root_links root' = AList.delete ?tmp (root_links root)"
    by (simp add: d(2,3) os_RemoveAll_def)
  show "map_of (root_dirs root') (sname iv l) = map_of (root_dirs root) (sname iv l)" if "l \<noteq> k" "l \<le> length es"
    using other [OF that] ne by (simp add: dirs)
  show "map_of (root_dirs root') (sname iv k) = None"
    by (simp add: dirs)
qed

text \<open>Visiting a directory entry removes at most a snapshot below the given version.\<close>

lemma visit_cases:
  assumes "visit e counter c root = Some (counter', root')" "well_named e" "dir_ok iv es base cur root" "history iv es m"
  obtains (same) "root' = root"
    | (removed) k where "atomicRemoveDir (sname iv k) root = Inr root'" "ver iv k < 2 ^ 31" "int (ver iv k) < c" "e = (sname iv k, True)"
proof (cases "root' = root")
  case False
  obtain name isDir where e: "e = (name, isDir)" by fastforce
  obtain v where v: "isDir" "isSnapshotName name" "parseVersion name = Inr v" "v < c"
    "atomicRemoveDir (snapshotName v) root = Inr root'"
    using assms(1) False by (auto simp: visit_def e split: if_splits sum.splits)
  obtain v' where v': "0 \<le> v'" "v' < 2 ^ 31" "name = snapshotName v'"
    using assms(2) v(1,2) by (auto simp: e well_named_def)
  then have eq: "v = v'"
    using v(3) parse_known by simp
  obtain d where d: "map_of (root_dirs root) (snapshotName v) = Some d"
    using v(5) by (auto simp: atomicRemoveDir_def bind_res_Inr os_Rename_dir_def split: option.splits)
  have "\<not> tmp_name (snapshotName v)"
    using snapshotName_other(5) v'(1) eq by (auto simp: tmp_name_def)
  then obtain k where k: "snapshotName v = sname iv k" "snapshot_at iv es k d"
    using dir_okD(3) [OF assms(3) d] by blast
  then have "ver iv k < 2 ^ 31"
    using history_take_version [OF assms(4)] by (simp add: snapshot_at_def)
  moreover from this have "v = int (ver iv k)"
    using snapshotName_inj [OF _ _ _ _ k(1)] v'(1,2) eq by simp
  ultimately show ?thesis
    using removed v e eq v'(3) by simp
qed (use same in blast)

lemma visit_ok:
  assumes "visit e counter c root = Some (counter', root')" "well_named e" "dir_ok iv es base cur root" "tmp_ok iv es root"
    "history iv es m" "c \<le> int (ver iv cur)"
  shows "dir_ok iv es base cur root'" "tmp_ok iv es root'"
    "cur \<le> l \<Longrightarrow> l \<le> length es \<Longrightarrow> map_of (root_dirs root') (sname iv l) = map_of (root_dirs root) (sname iv l)"
    "map_of (root_links root') currentTmpPath = map_of (root_links root) currentTmpPath"
    "cur \<le> l \<Longrightarrow> l \<le> length es \<Longrightarrow> map_of (root_dirs root') (sname iv l @ TmpSuffix) = map_of (root_dirs root) (sname iv l @ TmpSuffix)"
proof -
  have "dir_ok iv es base cur root' \<and> tmp_ok iv es root' \<and>
    (cur \<le> l \<longrightarrow> l \<le> length es \<longrightarrow> map_of (root_dirs root') (sname iv l) = map_of (root_dirs root) (sname iv l)) \<and>
    map_of (root_links root') currentTmpPath = map_of (root_links root) currentTmpPath \<and>
    (cur \<le> l \<longrightarrow> l \<le> length es \<longrightarrow>
      map_of (root_dirs root') (sname iv l @ TmpSuffix) = map_of (root_dirs root) (sname iv l @ TmpSuffix))"
    using assms(1-3,5)
  proof (cases rule: visit_cases)
    case same
    then show ?thesis
      using assms(3,4) by simp
  next
    case (removed k)
    have "k < cur"
      using removed(3) assms(6) ver_less [of iv k cur] by simp
    then have ne: "k \<noteq> cur" by simp
    note r = atomicRemoveDir_ok [OF removed(1) assms(3-5) ne removed(2)]
    have "currentTmpPath \<noteq> sname iv k @ TmpSuffix"
      using snapshotName_other(4) [of "int (ver iv k)"] by auto
    then have "map_of (root_links root') currentTmpPath = map_of (root_links root) currentTmpPath"
      by (simp add: r(3) delete_conv')
    moreover have "map_of (root_dirs root') (sname iv l @ TmpSuffix) = map_of (root_dirs root) (sname iv l @ TmpSuffix)"
      if "cur \<le> l" "l \<le> length es"
    proof -
      have "sname iv l \<noteq> sname iv k"
        using sname_inject [of iv l k] history_take_version [OF assms(5) that(2)] removed(2) that(1) \<open>k < cur\<close> by simp
      moreover have "sname iv l @ TmpSuffix \<noteq> sname iv k"
        using snapshotName_other(5) [of "int (ver iv k)" "int (ver iv l)"] by auto
      ultimately show ?thesis
        using removed(1)
        by (auto simp: atomicRemoveDir_def bind_res_Inr os_Rename_dir_def os_RemoveAll_dirs map_of_alist split: option.splits if_splits)
    qed
    ultimately show ?thesis
      using r(1,2,4) \<open>k < cur\<close> by simp
  qed
  then show "dir_ok iv es base cur root'" "tmp_ok iv es root'"
    "cur \<le> l \<Longrightarrow> l \<le> length es \<Longrightarrow> map_of (root_dirs root') (sname iv l) = map_of (root_dirs root) (sname iv l)"
    "map_of (root_links root') currentTmpPath = map_of (root_links root) currentTmpPath"
    "cur \<le> l \<Longrightarrow> l \<le> length es \<Longrightarrow> map_of (root_dirs root') (sname iv l @ TmpSuffix) = map_of (root_dirs root) (sname iv l @ TmpSuffix)"
    by blast+
qed

lemma dir_ok_base:
  assumes "dir_ok iv es base cur root" "history iv es m" "\<And>k. k \<in> snapshots iv es root \<Longrightarrow> base' \<le> k"
  shows "dir_ok iv es base' cur root"
  unfolding dir_ok_def
proof (intro conjI allI impI)
  show "tmp_name name \<or> (\<exists>k. name = sname iv k \<and> base' \<le> k \<and> snapshot_at iv es k d)"
    if "map_of (root_dirs root) name = Some d" for name d
    using dir_okD(3) [OF assms(1) that]
  proof
    assume "\<exists>k. name = sname iv k \<and> base \<le> k \<and> snapshot_at iv es k d"
    then obtain k where k: "name = sname iv k" "snapshot_at iv es k d" by blast
    then have "k \<in> snapshots iv es root"
      using that by (simp add: snapshots_def snapshot_at_def)
    with k assms(3) show ?thesis by blast
  qed blast
qed (use dir_okD [OF assms(1)] in blast)+

text \<open>Truncating the log keeps every entry after the oldest snapshot.\<close>

lemma truncate_log_ok:
  assumes "wal_contract wops view" "view w = (base, bs)" "log_of es (base, bs)" "dir_ok iv es base cur root" "history iv es m"
  obtains base' bs' where "view (truncate_log wops iv root w) = (base', bs')" "log_of es (base', bs')"
    "base' + length bs' = base + length bs" "base \<le> base'" "base' \<le> cur" "dir_ok iv es base' cur root"
proof -
  let ?k0 = "Min (snapshots iv es root)"
  note in_snapshots = Min_in [OF finite_snapshots [of iv es root]] and current = current_snapshot [OF assms(4)]
  have k0: "?k0 \<in> snapshots iv es root" "?k0 \<le> cur" "base \<le> ?k0"
    using in_snapshots current Min_le [OF finite_snapshots current] snapshots_base [OF assms(4,5)] by blast+
  have base: "base \<le> cur"
    using k0 by simp
  have len: "base + length bs < 2 ^ 31" "ver iv ?k0 < 2 ^ 31"
    using assms(3) history_length [OF assms(5)] history_take_version [OF assms(5)] k0(1) by (simp_all add: log_of_def snapshots_def)
  define i where "i = walIndex (of_int ((if ?k0 = 0 then 0 else int (ver iv ?k0)) + 1)) iv"
  have t: "truncate_log wops iv root w = (case w_TruncateFront wops i w of Inl _ \<Rightarrow> w | Inr w \<Rightarrow> w)"
    by (simp add: truncate_log_def first_snapshot [OF assms(4,5)] i_def Let_def)
  show ?thesis
  proof (cases "base < unat i \<and> unat i \<le> base + length bs")
    case False
    then obtain err where "w_TruncateFront wops i w = Inl err"
      using wal_contractD(6) [OF assms(1,2)] by blast
    then show ?thesis
      using that [of base bs] assms base by (simp add: t)
  next
    case True
    have ui: "unat i = Suc ?k0"
    proof (cases "?k0 = 0")
      case True
      have "unat i \<le> base + length bs" using \<open>base < unat i \<and> unat i \<le> base + length bs\<close> by simp
      have "iv \<le> 1"
      proof (rule ccontr)
        assume "\<not> iv \<le> 1"
        then have iv: "1 < iv" by simp
        then have "i + ucast iv = 2"
          using True by (simp add: i_def walIndex_def)
        moreover have "unat (ucast iv :: u64) = unat iv" "unat iv < 2 ^ 32"
          using unsigned_less [of iv, where 'a = nat] by (simp_all add: word_conv)
        ultimately have "unat i + unat iv = unat (2 :: u64)"
          using unat_plus_less [of i "ucast iv"] \<open>unat i \<le> base + length bs\<close> len(1) by simp
        moreover have "1 < unat iv"
          using iv by (simp add: word_less_nat_alt)
        ultimately show False
          using \<open>base < unat i \<and> unat i \<le> base + length bs\<close> by simp
      qed
      then have "\<not> iv > 1" by simp
      then show ?thesis
        using True by (simp add: i_def walIndex_def)
    next
      case False
      have "i = walIndex (of_nat (ver iv (Suc ?k0))) iv"
        using False ver_Suc [of iv ?k0] by (simp add: i_def add.commute)
      then have "i = of_nat (Suc ?k0)"
        using walIndex_ver [of "Suc ?k0" iv] by simp
      then show ?thesis
        using ver_ge [of ?k0 iv] len(2) unat_of_nat_less [of "Suc ?k0", where 'a = 64] by simp
    qed
    obtain w' where w': "w_TruncateFront wops i w = Inr w'" "view w' = (?k0, drop (?k0 - base) bs)"
      using wal_contractD(5) [OF assms(1,2), of i] True ui by auto
    have "dir_ok iv es ?k0 cur root"
      by (rule dir_ok_base [OF assms(4,5) Min_le [OF finite_snapshots]])
    moreover have "log_of es (?k0, drop (?k0 - base) bs)"
      using assms(3) k0(3) True ui by (auto simp: log_of_def)
    ultimately show ?thesis
      using that [of ?k0 "drop (?k0 - base) bs"] w' k0 True ui by (simp add: t)
  qed
qed

end
