(* ===== verification/Db_Run.thy ===== *)
theory Db_Run
  imports Db_Disk
begin

text \<open>
  The steps of a database: calls of its methods, one at a time under the mutex, interleaved with the
  steps of its goroutines, and the invariant that relates every state to the history of the
  committed entries. The memory is the history plus the pending log, the log followed by the entries
  in flight is the history, and the directory holds snapshots of the history.
\<close>

section \<open>Steps\<close>

text \<open>
  One step, with the entries it commits. Upgrades come first in a block, as the application calls
  them; the change sets of one call are for distinct stores; trees, snapshots, versions and log
  entries stay within the limits of their formats.
\<close>

inductive db_step :: "'c cache_ops \<Rightarrow> 'w wal_ops \<Rightarrow> ('c, 'w) db \<Rightarrow> wal_entry list \<Rightarrow> ('c, 'w) db \<Rightarrow> bool" for ops wops where
  upgrades: "db_pc db = Idle \<Longrightarrow> pendingLog db = WALEntry_zero \<Longrightarrow> db_ApplyUpgrades ops us db = Inr db' \<Longrightarrow>
    db_step ops wops db [] db'"
| changes: "db_pc db = Idle \<Longrightarrow> distinct (change_names css) \<Longrightarrow> room (total_pairs css) (db_mt db) \<Longrightarrow>
    db_ApplyChangeSets ops css db = Inr db' \<Longrightarrow> db_step ops wops db [] db'"
| change: "db_pc db = Idle \<Longrightarrow> room (length cs) (db_mt db) \<Longrightarrow> db_ApplyChangeSet ops name cs db = Inr db' \<Longrightarrow>
    db_step ops wops db [] db'"
| commit: "db_pc db = Idle \<Longrightarrow> commit_begin wops db = Inr db' \<Longrightarrow> fits (db_mt db') \<Longrightarrow>
    unat (mt_next (db_mt db)) < 2 ^ 31 \<Longrightarrow> WALEntry_Size (pendingLog db) < 2 ^ 63 \<Longrightarrow> db_step ops wops db [pendingLog db] db'"
| send: "commit_send db = Some db' \<Longrightarrow> db_step ops wops db [] db'"
| check: "commit_check ops db = Some (Inr db') \<Longrightarrow> db_step ops wops db [] db'"
| wait: "commit_wait ops wops db = Some (Inr db') \<Longrightarrow> db_step ops wops db [] db'"
| lock: "commit_prune ops db = Some (Inr db') \<Longrightarrow> db_step ops wops db [] db'"
| background: "db_pc db = Idle \<Longrightarrow> pendingLog db = WALEntry_zero \<Longrightarrow> RewriteSnapshotBackground ops db = Inr db' \<Longrightarrow>
    db_step ops wops db [] db'"
| writer: "writer_step wops db = Some db' \<Longrightarrow> db_step ops wops db [] db'"
| rewrite: "rewrite_step ops wops (\<lambda>_. False) db = Some db' \<Longrightarrow> db_step ops wops db [] db'"
| cancel: "snapshotRewrite db = Some (Cloned mt) \<Longrightarrow> write_tmp ctx mt (db_root db) = (Inl err, root) \<Longrightarrow>
    db_step ops wops db [] (advance (Inl err, root) (Written mt) db)"
| prune: "prune_step wops db = Some db' \<Longrightarrow> db_step ops wops db [] db'"

section \<open>The invariant\<close>

definition at_commit :: "u32 \<Rightarrow> wal_entry list \<Rightarrow> nat \<Rightarrow> 'c multi_tree \<Rightarrow> bool" where
  "at_commit iv es k mt \<longleftrightarrow> k \<le> length es \<and> (\<exists>mk. history iv (take k es) mk \<and> mt_equiv mk mt)"

definition flight :: "wal_item list option \<Rightarrow> writer \<Rightarrow> 'c pc \<Rightarrow> wal_item list" where
  "flight chan quit pc =
     (case chan of None \<Rightarrow> [] | Some queue \<Rightarrow> (case quit of Writing items \<Rightarrow> items | _ \<Rightarrow> []) @ queue) @
     (case pc of Sending e v \<Rightarrow> [e] | _ \<Rightarrow> [])"

abbreviation in_flight :: "('c, 'w) db \<Rightarrow> wal_item list" where
  "in_flight db \<equiv> flight (walChan db) (walQuit db) (db_pc db)"

definition items_from :: "wal_entry list \<Rightarrow> nat \<Rightarrow> wal_item list" where
  "items_from es n = map (\<lambda>i. \<lparr>wi_index = of_nat (Suc i), wi_data = es ! i\<rparr>) [n..<length es]"

text \<open>The log to replay on the last commit; while the entry is sent, the pending log is that entry.\<close>

definition mem_log :: "'c pc \<Rightarrow> wal_entry \<Rightarrow> wal_entry" where
  "mem_log pc p = (case pc of Sending _ _ \<Rightarrow> WALEntry_zero | _ \<Rightarrow> p)"

definition mem_ok :: "wal_entry \<Rightarrow> unit multi_tree \<Rightarrow> 'c multi_tree \<Rightarrow> bool" where
  "mem_ok p m t \<longleftrightarrow> distinct (change_names (Changesets p)) \<and>
     (\<exists>m1. applyWALEntry no_cache p m = Inr m1 \<and> mt_sound m1 \<and> mt_equiv m1 t)"

definition rewriter_ok :: "u32 \<Rightarrow> wal_entry list \<Rightarrow> nat \<Rightarrow> root_dir \<Rightarrow> 'c rewriter \<Rightarrow> bool" where
  "rewriter_ok iv es cur root r \<longleftrightarrow>
     (case r of
        Cloned mt \<Rightarrow> \<exists>k \<ge> cur. at_commit iv es k mt
      | Written mt \<Rightarrow> \<exists>k \<ge> cur. at_commit iv es k mt \<and>
          (\<exists>d. map_of (root_dirs root) (sname iv k @ TmpSuffix) = Some d \<and> snapshot_at iv es k d)
      | Renamed mt \<Rightarrow> \<exists>k \<ge> cur. at_commit iv es k mt \<and> map_of (root_dirs root) (sname iv k) \<noteq> None
      | Linked mt \<Rightarrow> \<exists>k \<ge> cur. at_commit iv es k mt \<and> map_of (root_dirs root) (sname iv k) \<noteq> None \<and>
          map_of (root_links root) currentTmpPath = Some (sname iv k)
      | Current mt \<Rightarrow> True
      | Loaded mt \<Rightarrow> \<exists>k \<ge> cur. at_commit iv es k mt
      | Result (Inr mt) \<Rightarrow> \<exists>k \<ge> cur. at_commit iv es k mt
      | Result (Inl err) \<Rightarrow> False
      | Closed \<Rightarrow> True)"

definition pruner_ok :: "u32 \<Rightarrow> nat \<Rightarrow> pruner option \<Rightarrow> bool" where
  "pruner_ok iv cur p \<longleftrightarrow>
     (case p of Some (Visiting es counter c) \<Rightarrow> list_all well_named es \<and> c \<le> int (ver iv cur) | _ \<Rightarrow> True)"

definition pc_ok :: "u32 \<Rightarrow> wal_entry list \<Rightarrow> nat \<Rightarrow> wal_entry \<Rightarrow> 'c pc \<Rightarrow> bool" where
  "pc_ok iv es cur p pc \<longleftrightarrow>
     (case pc of
        Idle \<Rightarrow> True
      | Sending e v \<Rightarrow> es \<noteq> []
      | Checking v \<Rightarrow> p = WALEntry_zero \<and> es \<noteq> []
      | Switching mt v err \<Rightarrow> p = WALEntry_zero \<and> err = None \<and> (\<exists>k \<ge> cur. at_commit iv es k mt) \<and> es \<noteq> []
      | Pruning v err \<Rightarrow> p = WALEntry_zero \<and> err = None)"

fun switching :: "'c pc \<Rightarrow> bool" where
  "switching (Switching _ _ _) = True"
| "switching _ = False"

fun sending :: "'c pc \<Rightarrow> bool" where
  "sending (Sending _ _) = True"
| "sending _ = False"

text \<open>\<open>SnapshotVersion\<close> of a multi-tree that was not loaded from a later snapshot.\<close>

definition fresh :: "'c multi_tree \<Rightarrow> bool" where
  "fresh mt \<longleftrightarrow> (case md_CommitInfo (mt_metadata mt) of None \<Rightarrow> False | Some ci \<Rightarrow> ci_Version ci = 0)"

definition db_inv ::
    "('w \<Rightarrow> nat \<times> bytes list) \<Rightarrow> u32 \<Rightarrow> wal_entry list \<Rightarrow> unit multi_tree \<Rightarrow> 'w \<Rightarrow> nat \<Rightarrow> bytes list \<Rightarrow> nat \<Rightarrow> ('c, 'w) db \<Rightarrow> bool" where
  "db_inv view iv es m w base bs cur db \<longleftrightarrow>
     history iv es m \<and> db_wal db = Some w \<and> view w = (base, bs) \<and> log_of es (base, bs) \<and>
     in_flight db = items_from es (base + length bs) \<and>
     dir_ok iv es base cur (db_root db) \<and> tmp_ok iv es (db_root db) \<and>
     mem_ok (mem_log (db_pc db) (pendingLog db)) m (db_mt db) \<and>
     (\<forall>r. snapshotRewrite db = Some r \<longrightarrow> rewriter_ok iv es cur (db_root db) r) \<and>
     pruner_ok iv cur (db_prune db) \<and> pc_ok iv es cur (pendingLog db) (db_pc db) \<and>
     \<not> db_readOnly db \<and> (\<forall>err. walQuit db \<noteq> Quit err) \<and> snapshotInterval db \<noteq> 0 \<and> (walChanSize db < 0 \<longrightarrow> walChan db = None) \<and>
     (base + length bs = 0 \<longrightarrow> fresh (db_mt db)) \<and>
     (switching (db_pc db) \<longrightarrow> snapshotRewrite db = None) \<and> (sending (db_pc db) \<longrightarrow> walChan db \<noteq> None)"

definition db_good :: "('w \<Rightarrow> nat \<times> bytes list) \<Rightarrow> u32 \<Rightarrow> wal_entry list \<Rightarrow> ('c, 'w) db \<Rightarrow> bool" where
  "db_good view iv es db \<longleftrightarrow> (\<exists>m w base bs cur. db_inv view iv es m w base bs cur db)"

lemma db_invD:
  assumes "db_inv view iv es m w base bs cur db"
  shows "history iv es m" "db_wal db = Some w" "view w = (base, bs)" "log_of es (base, bs)"
    "in_flight db = items_from es (base + length bs)" "dir_ok iv es base cur (db_root db)" "tmp_ok iv es (db_root db)"
    "mem_ok (mem_log (db_pc db) (pendingLog db)) m (db_mt db)" "snapshotRewrite db = Some r \<Longrightarrow> rewriter_ok iv es cur (db_root db) r"
    "pruner_ok iv cur (db_prune db)" "pc_ok iv es cur (pendingLog db) (db_pc db)" "\<not> db_readOnly db"
    "walQuit db \<noteq> Quit err" "snapshotInterval db \<noteq> 0" "walChanSize db < 0 \<Longrightarrow> walChan db = None"
    "base + length bs = 0 \<Longrightarrow> fresh (db_mt db)" "switching (db_pc db) \<Longrightarrow> snapshotRewrite db = None"
    "sending (db_pc db) \<Longrightarrow> walChan db \<noteq> None"
  using assms unfolding db_inv_def by blast+

section \<open>Small facts\<close>

lemma history_next: "history iv es m \<Longrightarrow> 0 < mt_next m \<and> unat (mt_next m) < 2 ^ 32"
proof -
  assume h: "history iv es m"
  have "ver iv (Suc (length es)) < 2 ^ 32"
  proof (cases "es = []")
    case True
    then show ?thesis
      using unsigned_less [of iv, where 'a = nat] by (simp add: ver_def)
  next
    case False
    then show ?thesis
      using history_limits [OF h] by (simp add: ver_Suc)
  qed
  moreover have "mt_next m = of_nat (ver iv (Suc (length es)))"
    using history_version [OF h] nextVersion_ver [of iv "length es"] calculation by simp
  moreover have "unat (of_nat (ver iv (Suc (length es))) :: u64) = ver iv (Suc (length es))"
    by (rule unat_of_nat_less) (use calculation in simp)
  moreover have "0 < ver iv (Suc (length es))"
    using ver_0 [of iv "Suc (length es)"] by simp
  ultimately show ?thesis
    by (simp add: word_less_nat_alt)
qed

lemma at_commit_append: "at_commit iv es k mt \<Longrightarrow> at_commit iv (es @ es') k mt"
  by (simp add: at_commit_def)

lemma at_commit_equiv: "at_commit iv es k mt \<Longrightarrow> mt_equiv mt mt' \<Longrightarrow> at_commit iv es k mt'"
  unfolding at_commit_def using mt_equiv_trans by blast

lemma at_commit_last: "history iv es m \<Longrightarrow> mt_equiv m mt \<Longrightarrow> at_commit iv es (length es) mt"
  by (auto simp: at_commit_def)

lemma apply_zero: "applyWALEntry ops WALEntry_zero t = Inr t"
  by (simp add: applyWALEntry_def WALEntry_zero_def ApplyUpgrades_def)

lemma mem_ok_zero: "mem_ok WALEntry_zero m t \<longleftrightarrow> mt_sound m \<and> mt_equiv m t"
proof -
  have "Changesets WALEntry_zero = []"
    by (simp add: WALEntry_zero_def)
  then show ?thesis
    by (auto simp: mem_ok_def apply_zero)
qed

lemma room_counts: "room n t \<longleftrightarrow> (\<forall>c \<in> (\<lambda>e. tree_count (nt_Tree e)) ` set (mt_trees t). c + n \<le> 2 ^ 62)"
  by (simp add: room_def)

lemma room_equiv: "mt_equiv t t' \<Longrightarrow> room n t' \<longleftrightarrow> room n t"
proof -
  assume "mt_equiv t t'"
  then have "map (\<lambda>e. tree_count (nt_Tree e)) (mt_trees t') = map (\<lambda>e. tree_count (nt_Tree e)) (mt_trees t)"
    by (auto simp: mt_equiv_def list_all2_conv_all_nth same_tree_def intro!: nth_equalityI)
  then have "(\<lambda>e. tree_count (nt_Tree e)) ` set (mt_trees t') = (\<lambda>e. tree_count (nt_Tree e)) ` set (mt_trees t)"
    by (metis list.set_map)
  then show ?thesis
    by (simp only: room_counts)
qed

text \<open>Only loading a snapshot sets the metadata.\<close>

lemma ApplyUpgrades_metadata: "ApplyUpgrades ops us t = Inr t' \<Longrightarrow> mt_metadata t' = mt_metadata t"
proof -
  have one: "mt_metadata b = mt_metadata a" if "apply_upgrade ops u a = Inr b" for u a b
    using that by (auto simp: apply_upgrade_def Let_def bind_res_Inr split: if_splits option.splits)
  have "mt_metadata b = mt_metadata a" if "apply_upgrade_list ops us a = Inr b" for a b
    using that by (induction us arbitrary: a) (auto simp: bind_res_Inr dest: one)
  then show "ApplyUpgrades ops us t = Inr t' \<Longrightarrow> mt_metadata t' = mt_metadata t"
    by (fastforce simp: ApplyUpgrades_def bind_res_Inr Let_def split: if_splits)
qed

lemma mt_ApplyChangeSet_metadata: "mt_ApplyChangeSet ops name cs t = Inr t' \<Longrightarrow> mt_metadata t' = mt_metadata t"
  by (auto simp: mt_ApplyChangeSet_def split: option.splits if_splits)

lemma mt_ApplyChangeSets_metadata: "mt_ApplyChangeSets ops css t = Inr t' \<Longrightarrow> mt_metadata t' = mt_metadata t"
  by (induction css arbitrary: t) (auto simp: bind_res_Inr dest: mt_ApplyChangeSet_metadata)

lemma mt_SaveVersion_metadata: "mt_SaveVersion u t = Inr (v, t') \<Longrightarrow> mt_metadata t' = mt_metadata t"
  by (auto simp: mt_SaveVersion_def bind_res_Inr Let_def UpdateCommitInfo_def split: if_splits)

section \<open>Changes in memory\<close>

lemma mem_upgrades:
  assumes "history iv es m" "mem_ok WALEntry_zero m t" "ApplyUpgrades ops us t = Inr t'"
  shows "mem_ok (WALEntry_zero\<lparr>Upgrades := us\<rparr>) m t'"
proof -
  have m: "mt_sound m" "mt_equiv m t"
    using assms(2) by (simp_all add: mem_ok_zero)
  obtain m' where m': "ApplyUpgrades no_cache us m = Inr m'" "mt_equiv m' t'"
    using rel_res_Inr [OF ApplyUpgrades_equiv [OF mt_equiv_sym [OF m(2)]] assms(3)] mt_equiv_sym by blast
  have "mt_sound m'"
    using ApplyUpgrades_ok [OF no_cache_contract m(1) _ _ m'(1)] history_next [OF assms(1)] by blast
  then show ?thesis
    using m' by (auto simp: mem_ok_def applyWALEntry_def WALEntry_zero_def)
qed

lemma mem_change:
  assumes "history iv es m" "mem_ok p m t" "room (length cs + n) t" "mt_ApplyChangeSet ops name cs t = Inr t'"
  shows "mem_ok (p\<lparr>Changesets := merge_change_set name cs (Changesets p)\<rparr>) m t' \<and> room n t'"
proof -
  obtain m1 where m1: "applyWALEntry no_cache p m = Inr m1" "mt_sound m1" "mt_equiv m1 t" "distinct (change_names (Changesets p))"
    using assms(2) by (auto simp: mem_ok_def)
  obtain mu where mu: "ApplyUpgrades no_cache (Upgrades p) m = Inr mu" "mt_ApplyChangeSets no_cache (Changesets p) mu = Inr m1"
    using m1(1) by (auto simp: applyWALEntry_def bind_res_Inr)
  have "mt_sound m"
    using history_limits [OF assms(1)] by blast
  then have "indexed mu"
    using ApplyUpgrades_ok [OF no_cache_contract _ _ _ mu(1)] history_next [OF assms(1)] mt_ok_indexed by blast
  obtain m1' where m1': "mt_ApplyChangeSet no_cache name cs m1 = Inr m1'" "mt_equiv m1' t'"
    using rel_res_Inr [OF mt_ApplyChangeSet_equiv [OF mt_equiv_sym [OF m1(3)]] assms(4)] mt_equiv_sym by blast
  have "room (length cs + n) m1"
    using room_equiv [OF m1(3)] assms(3) by blast
  then have "mt_sound m1'" "room n m1'"
    using mt_ApplyChangeSet_ok [OF no_cache_contract m1(2) _ m1'(1)] by blast+
  moreover have "applyWALEntry no_cache (p\<lparr>Changesets := merge_change_set name cs (Changesets p)\<rparr>) m = Inr m1'"
    using merge_change_set_applied [OF \<open>indexed mu\<close> m1(4) mu(2) m1'(1)] mu(1) by (simp add: applyWALEntry_def)
  ultimately show ?thesis
    using m1'(2) merge_change_set_distinct [OF m1(4)] room_equiv [OF m1'(2)] by (auto simp: mem_ok_def)
qed

lemma mem_changes:
  assumes "history iv es m" "mem_ok p m t" "Changesets p = []" "room (total_pairs css) t" "distinct (change_names css)"
    "mt_ApplyChangeSets ops css t = Inr t'"
  shows "mem_ok (p\<lparr>Changesets := css\<rparr>) m t'"
proof -
  obtain m1 where m1: "applyWALEntry no_cache p m = Inr m1" "mt_sound m1" "mt_equiv m1 t"
    using assms(2) by (auto simp: mem_ok_def)
  obtain m1' where m1': "mt_ApplyChangeSets no_cache css m1 = Inr m1'" "mt_equiv m1' t'"
    using rel_res_Inr [OF mt_ApplyChangeSets_equiv [OF mt_equiv_sym [OF m1(3)]] assms(6)] mt_equiv_sym by blast
  have "room (total_pairs css + 0) m1"
    using room_equiv [OF m1(3)] assms(4) by simp
  then have "mt_sound m1'"
    using mt_ApplyChangeSets_ok [OF no_cache_contract m1(2) _ m1'(1)] by blast
  moreover have "ApplyUpgrades no_cache (Upgrades p) m = Inr m1"
    using m1(1) assms(3) by (auto simp: applyWALEntry_def bind_res_Inr)
  ultimately show ?thesis
    using m1' assms(5) by (auto simp: mem_ok_def applyWALEntry_def)
qed

lemma mem_commit:
  assumes "history iv es m" "mem_ok p m t" "mt_SaveVersion True t = Inr (v, t')" "fits t'"
    "unat (mt_next t) < 2 ^ 31" "WALEntry_Size p < 2 ^ 63"
  obtains m' where "history iv (es @ [p]) m'" "mt_equiv m' t'" "v = of_nat (ver iv (Suc (length es)))"
proof -
  obtain m1 where m1: "applyWALEntry no_cache p m = Inr m1" "mt_sound m1" "mt_equiv m1 t"
    using assms(2) by (auto simp: mem_ok_def)
  obtain m' where m': "mt_SaveVersion True m1 = Inr (v, m')" "mt_equiv m' t'"
    using rel_res_Inr [OF mt_SaveVersion_equiv [OF mt_equiv_sym [OF m1(3)]] assms(3)] mt_equiv_sym by (auto simp: rel_prod_sel)
  have next_m: "mt_next m1 = mt_next m" "mt_next t = mt_next m"
    using apply_keeps_version [OF m1(1)] mt_equiv_next [OF m1(3)] by simp_all
  have next_ver: "mt_next m = of_nat (ver iv (Suc (length es)))" and bound: "ver iv (Suc (length es)) < 2 ^ 31"
  proof -
    have "ver iv (Suc (length es)) < 2 ^ 63"
    proof (cases "es = []")
      case True
      then show ?thesis
        using unsigned_less [of iv, where 'a = nat] by (simp add: ver_def)
    next
      case False
      then show ?thesis
        using history_limits [OF assms(1)] by (simp add: ver_Suc)
    qed
    moreover from this have "unat (of_nat (ver iv (Suc (length es))) :: u64) = ver iv (Suc (length es))"
      by (intro unat_of_nat_less) simp
    moreover show "mt_next m = of_nat (ver iv (Suc (length es)))"
      using history_version [OF assms(1)] nextVersion_ver [of iv "length es"] calculation by simp
    ultimately show "ver iv (Suc (length es)) < 2 ^ 31"
      using assms(5) next_m(2) by simp
  qed
  have "mt_sound m' \<and> v = mt_next m1"
    using mt_SaveVersion_ok [OF m1(2) _ m'(1)] history_next [OF assms(1)] next_m(1) by simp
  moreover have "commit no_cache p m = Inr m'"
    using m1(1) m'(1) by (simp add: commit_def)
  moreover have "fits m'"
    using assms(4) fits_equiv [OF m'(2)] by blast
  ultimately have "history iv (es @ [p]) m'"
    using history.more [OF assms(1)] bound assms(6) by blast
  then show ?thesis
    using that m'(2) \<open>mt_sound m' \<and> v = mt_next m1\<close> next_m(1) next_ver by simp
qed

section \<open>Writing the log\<close>

lemma items_from_split:
  "n \<le> length es \<Longrightarrow> items_from (es @ [e]) n = items_from es n @ [\<lparr>wi_index = of_nat (Suc (length es)), wi_data = e\<rparr>]"
  by (simp add: items_from_def nth_append)

lemma items_from_append:
  assumes "items_from es n = xs @ ys" "n \<le> length es"
  shows "xs = map (\<lambda>i. \<lparr>wi_index = of_nat (Suc i), wi_data = es ! i\<rparr>) [n..<n + length xs]" "ys = items_from es (n + length xs)"
    "n + length xs \<le> length es"
proof -
  have len: "length es - n = length xs + length ys"
    using arg_cong [OF assms(1), of length] by (simp add: items_from_def)
  then show le: "n + length xs \<le> length es"
    using assms(2) by linarith
  have "[n..<length es] = [n..<n + length xs] @ [n + length xs..<length es]"
    using le upt_add_eq_append [of n "n + length xs" "length es - (n + length xs)"] by simp
  then have "items_from es n = map (\<lambda>i. \<lparr>wi_index = of_nat (Suc i), wi_data = es ! i\<rparr>) [n..<n + length xs] @ items_from es (n + length xs)"
    by (simp add: items_from_def)
  with assms(1) show "xs = map (\<lambda>i. \<lparr>wi_index = of_nat (Suc i), wi_data = es ! i\<rparr>) [n..<n + length xs]"
    "ys = items_from es (n + length xs)"
    by (simp_all add: append_eq_append_conv)
qed

lemma writeEntries_new:
  assumes "\<And>x. x \<in> set xs \<Longrightarrow> \<not> wi_index x \<le> lastIndex"
  shows "writeEntries lastIndex xs batch = Inr (batch @ map (\<lambda>x. (wi_index x, enc_WALEntry (wi_data x))) xs)"
  using assms
proof (induction xs arbitrary: batch)
  case (Cons x xs)
  have "WALEntry_Marshal (wi_data x) = Some (enc_WALEntry (wi_data x))"
    using we.marshal_ok [of "wi_data x"] by (simp add: WALEntry_Marshal_def)
  then show ?case
    using Cons by (simp add: writeEntry_def)
qed simp

lemma write_batch_ok:
  assumes "wal_contract wops view" "view w = (base, bs)" "log_of es (base, bs)" "length es < 2 ^ 31"
    "items_from es (base + length bs) = xs @ ys"
  obtains w' bs' where "write_batch wops xs w = Inr w'" "view w' = (base, bs')" "log_of es (base, bs')"
    "items_from es (base + length bs') = ys" "length bs \<le> length bs'"
proof -
  let ?n = "base + length bs"
  have n: "?n \<le> length es"
    using assms(3) by (simp add: log_of_def)
  note xs = items_from_append [OF assms(5) n]
  let ?batch = "map (\<lambda>i. (of_nat (Suc i), enc_WALEntry (es ! i))) [?n..<?n + length xs] :: (u64 \<times> bytes) list"
  have gt: "\<not> (of_nat (Suc i) :: u64) \<le> of_nat ?n" if "?n \<le> i" "i < ?n + length xs" for i
  proof -
    have "unat (of_nat (Suc i) :: u64) = Suc i" "unat (of_nat ?n :: u64) = ?n"
      by (rule unat_of_nat_less; use that xs(3) assms(4) in simp)+
    then show ?thesis
      using that(1) unfolding word_le_nat_alt by simp
  qed
  have "writeEntries (of_nat ?n) xs [] = Inr ([] @ map (\<lambda>x. (wi_index x, enc_WALEntry (wi_data x))) xs)"
    by (rule writeEntries_new) (subst (asm) xs(1), use gt in \<open>auto simp del: of_nat_Suc of_nat_add\<close>)
  also have "\<dots> = Inr ?batch"
    by (subst xs(1)) (simp add: o_def)
  finally have entries: "writeEntries (of_nat ?n) xs [] = Inr ?batch" .
  have "map fst ?batch = map of_nat [Suc ?n..<Suc ?n + length ?batch]"
    by (simp add: o_def map_Suc_upt [symmetric] del: map_Suc_upt upt_Suc)
  from wal_contractD(3) [OF assms(1,2) this] obtain w' where w': "w_WriteBatch wops ?batch w = Inr w'"
    "view w' = (base, bs @ map snd ?batch)" by blast
  have "log_of es (base, bs @ map snd ?batch)"
    using assms(3) xs(3) by (auto simp: log_of_def nth_append)
  moreover have "write_batch wops xs w = Inr w'"
    using w'(1) entries wal_contractD(1) [OF assms(1,2)] by (simp add: write_batch_def)
  moreover have "items_from es (base + length (bs @ map snd ?batch)) = ys"
    using xs(2) by (simp add: add.assoc)
  ultimately show ?thesis
    using that w'(2) by simp
qed

section \<open>Every step keeps the invariant\<close>

text \<open>A change of the memory and the pending log alone.\<close>

lemma inv_memory:
  assumes "db_inv view iv es m w base bs cur db" "db_pc db = Idle" "mem_ok p m mt" "mt_metadata mt = mt_metadata (db_mt db)"
  shows "db_inv view iv es m w base bs cur (db\<lparr>db_mt := mt, pendingLog := p\<rparr>)"
  using assms by (simp add: db_inv_def mem_log_def pc_ok_def fresh_def)

lemma inv_upgrades:
  assumes "db_inv view iv es m w base bs cur db" "db_pc db = Idle" "pendingLog db = WALEntry_zero"
    "db_ApplyUpgrades ops us db = Inr db'"
  shows "db_inv view iv es m w base bs cur db'"
proof -
  obtain mt where mt: "ApplyUpgrades ops us (db_mt db) = Inr mt"
    "db' = db\<lparr>db_mt := mt, pendingLog := WALEntry_zero\<lparr>Upgrades := us\<rparr>\<rparr>"
    using assms(3,4) by (auto simp: db_ApplyUpgrades_def bind_res_Inr WALEntry_zero_def split: if_splits)
  have "mem_ok WALEntry_zero m (db_mt db)"
    using db_invD(8) [OF assms(1)] assms(2,3) by (simp add: mem_log_def)
  then show ?thesis
    using inv_memory [OF assms(1,2) mem_upgrades [OF db_invD(1) [OF assms(1)] _ mt(1)]] ApplyUpgrades_metadata [OF mt(1)] mt(2) by simp
qed

lemma inv_applyChangeSet:
  assumes "db_inv view iv es m w base bs cur db" "db_pc db = Idle" "room (length cs + n) (db_mt db)"
    "applyChangeSet ops name cs db = Inr db'"
  shows "db_inv view iv es m w base bs cur db' \<and> db_pc db' = Idle \<and> room n (db_mt db')"
proof (cases "cs = []")
  case True
  then show ?thesis
    using assms by (simp add: applyChangeSet_def)
next
  case False
  then obtain mt where mt: "mt_ApplyChangeSet ops name cs (db_mt db) = Inr mt"
    "db' = db\<lparr>db_mt := mt, pendingLog := (pendingLog db)\<lparr>Changesets := merge_change_set name cs (Changesets (pendingLog db))\<rparr>\<rparr>"
    using assms(4) by (auto simp: applyChangeSet_def bind_res_Inr Let_def split: if_splits)
  have "mem_ok (pendingLog db) m (db_mt db)"
    using db_invD(8) [OF assms(1)] assms(2) by (simp add: mem_log_def)
  from mem_change [OF db_invD(1) [OF assms(1)] this assms(3) mt(1)] show ?thesis
    using inv_memory [OF assms(1,2)] mt_ApplyChangeSet_metadata [OF mt(1)] mt(2) assms(2) by simp
qed

lemma inv_changes_loop:
  assumes "db_inv view iv es m w base bs cur db" "db_pc db = Idle" "room (total_pairs css) (db_mt db)"
    "applyChangeSets_loop ops css db = Inr db'"
  shows "db_inv view iv es m w base bs cur db'"
  using assms
proof (induction css arbitrary: db)
  case (Cons cs css)
  then obtain db1 where db1: "applyChangeSet ops (ncs_Name cs) (ncs_Changeset cs) db = Inr db1" "applyChangeSets_loop ops css db1 = Inr db'"
    by (auto simp: bind_res_Inr)
  have "room (length (ncs_Changeset cs) + total_pairs css) (db_mt db)"
    using Cons.prems(3) by (simp add: total_pairs_def)
  from inv_applyChangeSet [OF Cons.prems(1,2) this db1(1)] Cons.IH db1(2) show ?case by blast
qed simp

lemma inv_changes:
  assumes "db_inv view iv es m w base bs cur db" "db_pc db = Idle" "distinct (change_names css)" "room (total_pairs css) (db_mt db)"
    "db_ApplyChangeSets ops css db = Inr db'"
  shows "db_inv view iv es m w base bs cur db'"
proof -
  have "\<not> db_readOnly db"
    by (rule db_invD(12) [OF assms(1)])
  consider "css = []" | (fast) "css \<noteq> []" "Changesets (pendingLog db) = []" | (slow) "css \<noteq> []" "Changesets (pendingLog db) \<noteq> []"
    by blast
  then show ?thesis
  proof cases
    case fast
    then obtain mt where mt: "mt_ApplyChangeSets ops css (db_mt db) = Inr mt"
      "db' = db\<lparr>db_mt := mt, pendingLog := (pendingLog db)\<lparr>Changesets := css\<rparr>\<rparr>"
      using assms(5) \<open>\<not> db_readOnly db\<close> by (auto simp: db_ApplyChangeSets_def bind_res_Inr)
    have "mem_ok (pendingLog db) m (db_mt db)"
      using db_invD(8) [OF assms(1)] assms(2) by (simp add: mem_log_def)
    then show ?thesis
      using inv_memory [OF assms(1,2) mem_changes [OF db_invD(1) [OF assms(1)] _ fast(2) assms(4,3) mt(1)]] mt_ApplyChangeSets_metadata [OF mt(1)] mt(2) by simp
  next
    case slow
    then have "applyChangeSets_loop ops css db = Inr db'"
      using assms(5) \<open>\<not> db_readOnly db\<close> by (simp add: db_ApplyChangeSets_def)
    then show ?thesis
      using inv_changes_loop [OF assms(1,2,4)] by blast
  qed (use assms(1,5) in \<open>simp add: db_ApplyChangeSets_def\<close>)
qed

lemma rewriter_ok_simps:
  "rewriter_ok iv es cur root (Cloned mt) \<longleftrightarrow> (\<exists>k \<ge> cur. at_commit iv es k mt)"
  "rewriter_ok iv es cur root (Written mt) \<longleftrightarrow> (\<exists>k \<ge> cur. at_commit iv es k mt \<and>
     (\<exists>d. map_of (root_dirs root) (sname iv k @ TmpSuffix) = Some d \<and> snapshot_at iv es k d))"
  "rewriter_ok iv es cur root (Renamed mt) \<longleftrightarrow> (\<exists>k \<ge> cur. at_commit iv es k mt \<and> map_of (root_dirs root) (sname iv k) \<noteq> None)"
  "rewriter_ok iv es cur root (Linked mt) \<longleftrightarrow> (\<exists>k \<ge> cur. at_commit iv es k mt \<and> map_of (root_dirs root) (sname iv k) \<noteq> None \<and>
     map_of (root_links root) currentTmpPath = Some (sname iv k))"
  "rewriter_ok iv es cur root (Current mt)"
  "rewriter_ok iv es cur root (Loaded mt) \<longleftrightarrow> (\<exists>k \<ge> cur. at_commit iv es k mt)"
  "rewriter_ok iv es cur root (Result (Inr mt)) \<longleftrightarrow> (\<exists>k \<ge> cur. at_commit iv es k mt)"
  "\<not> rewriter_ok iv es cur root (Result (Inl err))"
  "rewriter_ok iv es cur root Closed"
  by (simp_all only: rewriter_ok_def rewriter.case sum.case not_False_eq_True)

lemma rewriter_ok_append:
  assumes "rewriter_ok iv es cur root r"
  shows "rewriter_ok iv (es @ es') cur root r"
proof (cases r)
  case (Written mt)
  then show ?thesis
    using assms at_commit_append snapshot_at_append unfolding Written rewriter_ok_simps by blast
next
  case (Result x)
  then show ?thesis
    using assms at_commit_append by (cases x) (simp only: rewriter_ok_simps; blast)+
qed (use assms at_commit_append in \<open>simp only: rewriter_ok_simps; blast\<close>)+

lemma log_of_append: "log_of es v \<Longrightarrow> log_of (es @ es') v"
  by (auto simp: log_of_def nth_append split: prod.splits)

lemma inv_commit:
  assumes "wal_contract wops view" "db_inv view iv es m w base bs cur db" "db_pc db = Idle" "commit_begin wops db = Inr db'"
    "fits (db_mt db')" "unat (mt_next (db_mt db)) < 2 ^ 31" "WALEntry_Size (pendingLog db) < 2 ^ 63"
  shows "db_good view iv (es @ [pendingLog db]) db'"
proof -
  note inv = db_invD [OF assms(2)]
  obtain v mt where mt: "mt_SaveVersion True (db_mt db) = Inr (v, mt)"
    using assms(4) by (auto simp: commit_begin_def bind_res_Inr split: if_splits)
  have dbmt: "db_mt db' = mt"
    using assms(4) inv(2) mt by (auto simp: commit_begin_def bind_res_Inr Let_def split: if_splits)
  have "mem_ok (pendingLog db) m (db_mt db)"
    using inv(8) assms(3) by (simp add: mem_log_def)
  then obtain m' where m': "history iv (es @ [pendingLog db]) m'" "mt_equiv m' mt" "v = of_nat (ver iv (Suc (length es)))"
    using mem_commit [OF inv(1) _ mt _ assms(6,7)] assms(5) unfolding dbmt by blast
  let ?es = "es @ [pendingLog db]"
  have iv: "mt_initialVersion mt = iv"
    using history_version [OF m'(1)] m'(2) by (simp add: mt_equiv_def)
  let ?entry = "\<lparr>wi_index = of_nat (Suc (length es)), wi_data = pendingLog db\<rparr>"
  have entry: "\<lparr>wi_index = walIndex v (mt_initialVersion mt), wi_data = pendingLog db\<rparr> = ?entry"
    using walIndex_ver [of "Suc (length es)" iv] m'(3) iv by simp
  have mem: "mem_ok WALEntry_zero m' mt"
    using history_limits [OF m'(1)] m'(2) by (simp add: mem_ok_zero)
  have n: "base + length bs \<le> length es"
    using inv(4) by (simp add: log_of_def)
  have flight: "items_from ?es (base + length bs) = in_flight db @ [?entry]"
    using items_from_split [OF n] inv(5) by simp
  have fresh: "fresh mt \<longleftrightarrow> fresh (db_mt db)"
    using mt_SaveVersion_metadata [OF mt] by (simp add: fresh_def)
  have rewriter: "\<forall>r. snapshotRewrite db = Some r \<longrightarrow> rewriter_ok iv ?es cur (db_root db) r"
    using inv(9) rewriter_ok_append by blast
  show ?thesis
  proof (cases "walChanSize db \<ge> 0")
    case True
    then have db': "db' = (if walChan db = None then db\<lparr>db_mt := mt, walChan := Some [], walQuit := Receiving, db_pc := Sending ?entry v\<rparr>
        else db\<lparr>db_mt := mt, db_pc := Sending ?entry v\<rparr>)"
      using assms(4) inv(2,12) mt entry by (auto simp: commit_begin_def Let_def)
    have "db_inv view iv ?es m' w base bs cur db'"
      using inv m'(1) mem log_of_append [OF inv(4)] dir_ok_append [OF inv(6)] tmp_ok_append [OF inv(7)] flight assms(3) True rewriter fresh
      unfolding db_inv_def db' by (cases "walChan db") (simp_all add: flight_def mem_log_def pc_ok_def)
    then show ?thesis
      unfolding db_good_def by blast
  next
    case False
    obtain w1 where w1: "write_batch wops [?entry] w = Inr w1"
      "db' = db\<lparr>db_mt := mt, db_wal := Some w1, pendingLog := WALEntry_zero, db_pc := Checking v\<rparr>"
      using assms(4) False inv(2,12) mt entry by (auto simp: commit_begin_def Let_def bind_res_Inr)
    have "in_flight db = []"
      using inv(15) False assms(3) by (simp add: flight_def)
    then have "items_from ?es (base + length bs) = [?entry] @ []"
      using flight by simp
    then obtain w' bs' where w': "write_batch wops [?entry] w = Inr w'" "view w' = (base, bs')" "log_of ?es (base, bs')"
      "items_from ?es (base + length bs') = []" "length bs \<le> length bs'"
      by (rule write_batch_ok [OF assms(1) inv(3) log_of_append [OF inv(4)] history_length [OF m'(1)]])
    have "base + length bs' = 0 \<longrightarrow> fresh mt"
      using inv(16) w'(5) fresh by auto
    then have "db_inv view iv ?es m' w1 base bs' cur db'"
      using inv(1-15,17) m'(1) mem dir_ok_append [OF inv(6)] tmp_ok_append [OF inv(7)] assms(3) w'(1-4) w1(1) False rewriter
      unfolding db_inv_def w1(2) by (simp add: flight_def mem_log_def pc_ok_def)
    then show ?thesis
      unfolding db_good_def by blast
  qed
qed

lemma inv_send:
  assumes "db_inv view iv es m w base bs cur db" "commit_send db = Some db'"
  shows "db_inv view iv es m w base bs cur db'"
proof -
  obtain e v queue where db: "db_pc db = Sending e v" "walChan db = Some queue"
    "db' = db\<lparr>walChan := Some (queue @ [e]), pendingLog := WALEntry_zero, db_pc := Checking v\<rparr>"
    using assms(2) by (auto simp: commit_send_def split: pc.splits option.splits if_splits)
  then show ?thesis
    using assms(1) by (simp add: db_inv_def flight_def mem_log_def pc_ok_def)
qed

text \<open>Starting to rewrite, when there are no pending changes.\<close>

lemma inv_start:
  assumes "db_inv view iv es m w base bs cur db" "pendingLog db = WALEntry_zero" "\<not> switching (db_pc db)"
  shows "db_inv view iv es m w base bs cur (db\<lparr>snapshotRewrite := Some (Cloned (mt_Copy ops 0 (db_mt db)))\<rparr>)"
proof -
  note inv = db_invD [OF assms(1)]
  have "mem_log (db_pc db) (pendingLog db) = WALEntry_zero"
    using assms(2) by (cases "db_pc db") (simp_all add: mem_log_def)
  then have "mt_sound m" "mt_equiv m (db_mt db)"
    using inv(8) by (simp_all add: mem_ok_zero)
  then have "mt_equiv m (mt_Copy ops 0 (db_mt db))"
    using mt_equiv_trans [OF _ mt_Copy_equiv] mt_sound_equiv by blast
  then have "at_commit iv es (length es) (mt_Copy ops 0 (db_mt db))"
    by (rule at_commit_last [OF inv(1)])
  then have "rewriter_ok iv es cur (db_root db) (Cloned (mt_Copy ops 0 (db_mt db)))"
    using dir_okD(7) [OF inv(6)] unfolding rewriter_ok_simps by blast
  then show ?thesis
    using assms by (simp add: db_inv_def)
qed

lemma inv_end:
  assumes "db_inv view iv es m w base bs cur db" "pendingLog db = WALEntry_zero" "db_pc db = Checking v \<or> db_pc db = Pruning v err"
    "commit_end ops v err db = Inr db'"
  shows "db_inv view iv es m w base bs cur db'"
proof -
  have "db' = db\<lparr>db_pc := Idle\<rparr> \<or> db' = db\<lparr>snapshotRewrite := Some (Cloned (mt_Copy ops 0 (db_mt db))), db_pc := Idle\<rparr>"
    using assms(4)
    by (auto simp: commit_end_def rewriteIfApplicable_def rewriteSnapshotBackground_def db_copy_def split: option.splits if_splits)
  moreover have "db_inv view iv es m w base bs cur (db1\<lparr>db_pc := Idle\<rparr>)"
    if "db_inv view iv es m w base bs cur db1" "db_pc db1 = db_pc db" "pendingLog db1 = pendingLog db" for db1
    using that assms(2,3) by (auto simp: db_inv_def flight_def mem_log_def pc_ok_def)
  moreover have "\<not> switching (db_pc db)"
    using assms(3) by auto
  ultimately show ?thesis
    using inv_start [OF assms(1,2)] assms(1) by auto
qed

lemma inv_background:
  assumes "db_inv view iv es m w base bs cur db" "db_pc db = Idle" "pendingLog db = WALEntry_zero" "RewriteSnapshotBackground ops db = Inr db'"
  shows "db_inv view iv es m w base bs cur db'"
  using inv_start [OF assms(1,3)] assms(2,4)
  by (auto simp: RewriteSnapshotBackground_def rewriteSnapshotBackground_def db_copy_def split: if_splits)

lemma inv_forget: "db_inv view iv es m w base bs cur db \<Longrightarrow> db_inv view iv es m w base bs cur (db\<lparr>snapshotRewrite := None\<rparr>)"
  by (simp add: db_inv_def)

lemma inv_check:
  assumes "db_inv view iv es m w base bs cur db" "commit_check ops db = Some (Inr db')"
  shows "db_inv view iv es m w base bs cur db'"
proof -
  note inv = db_invD [OF assms(1)]
  obtain v where pc: "db_pc db = Checking v"
    using assms(2) by (cases "db_pc db") (simp_all add: commit_check_def)
  then have pending: "pendingLog db = WALEntry_zero" "es \<noteq> []"
    using inv(11) by (simp_all add: pc_ok_def)
  have async: "checkAsyncCommit db = None"
    using inv(13) by (auto simp: checkAsyncCommit_def split: option.splits writer.splits)
  note check = assms(2) [unfolded commit_check_def pc async pc.case Let_def option.inject]
  have go: ?thesis if "commit_end ops v None db = Inr db'"
    by (rule inv_end [OF assms(1) pending(1) _ that]) (use pc in simp)
  have closed: ?thesis if "commit_end ops v None (db\<lparr>snapshotRewrite := None\<rparr>) = Inr db'"
    by (rule inv_end [OF inv_forget [OF assms(1)] _ _ that]) (use pc pending in simp_all)
  have switch: ?thesis if "r = Result (Inr mt)" "snapshotRewrite db = Some r" "db' = db\<lparr>snapshotRewrite := None, db_pc := Switching mt v None\<rparr>" for r mt
  proof -
    have "\<exists>k \<ge> cur. at_commit iv es k mt"
      using inv(9) [OF that(2)] unfolding that(1) rewriter_ok_simps .
    then show ?thesis
      using assms(1) pending pc by (simp add: db_inv_def that(3) flight_def mem_log_def pc_ok_def)
  qed
  show ?thesis
  proof (cases "snapshotRewrite db")
    case None
    then show ?thesis
      using check go by simp
  next
    case (Some r)
    show ?thesis
    proof (cases r)
      case (Result x)
      then show ?thesis
        using check switch [of r] Some by (cases x) simp_all
    qed (use Some check go closed in simp_all)
  qed
qed

text \<open>Replaying the whole log.\<close>

lemma catchup_log:
  assumes "wal_contract wops view" "view w = (base, bs)" "log_of es (base, bs)" "history iv es m"
    and "history iv (take k es) mk" "mt_equiv mk t" "base \<le> k" "k \<le> length es"
  shows "\<exists>t' mj. CatchupWAL ops (reader wops w) 0 t = Inr t' \<and> history iv (take (max k (base + length bs)) es) mj \<and> mt_equiv mj t'"
proof (cases "k < base + length bs")
  case True
  then show ?thesis
    using catchup_history [OF assms(1-7) True order_refl, of 0] by (simp add: max_def)
next
  case False
  have "ver iv (Suc k) < 2 ^ 63"
    using history_take_version [OF assms(4,8)] by (cases "k = 0") (use unsigned_less [of iv, where 'a = nat] in \<open>simp_all add: ver_Suc\<close>)
  then show ?thesis
    using catchup_nothing [OF assms(1-6,8)] False assms(5,6) by (auto simp: max_def)
qed

lemma committed_version:
  assumes "db_wal db = Some w" "w_LastIndex wops w = Inr (of_nat n)" "n < 2 ^ 31" "mt_initialVersion (db_mt db) = iv"
  shows "CommittedVersion wops db =
    (if n = 0 then case md_CommitInfo (mt_metadata (db_mt db)) of
         None \<Rightarrow> Inl (Panic ''nil pointer dereference'') | Some ci \<Rightarrow> Inr (ci_Version ci)
     else Inr (of_nat (ver iv n)))"
proof -
  have "unat (of_nat n :: u64) = n"
    by (rule unat_of_nat_less) (use assms(3) in simp)
  then have "(of_nat n :: u64) = 0 \<longleftrightarrow> n = 0"
    by auto
  then show ?thesis
    using walVersion_ver [of n iv] by (simp add: CommittedVersion_def assms)
qed

lemma committed_all:
  assumes "wal_contract wops view" "db_inv view iv es m w base bs cur db" "CommittedVersion wops db = Inr (mt_Version (db_mt db))"
    "mt_equiv m (db_mt db)" "es \<noteq> []"
  shows "base + length bs = length es"
proof -
  note inv = db_invD [OF assms(2)]
  define n where "n = base + length bs"
  have len: "n \<le> length es" "ver iv (length es) < 2 ^ 31" "n < 2 ^ 31"
    using history_length [OF inv(1)] inv(4) history_limits [OF inv(1)] assms(5) by (simp_all add: log_of_def n_def)
  have last: "w_LastIndex wops w = Inr (of_nat n)"
    unfolding n_def by (rule wal_contractD(1) [OF assms(1) inv(3)])
  have version: "mt_Version (db_mt db) = of_nat (ver iv (length es))" "mt_initialVersion (db_mt db) = iv"
    using history_version [OF inv(1)] mt_equiv_Version [OF assms(4)] assms(4) by (simp_all add: mt_equiv_def)
  have ne: "(of_nat (ver iv (length es)) :: u64) \<noteq> 0"
  proof
    assume "(of_nat (ver iv (length es)) :: u64) = 0"
    then have "ver iv (length es) = 0"
      using unat_ver [OF len(2)] by simp
    then show False
      using ver_0 assms(5) by simp
  qed
  note committed = assms(3) [unfolded committed_version [OF inv(2) last len(3) version(2)] version(1)]
  show ?thesis
  proof (cases "n = 0")
    case True
    then obtain ci where "md_CommitInfo (mt_metadata (db_mt db)) = Some ci" "ci_Version ci = of_nat (ver iv (length es))"
      using committed by (cases "md_CommitInfo (mt_metadata (db_mt db))") simp_all
    then show ?thesis
      using inv(16) True ne by (simp add: fresh_def n_def)
  next
    case False
    then have "(of_nat (ver iv n) :: u64) = of_nat (ver iv (length es))"
      using committed by simp
    then have "ver iv n = ver iv (length es)"
      using unat_ver [OF len(2)] unat_ver [OF history_take_version [OF inv(1) len(1)]] by simp
    then show ?thesis
      by (simp add: ver_inject n_def)
  qed
qed

lemma inv_wait:
  assumes "wal_contract wops view" "db_inv view iv es m w base bs cur db" "commit_wait ops wops db = Some (Inr db')"
  shows "db_inv view iv es m w base bs cur db'"
proof -
  note inv = db_invD [OF assms(2)]
  obtain mtree v err where pc: "db_pc db = Switching mtree v err"
    using assms(3) by (cases "db_pc db") (simp_all add: commit_wait_def)
  then obtain k where k: "pendingLog db = WALEntry_zero" "err = None" "es \<noteq> []" "cur \<le> k" "at_commit iv es k mtree"
    using inv(11) by (auto simp: pc_ok_def)
  then have mem: "mt_sound m" "mt_equiv m (db_mt db)"
    using inv(8) by (simp_all add: pc mem_log_def mem_ok_zero)
  have committed: "CommittedVersion wops db = Inr (mt_Version (db_mt db))"
    using assms(3) by (cases "CommittedVersion wops db") (simp_all add: commit_wait_def pc split: if_splits)
  obtain mtree' where mtree': "CatchupWAL ops (reader wops w) 0 mtree = Inr mtree'"
    "db' = db\<lparr>db_mt := mtree', db_pc := Pruning v None\<rparr>"
    using assms(3) by (auto simp: commit_wait_def pc committed inv(2) k(1,2) bind_res_Inr reloadMultiTree_def apply_zero)
  have all: "base + length bs = length es"
    by (rule committed_all [OF assms(1,2) committed mem(2) k(3)])
  obtain mk where mk: "history iv (take k es) mk" "mt_equiv mk mtree" "k \<le> length es"
    using k(5) by (auto simp: at_commit_def)
  have "base \<le> k"
    using dir_ok_current [OF inv(6,1)] k(4) by simp
  then obtain mj where "history iv (take (max k (base + length bs)) es) mj" "mt_equiv mj mtree'"
    using catchup_log [OF assms(1) inv(3,4,1) mk(1,2) _ mk(3), of ops] mtree'(1) by auto
  then have "mt_equiv m mtree'"
    using history_unique [OF inv(1)] mk(3) all by (simp add: max_def split: if_splits)
  then show ?thesis
    using assms(2) mem(1) k(1,3) all
    by (simp add: db_inv_def mtree'(2) pc flight_def mem_log_def pc_ok_def mem_ok_zero)
qed

lemma inv_lock:
  assumes "db_inv view iv es m w base bs cur db" "commit_prune ops db = Some (Inr db')"
  shows "db_inv view iv es m w base bs cur db'"
proof -
  obtain v err where pc: "db_pc db = Pruning v err" "commit_end ops v err (db\<lparr>db_prune := Some Starting\<rparr>) = Inr db'"
    using assms(2) by (cases "db_pc db") (simp_all add: commit_prune_def split: if_splits)
  have "pendingLog db = WALEntry_zero"
    using db_invD(11) [OF assms(1)] by (simp add: pc(1) pc_ok_def)
  moreover have "db_inv view iv es m w base bs cur (db\<lparr>db_prune := Some Starting\<rparr>)"
    using assms(1) by (simp add: db_inv_def pruner_ok_def)
  ultimately show ?thesis
    using inv_end [OF _ _ _ pc(2)] pc(1) by simp
qed

lemma inv_writer:
  assumes "wal_contract wops view" "db_inv view iv es m w base bs cur db" "writer_step wops db = Some db'"
  shows "\<exists>w' bs'. db_inv view iv es m w' base bs' cur db'"
proof -
  note inv = db_invD [OF assms(2)]
  obtain queue where queue: "walChan db = Some queue"
    using assms(3) by (auto simp: writer_step_def split: option.splits)
  show ?thesis
  proof (cases "walQuit db")
    case Receiving
    then have "db' = db\<lparr>walChan := Some [], walQuit := Writing queue\<rparr>"
      using assms(3) inv(2) queue by (auto simp: writer_step_def channelBatchRecv_def split: if_splits)
    then have "db_inv view iv es m w base bs cur db'"
      using assms(2) Receiving queue by (simp add: db_inv_def flight_def)
    then show ?thesis by blast
  next
    case (Writing items)
    let ?rest = "flight (Some queue) Receiving (db_pc db)"
    have "items_from es (base + length bs) = items @ ?rest"
      using inv(5) by (simp add: flight_def queue Writing)
    then obtain w' bs' where w': "write_batch wops items w = Inr w'" "view w' = (base, bs')" "log_of es (base, bs')"
      "items_from es (base + length bs') = ?rest" "length bs \<le> length bs'"
      by (rule write_batch_ok [OF assms(1) inv(3,4) history_length [OF inv(1)]])
    have "db' = db\<lparr>db_wal := Some w', walQuit := Receiving\<rparr>"
      using assms(3) inv(2) queue Writing w'(1) by (simp add: writer_step_def)
    moreover have "base + length bs' = 0 \<longrightarrow> fresh (db_mt db)"
      using inv(16) w'(5) by auto
    ultimately have "db_inv view iv es m w' base bs' cur db'"
      using assms(2) w'(2-4) queue by (simp add: db_inv_def)
    then show ?thesis by blast
  qed (use inv(13) in blast)
qed

text \<open>A step of the goroutine that rewrites changes the directory, its own stage and perhaps the current snapshot.\<close>

lemma inv_advance:
  assumes "db_inv view iv es m w base bs cur db" "snapshotRewrite db = Some r"
    and "dir_ok iv es base cur' root" "tmp_ok iv es root" "cur \<le> cur'" "rewriter_ok iv es cur' root r'"
  shows "db_inv view iv es m w base bs cur' (db\<lparr>db_root := root, snapshotRewrite := Some r'\<rparr>)"
proof -
  note inv = db_invD [OF assms(1)]
  have "\<not> switching (db_pc db)"
    using inv(17) assms(2) by auto
  then have "pc_ok iv es cur' (pendingLog db) (db_pc db)"
    using inv(11) by (cases "db_pc db") (simp_all add: pc_ok_def)
  moreover have "pruner_ok iv cur' (db_prune db)"
    using inv(10) ver_mono [OF assms(5), of iv] by (auto simp: pruner_ok_def split: option.splits pruner.splits)
  ultimately show ?thesis
    using assms \<open>\<not> switching (db_pc db)\<close> by (simp add: db_inv_def)
qed

lemma inv_rewriting:
  assumes "db_inv view iv es m w base bs cur db" "at_commit iv es k mt" "cur \<le> k"
  shows "rewriting iv es m base cur k (db_root db) mt"
  using db_invD(1,6,7) [OF assms(1)] assms(2,3) by (simp add: rewriting_def at_commit_def)

lemma inv_written:
  assumes "db_inv view iv es m w base bs cur db" "snapshotRewrite db = Some (Cloned mt)"
  shows "db_inv view iv es m w base bs cur (advance (write_tmp (\<lambda>_. False) mt (db_root db)) (Written mt) db)"
proof -
  obtain k where k: "cur \<le> k" "at_commit iv es k mt"
    using db_invD(9) [OF assms] unfolding rewriter_ok_simps by blast
  obtain d root where root: "write_tmp (\<lambda>_. False) mt (db_root db) = (Inr (), root)" "snapshot_at iv es k d"
    "map_of (root_dirs root) = (map_of (root_dirs (db_root db)))(sname iv k @ TmpSuffix \<mapsto> d)"
    "dir_ok iv es base cur root" "tmp_ok iv es root"
    using rewriting_write [OF inv_rewriting [OF assms(1) k(2,1)]] by metis
  then have "rewriter_ok iv es cur root (Written mt)"
    using k unfolding rewriter_ok_simps by auto
  then show ?thesis
    using inv_advance [OF assms root(4,5)] root(1) by (simp add: advance_def)
qed

lemma inv_cancel:
  assumes "db_inv view iv es m w base bs cur db" "snapshotRewrite db = Some (Cloned mt)" "write_tmp ctx mt (db_root db) = (Inl err, root)"
  shows "db_inv view iv es m w base bs cur (advance (Inl err, root) (Written mt) db)"
proof -
  obtain k where k: "cur \<le> k" "at_commit iv es k mt"
    using db_invD(9) [OF assms(1,2)] unfolding rewriter_ok_simps by blast
  note r = rewriting_cancel [OF inv_rewriting [OF assms(1) k(2,1)] assms(3)]
  show ?thesis
    using inv_advance [OF assms(1,2) r(1,2) order_refl] by (simp add: advance_def rewriter_ok_simps)
qed

lemma inv_closed:
  assumes "db_inv view iv es m w base bs cur db" "snapshotRewrite db = Some r"
  shows "db_inv view iv es m w base bs cur (advance (Inl err, db_root db) r' db)"
  using inv_advance [OF assms db_invD(6,7) [OF assms(1)] order_refl] by (simp add: advance_def rewriter_ok_simps)

lemma inv_renamed:
  assumes "db_inv view iv es m w base bs cur db" "snapshotRewrite db = Some (Written mt)"
  shows "db_inv view iv es m w base bs cur (advance (rename_tmp mt (db_root db)) (Renamed mt) db)"
proof -
  obtain k d where k: "cur \<le> k" "at_commit iv es k mt" "map_of (root_dirs (db_root db)) (sname iv k @ TmpSuffix) = Some d" "snapshot_at iv es k d"
    using db_invD(9) [OF assms] unfolding rewriter_ok_simps by blast
  show ?thesis
    using inv_rewriting [OF assms(1) k(2,1)] k(3,4)
  proof (cases rule: rewriting_rename)
    case (failed err)
    then show ?thesis
      using inv_closed [OF assms] by simp
  next
    case (renamed root)
    then have "rewriter_ok iv es cur root (Renamed mt)"
      using k unfolding rewriter_ok_simps by blast
    then show ?thesis
      using inv_advance [OF assms renamed(2,3)] renamed(1) by (simp add: advance_def)
  qed
qed

lemma inv_linked:
  assumes "db_inv view iv es m w base bs cur db" "snapshotRewrite db = Some (Renamed mt)"
  shows "db_inv view iv es m w base bs cur (advance (link_tmp mt (db_root db)) (Linked mt) db)"
proof -
  obtain k where k: "cur \<le> k" "at_commit iv es k mt" "map_of (root_dirs (db_root db)) (sname iv k) \<noteq> None"
    using db_invD(9) [OF assms] unfolding rewriter_ok_simps by blast
  show ?thesis
    using inv_rewriting [OF assms(1) k(2,1)]
  proof (cases rule: rewriting_link)
    case (failed err)
    then show ?thesis
      using inv_closed [OF assms] by simp
  next
    case (linked root)
    then have "rewriter_ok iv es cur root (Linked mt)"
      using k unfolding rewriter_ok_simps linked(3) by blast
    moreover have "tmp_ok iv es root"
      using db_invD(7) [OF assms(1)] by (simp add: tmp_ok_def linked(3))
    ultimately show ?thesis
      using inv_advance [OF assms linked(2)] linked(1) by (simp add: advance_def)
  qed
qed

lemma inv_switched:
  assumes "db_inv view iv es m w base bs cur db" "snapshotRewrite db = Some (Linked mt)"
  shows "\<exists>cur'. db_inv view iv es m w base bs cur' (advance (rename_link (db_root db)) (Current mt) db)"
proof -
  obtain k where k: "cur \<le> k" "at_commit iv es k mt" "map_of (root_links (db_root db)) currentTmpPath = Some (sname iv k)"
    "map_of (root_dirs (db_root db)) (sname iv k) \<noteq> None"
    using db_invD(9) [OF assms] unfolding rewriter_ok_simps by blast
  obtain root where root: "rename_link (db_root db) = (Inr (), root)" "dir_ok iv es base k root" "root_dirs root = root_dirs (db_root db)"
    by (rule rewriting_switch [OF inv_rewriting [OF assms(1) k(2,1)] k(3,4)])
  have "tmp_ok iv es root"
    using db_invD(7) [OF assms(1)] by (simp add: tmp_ok_def root(3))
  then have "db_inv view iv es m w base bs k (advance (rename_link (db_root db)) (Current mt) db)"
    using inv_advance [OF assms root(2) _ k(1)] root(1) by (simp add: advance_def rewriter_ok_simps)
  then show ?thesis by blast
qed

lemma inv_loaded:
  assumes "db_inv view iv es m w base bs cur db" "snapshotRewrite db = Some r"
  shows "\<exists>mt. LoadMultiTree ops (open_dir currentPath (db_root db)) zc cs = Inr mt \<and>
    db_inv view iv es m w base bs cur (db\<lparr>snapshotRewrite := Some (Loaded mt)\<rparr>)"
proof -
  note inv = db_invD [OF assms(1)]
  have snapshot: "snapshot_at iv es cur (open_dir currentPath (db_root db))"
    using dir_ok_current [OF inv(6,1)] by blast
  then obtain mk mt where mt: "LoadMultiTree ops (open_dir currentPath (db_root db)) zc cs = Inr mt" "history iv (take cur es) mk" "mt_equiv mk mt"
    using snapshot_load by blast
  then have "rewriter_ok iv es cur (db_root db) (Loaded mt)"
    using dir_okD(7) [OF inv(6)] unfolding rewriter_ok_simps at_commit_def by blast
  then show ?thesis
    using inv_advance [OF assms inv(6,7) order_refl] mt(1) by simp
qed

lemma inv_caught_up:
  assumes "wal_contract wops view" "db_inv view iv es m w base bs cur db" "snapshotRewrite db = Some (Loaded mt)"
  shows "\<exists>mt'. CatchupWAL ops (reader wops w) 0 mt = Inr mt' \<and>
    db_inv view iv es m w base bs cur (db\<lparr>snapshotRewrite := Some (Result (Inr mt'))\<rparr>)"
proof -
  note inv = db_invD [OF assms(2)]
  obtain k where k: "cur \<le> k" "at_commit iv es k mt"
    using inv(9) [OF assms(3)] unfolding rewriter_ok_simps by blast
  then obtain mk where mk: "history iv (take k es) mk" "mt_equiv mk mt" "k \<le> length es"
    by (auto simp: at_commit_def)
  have "base \<le> k"
    using dir_ok_current [OF inv(6,1)] k(1) by simp
  then obtain mt' mj where mt': "CatchupWAL ops (reader wops w) 0 mt = Inr mt'" "history iv (take (max k (base + length bs)) es) mj" "mt_equiv mj mt'"
    using catchup_log [OF assms(1) inv(3,4,1) mk(1,2) _ mk(3)] by blast
  have "max k (base + length bs) \<le> length es" "cur \<le> max k (base + length bs)"
    using mk(3) inv(4) k(1) by (simp_all add: log_of_def)
  then have "rewriter_ok iv es cur (db_root db) (Result (Inr mt'))"
    using mt'(2,3) unfolding rewriter_ok_simps at_commit_def by blast
  then show ?thesis
    using inv_advance [OF assms(2,3) inv(6,7) order_refl] mt'(1) by simp
qed

lemma inv_rewrite:
  assumes "wal_contract wops view" "db_inv view iv es m w base bs cur db" "rewrite_step ops wops (\<lambda>_. False) db = Some db'"
  shows "db_good view iv es db'"
proof -
  note inv = db_invD [OF assms(2)]
  obtain r where r: "snapshotRewrite db = Some r"
    using assms(3) by (cases "snapshotRewrite db") (simp_all add: rewrite_step_def)
  note step = assms(3) [unfolded rewrite_step_def r option.case]
  have "\<exists>cur'. db_inv view iv es m w base bs cur' db'"
  proof (cases r)
    case (Cloned mt)
    then show ?thesis using inv_written [OF assms(2)] r step by auto
  next
    case (Written mt)
    then show ?thesis using inv_renamed [OF assms(2)] r step by auto
  next
    case (Renamed mt)
    then show ?thesis using inv_linked [OF assms(2)] r step by auto
  next
    case (Linked mt)
    then show ?thesis using inv_switched [OF assms(2)] r step by auto
  next
    case (Current mt)
    then show ?thesis using inv_loaded [OF assms(2) r, of ops "mt_zeroCopy mt" 0] step by auto
  next
    case (Loaded mt)
    then show ?thesis using inv_caught_up [OF assms(1,2), of mt ops] r step inv(2) by auto
  qed (use step in simp_all)
  then show ?thesis
    unfolding db_good_def by blast
qed

text \<open>Pruning removes only snapshots older than the current one, which the rewriting does not touch.\<close>

lemma rewriter_ok_visit:
  assumes "visit e counter c root = Some (counter', root')" "well_named e" "dir_ok iv es base cur root" "tmp_ok iv es root"
    "history iv es m" "c \<le> int (ver iv cur)" "rewriter_ok iv es cur root r"
  shows "rewriter_ok iv es cur root' r"
proof -
  note v = visit_ok(3-5) [OF assms(1-6)]
  show ?thesis
  proof (cases r)
    case (Written mt)
    then obtain k d where k: "cur \<le> k" "at_commit iv es k mt" "map_of (root_dirs root) (sname iv k @ TmpSuffix) = Some d" "snapshot_at iv es k d"
      using assms(7) unfolding Written rewriter_ok_simps by blast
    then have "map_of (root_dirs root') (sname iv k @ TmpSuffix) = Some d"
      using v(3) [OF k(1)] by (simp add: at_commit_def)
    with k show ?thesis
      unfolding Written rewriter_ok_simps by blast
  next
    case (Renamed mt)
    then obtain k where k: "cur \<le> k" "at_commit iv es k mt" "map_of (root_dirs root) (sname iv k) \<noteq> None"
      using assms(7) unfolding Renamed rewriter_ok_simps by blast
    then have "map_of (root_dirs root') (sname iv k) \<noteq> None"
      using v(1) [OF k(1)] by (simp add: at_commit_def)
    with k show ?thesis
      unfolding Renamed rewriter_ok_simps by blast
  next
    case (Linked mt)
    then obtain k where k: "cur \<le> k" "at_commit iv es k mt" "map_of (root_dirs root) (sname iv k) \<noteq> None"
      "map_of (root_links root) currentTmpPath = Some (sname iv k)"
      using assms(7) unfolding Linked rewriter_ok_simps by blast
    then have "map_of (root_dirs root') (sname iv k) \<noteq> None" "map_of (root_links root') currentTmpPath = Some (sname iv k)"
      using v(1) [OF k(1)] v(2) by (simp_all add: at_commit_def)
    with k show ?thesis
      unfolding Linked rewriter_ok_simps by blast
  next
    case (Result x)
    then show ?thesis
      using assms(7) by (cases x) (simp_all add: rewriter_ok_simps)
  qed (use assms(7) in \<open>simp_all add: rewriter_ok_simps\<close>)
qed

lemma inv_visit:
  assumes "db_inv view iv es m w base bs cur db" "db_prune db = Some (Visiting (e # dirs) counter c)"
    "visit e counter c (db_root db) = Some (counter', root)"
  shows "db_inv view iv es m w base bs cur (db\<lparr>db_root := root, db_prune := Some (Visiting dirs counter' c)\<rparr>)"
proof -
  note inv = db_invD [OF assms(1)]
  have e: "well_named e" "list_all well_named dirs" "c \<le> int (ver iv cur)"
    using inv(10) by (simp_all add: assms(2) pruner_ok_def)
  note v = visit_ok(1,2) [OF assms(3) e(1) inv(6,7,1) e(3)] rewriter_ok_visit [OF assms(3) e(1) inv(6,7,1) e(3)]
  have "\<forall>r. snapshotRewrite db = Some r \<longrightarrow> rewriter_ok iv es cur root r"
    using v(3) inv(9) by blast
  then show ?thesis
    using assms(1) v(1,2) e by (simp add: db_inv_def pruner_ok_def)
qed

lemma inv_truncate:
  assumes "wal_contract wops view" "db_inv view iv es m w base bs cur db"
  shows "\<exists>base' bs'. db_inv view iv es m (truncate_log wops (mt_initialVersion (db_mt db)) (db_root db) w) base' bs' cur
    (db\<lparr>db_wal := Some (truncate_log wops (mt_initialVersion (db_mt db)) (db_root db) w), db_prune := None\<rparr>)"
proof -
  note inv = db_invD [OF assms(2)]
  obtain m1 where "applyWALEntry no_cache (mem_log (db_pc db) (pendingLog db)) m = Inr m1" "mt_equiv m1 (db_mt db)"
    using inv(8) by (auto simp: mem_ok_def)
  then have iv: "mt_initialVersion (db_mt db) = iv"
    using apply_keeps_version history_version [OF inv(1)] by (fastforce simp: mt_equiv_def)
  obtain base' bs' where "view (truncate_log wops iv (db_root db) w) = (base', bs')" "log_of es (base', bs')"
    "base' + length bs' = base + length bs" "dir_ok iv es base' cur (db_root db)"
    by (rule truncate_log_ok [OF assms(1) inv(3,4,6,1)])
  then have "db_inv view iv es m (truncate_log wops iv (db_root db) w) base' bs' cur
      (db\<lparr>db_wal := Some (truncate_log wops iv (db_root db) w), db_prune := None\<rparr>)"
    using assms(2) unfolding db_inv_def by (simp add: pruner_ok_def)
  then show ?thesis
    unfolding iv by blast
qed

lemma inv_prune:
  assumes "wal_contract wops view" "db_inv view iv es m w base bs cur db" "prune_step wops db = Some db'"
  shows "db_good view iv es db'"
proof -
  note inv = db_invD [OF assms(2)]
  obtain p where p: "db_prune db = Some p"
    using assms(3) by (cases "db_prune db") (simp_all add: prune_step_def)
  note step = assms(3) [unfolded prune_step_def p option.case]
  have stop: "\<exists>w' base' bs'. db_inv view iv es m w' base' bs' cur (db\<lparr>db_prune := q\<rparr>)" if "pruner_ok iv cur q" for q
  proof -
    have "db_inv view iv es m w base bs cur (db\<lparr>db_prune := q\<rparr>)"
      using assms(2) that by (simp add: db_inv_def)
    then show ?thesis by blast
  qed
  have "\<exists>w' base' bs'. db_inv view iv es m w' base' bs' cur db'"
  proof (cases p)
    case Starting
    have "currentVersion (db_root db) = Inr (int (ver iv cur))"
      using dir_okD(5) [OF inv(6)] parse_known history_take_version [OF inv(1) dir_okD(7) [OF inv(6)]] by (simp add: currentVersion_def)
    moreover have "list_all well_named (rev (ReadDir (db_root db)))"
      using ReadDir_well_named [OF inv(6,1)] by simp
    ultimately show ?thesis
      using step stop [of "Some (Visiting (rev (ReadDir (db_root db))) (snapshotKeepRecent db) (int (ver iv cur)))"] Starting
      by (simp add: pruner_ok_def)
  next
    case (Visiting dirs counter c)
    show ?thesis
    proof (cases dirs)
      case Nil
      then show ?thesis
        using step stop [of "Some Truncating"] Visiting by (simp add: pruner_ok_def)
    next
      case (Cons e dirs')
      show ?thesis
      proof (cases "visit e counter c (db_root db)")
        case None
        then show ?thesis
          using step stop [of None] Visiting Cons by (simp add: pruner_ok_def)
      next
        case (Some x)
        obtain counter' root where x: "x = (counter', root)" by fastforce
        have "db' = db\<lparr>db_root := root, db_prune := Some (Visiting dirs' counter' c)\<rparr>"
          using step Visiting Cons Some x by simp
        then show ?thesis
          using inv_visit [OF assms(2), of e dirs' counter c] p Visiting Cons Some x by blast
      qed
    qed
  next
    case Truncating
    then show ?thesis
      using step inv(2) inv_truncate [OF assms(1,2)] by auto
  qed
  then show ?thesis
    unfolding db_good_def by blast
qed

section \<open>Any step keeps the invariant\<close>

lemma db_good_inv: "db_inv view iv es m w base bs cur db \<Longrightarrow> db_good view iv es db"
  unfolding db_good_def by blast

lemma step_keeps_good:
  assumes "wal_contract wops view" "db_good view iv es db" "db_step ops wops db es' db'"
  shows "db_good view iv (es @ es') db'"
proof -
  obtain m w base bs cur where inv: "db_inv view iv es m w base bs cur db"
    using assms(2) unfolding db_good_def by blast
  show ?thesis
    using assms(3)
  proof cases
    case (upgrades us)
    then show ?thesis using db_good_inv [OF inv_upgrades [OF inv upgrades(2-4)]] by simp
  next
    case (changes css)
    then show ?thesis using db_good_inv [OF inv_changes [OF inv changes(2-5)]] by simp
  next
    case (change cs name)
    then have "applyChangeSet ops name cs db = Inr db'"
      by (cases "cs = []") (simp_all add: db_ApplyChangeSet_def applyChangeSet_def)
    then have "db_inv view iv es m w base bs cur db'"
      using inv_applyChangeSet [OF inv change(2), of cs 0] change(3) by simp
    then show ?thesis using db_good_inv change(1) by simp
  next
    case commit
    then show ?thesis using inv_commit [OF assms(1) inv commit(2-6)] by simp
  next
    case send
    then show ?thesis using db_good_inv [OF inv_send [OF inv send(2)]] by simp
  next
    case check
    then show ?thesis using db_good_inv [OF inv_check [OF inv check(2)]] by simp
  next
    case wait
    then show ?thesis using db_good_inv [OF inv_wait [OF assms(1) inv wait(2)]] by simp
  next
    case lock
    then show ?thesis using db_good_inv [OF inv_lock [OF inv lock(2)]] by simp
  next
    case background
    then show ?thesis using db_good_inv [OF inv_background [OF inv background(2-4)]] by simp
  next
    case writer
    then show ?thesis using inv_writer [OF assms(1) inv writer(2)] by (auto intro: db_good_inv)
  next
    case rewrite
    then show ?thesis using inv_rewrite [OF assms(1) inv rewrite(2)] by simp
  next
    case (cancel mt ctx err root)
    then show ?thesis using db_good_inv [OF inv_cancel [OF inv cancel(3,4)]] by simp
  next
    case prune
    then show ?thesis using inv_prune [OF assms(1) inv prune(2)] by simp
  qed
qed

end
