(* ===== verification/Db_Load.thy ===== *)
theory Db_Load
  imports Db_Run
begin

text \<open>
  \<open>Load\<close> of \<open>src/memiavl/db.go\<close> on a directory that holds snapshots and a log of a history: the latest
  version, a version that is asked for, and the rollback to it. A database that is loaded for writing
  satisfies the invariant of \<open>Db_Run\<close> again.
\<close>

section \<open>Loading the latest version\<close>

lemma LoadMultiTree_fresh:
  assumes "LoadMultiTree ops d zc n = Inr t" "mt_Version t = 0"
  shows "fresh t"
proof -
  obtain md where md: "readMetadata d = Inr md" "mt_metadata t = md" "lastCommitInfo t = the (md_CommitInfo md)"
    using assms(1) by (auto simp: LoadMultiTree_def bind_res_Inr Let_def mt_setInitialVersion_def)
  then have "md_CommitInfo md \<noteq> None"
    by (auto simp: readMetadata_def bind_res_Inr split: option.splits if_splits)
  then show ?thesis
    using md assms(2) by (auto simp: fresh_def mt_Version_def)
qed

lemma load_tree_latest:
  assumes "wal_contract wops view" "view w = (base, bs)" "log_of es (base, bs)" "history iv es m" "dir_ok iv es base cur root"
    "TargetVersion opts = 0"
  obtains mt mj where "load_tree ops wops opts currentPath root (Inr (Some w)) = Inr (mt, Some w)"
    "history iv (take (max cur (base + length bs)) es) mj" "mt_equiv mj mt" "es = [] \<longrightarrow> fresh mt"
proof -
  have cur: "base \<le> cur" "snapshot_at iv es cur (open_dir currentPath root)" "cur \<le> length es"
    using dir_ok_current [OF assms(5,4)] dir_okD(7) [OF assms(5)] by simp_all
  obtain mk t where t: "history iv (take cur es) mk" "mt_equiv mk t"
    "LoadMultiTree ops (open_dir currentPath root) (ZeroCopy opts) (CacheSize opts) = Inr t"
    using snapshot_load [OF cur(2)] by blast
  obtain t' mj where t': "CatchupWAL ops (reader wops w) 0 t = Inr t'" "history iv (take (max cur (base + length bs)) es) mj" "mt_equiv mj t'"
    using catchup_log [OF assms(1-4) t(1,2) cur(1,3)] by blast
  have "fresh t'" if "es = []"
  proof -
    have "cur = 0" "base + length bs = 0"
      using that cur(3) assms(3) by (simp_all add: log_of_def)
    then have "mt_Version t = 0"
      using history_version [OF t(1)] mt_equiv_Version [OF t(2)] by (simp add: ver_def)
    moreover have "t' = t"
      using catchup_nothing [OF assms(1-4) t(1,2) cur(3), of ops 0] t'(1) \<open>cur = 0\<close> \<open>base + length bs = 0\<close>
        unsigned_less [of iv, where 'a = nat] by (simp add: ver_Suc split: if_splits)
    ultimately show ?thesis
      using LoadMultiTree_fresh [OF t(3)] by simp
  qed
  then show ?thesis
    using that t' t(3) assms(6) by (simp add: load_tree_def)
qed

definition empty_root :: root_dir where
  "empty_root = \<lparr>root_dirs = [], root_links = []\<rparr>"

definition loaded_db :: "'c cache_ops \<Rightarrow> options \<Rightarrow> 'c multi_tree \<Rightarrow> root_dir \<Rightarrow> 'w option \<Rightarrow> ('c, 'w) db res" where
  "loaded_db ops opts mt root wal =
     (let db = new_db (FillDefaults opts) mt root wal in
      if \<not> ReadOnly opts \<and> mt_Version mt = 0 \<and> InitialStores opts \<noteq> [] then
        db_ApplyUpgrades ops (map (\<lambda>name. \<lparr>up_Name = name, up_RenameFrom = [], up_Delete = False\<rparr>) (InitialStores opts)) db
      else Inr db)"

lemma FillDefaults_simps [simp]:
  "ReadOnly (FillDefaults opts) = ReadOnly opts" "InitialStores (FillDefaults opts) = InitialStores opts"
  "TargetVersion (FillDefaults opts) = TargetVersion opts" "CreateIfMissing (FillDefaults opts) = CreateIfMissing opts"
  "InitialVersion (FillDefaults opts) = InitialVersion opts" "LoadForOverwriting (FillDefaults opts) = LoadForOverwriting opts"
  "SnapshotInterval (FillDefaults opts) \<noteq> 0" "ZeroCopy (FillDefaults opts) = ZeroCopy opts" "CacheSize (FillDefaults opts) = CacheSize opts"
  "AsyncCommitBuffer (FillDefaults opts) = AsyncCommitBuffer opts"
  by (simp_all add: FillDefaults_def Let_def)

lemma Load_latest:
  assumes "wal_contract wops view" "view w = (base, bs)" "log_of es (base, bs)" "history iv es m" "dir_ok iv es base cur root"
    "TargetVersion opts = 0" "Validate opts = Inr ()"
  obtains mt mj where "history iv (take (max cur (base + length bs)) es) mj" "mt_equiv mj mt" "es = [] \<longrightarrow> fresh mt"
    "Load ops wops False (Inr (Some w)) opts root = loaded_db ops opts mt (if ReadOnly opts then root else removeTmpDirs root) (Some w)"
proof -
  let ?root = "if ReadOnly opts then root else removeTmpDirs root"
  have "dir_ok iv es base cur ?root"
    using removeTmpDirs_ok(1) [OF assms(5)] assms(5) by simp
  then obtain mt mj where mt: "load_tree ops wops (FillDefaults opts) currentPath ?root (Inr (Some w)) = Inr (mt, Some w)"
    "history iv (take (max cur (base + length bs)) es) mj" "mt_equiv mj mt" "es = [] \<longrightarrow> fresh mt"
    using load_tree_latest [OF assms(1-4), of cur ?root "FillDefaults opts"] assms(6) by auto
  have "createDBIfNotExist (InitialVersion opts) root = Inr root"
    using dir_ok_current [OF assms(5,4)] snapshot_metadata by (fastforce simp: createDBIfNotExist_def)
  then have "Load ops wops False (Inr (Some w)) opts root = loaded_db ops opts mt ?root (Some w)"
    using mt(1) assms(6,7) by (cases "ReadOnly opts") (simp_all add: Load_def loaded_db_def Let_def)
  then show ?thesis
    using that mt(2-4) by blast
qed

lemma loaded_db_good:
  assumes "view w = (base, bs)" "log_of es (base, bs)" "history iv es m" "dir_ok iv es base cur root" "tmp_ok iv es root"
    "base + length bs = length es" "mt_equiv m mt" "es = [] \<longrightarrow> fresh mt" "\<not> ReadOnly opts" "loaded_db ops opts mt root (Some w) = Inr db"
  shows "db_good view iv es db"
proof -
  let ?db = "new_db (FillDefaults opts) mt root (Some w)"
  have "mt_sound m"
    using history_limits [OF assms(3)] by blast
  then have inv: "db_inv view iv es m w base bs cur ?db"
    using assms(1-9)
    by (auto simp: db_inv_def new_db_def flight_def items_from_def mem_log_def mem_ok_zero pruner_ok_def pc_ok_def)
  have "db = ?db \<or> (\<exists>us. db_ApplyUpgrades ops us ?db = Inr db)"
    using assms(10) by (auto simp: loaded_db_def Let_def split: if_splits)
  moreover have "db_pc ?db = Idle" "pendingLog ?db = WALEntry_zero"
    by (simp_all add: new_db_def)
  ultimately show ?thesis
    using inv inv_upgrades [OF inv] unfolding db_good_def by blast
qed

text \<open>A directory whose log is complete is loaded in a good state.\<close>

lemma load_good:
  assumes "wal_contract wops view" "view w = (base, bs)" "log_of es (base, bs)" "history iv es m" "dir_ok iv es base cur root"
    "base + length bs = length es" "\<not> ReadOnly opts" "TargetVersion opts = 0" "Load ops wops False (Inr (Some w)) opts root = Inr db"
  shows "db_good view iv es db"
proof -
  have valid: "Validate opts = Inr ()"
    using assms(9) by (cases "Validate opts") (simp_all add: Load_def)
  obtain mt mj where mt: "history iv (take (max cur (base + length bs)) es) mj" "mt_equiv mj mt" "es = [] \<longrightarrow> fresh mt"
    "Load ops wops False (Inr (Some w)) opts root = loaded_db ops opts mt (if ReadOnly opts then root else removeTmpDirs root) (Some w)"
    by (rule Load_latest [OF assms(1-5,8) valid, of ops])
  have "max cur (base + length bs) = length es"
    using assms(6) dir_okD(7) [OF assms(5)] by simp
  then have equiv: "mt_equiv m mt"
    using mt(1,2) history_unique [OF assms(4)] by simp
  have "loaded_db ops opts mt (removeTmpDirs root) (Some w) = Inr db"
    using mt(4) assms(7,9) by simp
  then show ?thesis
    by (rule loaded_db_good [where view = view, OF assms(2-4) removeTmpDirs_ok(1,2) [OF assms(5)] assms(6) equiv mt(3) assms(7)])
qed

section \<open>A new database\<close>

lemma create_dir:
  obtains root where "dir_ok iv [] 0 0 root" "map_of (root_links root) currentTmpPath = None"
    "\<And>ops wops log opts. CreateIfMissing opts \<Longrightarrow> InitialVersion opts = iv \<Longrightarrow>
      Load ops wops False log opts empty_root = Load ops wops False log opts root"
proof -
  obtain d where d: "mt_WriteSnapshotWithContext (\<lambda>_. False) (genesis iv) = Inr d"
    using history_reload [OF history.start] by blast
  let ?root = "\<lparr>root_dirs = [(snapshotName 0, d)], root_links = [(currentPath, snapshotName 0)]\<rparr>"
  have create: "createDBIfNotExist iv empty_root = Inr ?root"
    using d unfolding genesis_def
    by (simp add: createDBIfNotExist_def initEmptyDB_def open_dir_def empty_root_def empty_dir_def write_dir_def
        updateCurrentSymlink_def os_Symlink_def os_Rename_link_def currentPath_def currentTmpPath_def snapshotName_def SnapshotPrefix_def)
  have "snapshot_at iv [] 0 d"
    using d history.start [of iv] by (auto simp: snapshot_at_def)
  moreover have "sname iv 0 = snapshotName 0"
    by (simp add: ver_def)
  ultimately have dir: "dir_ok iv [] 0 0 ?root"
    by (auto simp: dir_ok_def intro: exI [of _ 0])
  have "createDBIfNotExist iv ?root = Inr ?root"
    using dir_ok_current [OF dir history.start] snapshot_metadata by (fastforce simp: createDBIfNotExist_def)
  with create dir show ?thesis
    using that by (simp add: Load_def Let_def currentPath_def currentTmpPath_def)
qed

lemma create_good:
  assumes "wal_contract wops view" "view w0 = (0, [])" "CreateIfMissing opts" "InitialVersion opts = iv" "TargetVersion opts = 0"
    "Load ops wops False (Inr (Some w0)) opts empty_root = Inr db"
  shows "db_good view iv [] db"
proof -
  obtain root where dir: "dir_ok iv [] 0 0 root"
    and "Load ops wops False (Inr (Some w0)) opts empty_root = Load ops wops False (Inr (Some w0)) opts root"
    using create_dir [of iv] assms(3,4) by metis
  then have load: "Load ops wops False (Inr (Some w0)) opts root = Inr db"
    using assms(6) by simp
  then have "\<not> ReadOnly opts"
    using assms(3) by (cases "Validate opts") (simp_all add: Load_def Validate_def split: if_splits)
  moreover have "log_of [] (0, [])"
    by (simp add: log_of_def)
  ultimately show ?thesis
    using load_good [OF assms(1,2) _ history.start dir _ _ assms(5) load] by simp
qed

lemma flight_logged:
  assumes "db_inv view iv es m w base bs cur db" "in_flight db = []"
  shows "base + length bs = length es"
proof -
  have "length es \<le> base + length bs"
    using db_invD(5) [OF assms(1)] assms(2) by (auto simp: items_from_def)
  then show ?thesis
    using db_invD(4) [OF assms(1)] by (simp add: log_of_def)
qed

lemma restart_good:
  assumes "wal_contract wops view" "db_good view iv es db" "in_flight db = []" "\<not> ReadOnly opts" "TargetVersion opts = 0"
    "Load ops wops False (Inr (db_wal db)) opts (db_root db) = Inr db'"
  shows "db_good view iv es db'"
proof -
  obtain m w base bs cur where i: "db_inv view iv es m w base bs cur db"
    using assms(2) unfolding db_good_def by blast
  note inv = db_invD [OF i]
  show ?thesis
    using load_good [OF assms(1) inv(3,4,1,6) flight_logged [OF i assms(3)] assms(4,5)] assms(6) inv(2) by simp
qed

section \<open>Loading a version\<close>

lemma target_version:
  assumes "ver iv j < 2 ^ 31"
  shows "uint (of_nat (ver iv j) :: u32) = int (ver iv j)" "(ucast (of_nat (ver iv j) :: u32) :: u64) = of_nat (ver iv j)"
proof -
  have u: "unat (of_nat (ver iv j) :: u32) = ver iv j"
    by (rule unat_of_nat_less) (use assms in simp)
  show "uint (of_nat (ver iv j) :: u32) = int (ver iv j)"
    using assms by (simp add: unsigned_of_nat take_bit_nat_eq_self)
  have "unat (ucast x :: u64) = unat x" for x :: u32
    using unsigned_less [of x, where 'a = nat] by (simp add: word_conv)
  then show "(ucast (of_nat (ver iv j) :: u32) :: u64) = of_nat (ver iv j)"
    using u unat_ver [OF assms] by (metis word_unat_eq_iff)
qed

lemma load_tree_target:
  assumes "wal_contract wops view" "view w = (base, bs)" "log_of es (base, bs)" "history iv es m" "dir_ok iv es base cur root"
    "k \<in> snapshots iv es root" "k \<le> j" "0 < j" "j \<le> length es" "k = j \<or> j \<le> base + length bs" "TargetVersion opts = of_nat (ver iv j)"
  obtains mt mj where "load_tree ops wops opts (sname iv k) root (Inr (Some w)) = Inr (mt, Some w)"
    "history iv (take j es) mj" "mt_equiv mj mt"
proof -
  obtain d where d: "map_of (root_dirs root) (sname iv k) = Some d" "k \<le> length es"
    using assms(6) by (auto simp: snapshots_def)
  have v: "ver iv j < 2 ^ 31" "ver iv k < 2 ^ 31"
    using history_take_version [OF assms(4)] assms(9) d(2) by blast+
  have "map_of (root_links root) (sname iv k) = None"
    using dir_okD(4) [OF assms(5)] snapshotName_other(1,2) [of "int (ver iv k)"] by (metis not_None_eq of_nat_0_le_iff)
  then have open_dir: "open_dir (sname iv k) root = d"
    using d(1) by (simp add: open_dir_def)
  have snap: "snapshot_at iv es k d" "base \<le> k"
    using dir_ok_snapshot [OF assms(5,4) d(1) v(2)] by simp_all
  obtain mk t where t: "history iv (take k es) mk" "mt_equiv mk t" "LoadMultiTree ops d (ZeroCopy opts) (CacheSize opts) = Inr t"
    using snapshot_load [OF snap(1)] by blast
  have "mt_Version t = of_nat (ver iv k)"
    using history_version [OF t(1)] mt_equiv_Version [OF t(2)] d(2) by simp
  then have sver: "sint (mt_Version t) = int (ver iv k)"
    using sint_small [of "mt_Version t"] unat_ver [OF v(2)] v(2) by simp
  have target: "uint (TargetVersion opts) = int (ver iv j)" "ucast (TargetVersion opts) = (of_nat (ver iv j) :: u64)"
    using target_version [OF v(1)] assms(11) by simp_all
  then have "TargetVersion opts \<noteq> 0"
    using ver_0 [of iv j] assms(8) by auto
  show ?thesis
  proof (cases "k = j")
    case True
    then have "load_tree ops wops opts (sname iv k) root (Inr (Some w)) = Inr (t, Some w)"
      using t(3) \<open>TargetVersion opts \<noteq> 0\<close> by (simp add: load_tree_def open_dir [unfolded True] target(1) sver)
    then show ?thesis
      using that t(1,2) True by blast
  next
    case False
    then have less: "k < j" "j \<le> base + length bs"
      using assms(7,10) by simp_all
    obtain t' mj where t': "CatchupWAL ops (reader wops w) (of_nat (ver iv j)) t = Inr t'" "history iv (take j es) mj" "mt_equiv mj t'"
      using catchup_history [OF assms(1-4) t(1,2) snap(2) less, of "of_nat (ver iv j)"] by blast
    then have "load_tree ops wops opts (sname iv k) root (Inr (Some w)) = Inr (t', Some w)"
      using t(3) less(1) by (simp add: load_tree_def open_dir target sver ver_less)
    then show ?thesis
      using that t'(2,3) by blast
  qed
qed

text \<open>The newest snapshot that is at most a version.\<close>

definition snapshot_for :: "u32 \<Rightarrow> wal_entry list \<Rightarrow> root_dir \<Rightarrow> nat \<Rightarrow> nat" where
  "snapshot_for iv es root j = Max {k \<in> snapshots iv es root. k \<le> j}"

lemma snapshot_for:
  assumes "k \<in> snapshots iv es root" "k \<le> j"
  shows "snapshot_for iv es root j \<in> snapshots iv es root" "snapshot_for iv es root j \<le> j"
    "l \<in> snapshots iv es root \<Longrightarrow> l \<le> j \<Longrightarrow> l \<le> snapshot_for iv es root j"
proof -
  have "finite {k \<in> snapshots iv es root. k \<le> j}" "{k \<in> snapshots iv es root. k \<le> j} \<noteq> {}"
    using finite_snapshots [of iv es root] assms by auto
  from Max_in [OF this] Max_ge [OF this(1)] show "snapshot_for iv es root j \<in> snapshots iv es root" "snapshot_for iv es root j \<le> j"
    "l \<in> snapshots iv es root \<Longrightarrow> l \<le> j \<Longrightarrow> l \<le> snapshot_for iv es root j"
    by (simp_all add: snapshot_for_def)
qed

lemma seek_pruned:
  assumes "dir_ok iv es base cur root" "history iv es m" "j \<le> length es" "\<And>l. l \<in> snapshots iv es root \<Longrightarrow> j < l"
  shows "seekSnapshot (ReadDir root) (of_nat (ver iv j)) = Inl (Error ''target version is pruned'')"
proof -
  have "{v \<in> versions (ReadDir root). v \<le> uint (of_nat (ver iv j) :: u32)} = {}"
    using assms(4) target_version(1) [OF history_take_version [OF assms(2,3)]] by (auto simp: versions_ReadDir [OF assms(1,2)] not_le ver_less)
  moreover have "sorted_wrt (\<ge>) (map fst (rev (ReadDir root)))" "list_all well_named (rev (ReadDir root))"
    using sorted_ReadDir ReadDir_well_named [OF assms(1,2)] by (simp_all add: rev_map [symmetric] sorted_wrt_rev)
  moreover have "versions (rev (ReadDir root)) = versions (ReadDir root)"
    by (simp add: versions_def)
  ultimately show ?thesis
    using traverse_seek [of "rev (ReadDir root)" "uint (of_nat (ver iv j) :: u32)"]
    by (simp add: seekSnapshot_def traverseSnapshots_def)
qed

lemma Load_pruned:
  assumes "dir_ok iv es base cur root" "history iv es m" "0 < j" "j \<le> length es" "\<And>l. l \<in> snapshots iv es root \<Longrightarrow> j < l"
    "TargetVersion opts = of_nat (ver iv j)" "Validate opts = Inr ()"
  shows "Load ops wops False log opts root = Inl (Error ''target version is pruned'')"
proof -
  let ?root = "if ReadOnly opts then root else removeTmpDirs root"
  have dir: "dir_ok iv es base cur ?root" "snapshots iv es ?root = snapshots iv es root"
    using removeTmpDirs_ok(1,3) [OF assms(1)] assms(1) by (simp_all add: snapshots_def)
  then have "seekSnapshot (ReadDir ?root) (TargetVersion opts) = Inl (Error ''target version is pruned'')"
    using seek_pruned [OF dir(1) assms(2,4)] assms(5,6) by simp
  moreover have "TargetVersion opts \<noteq> 0"
    using target_version(1) [OF history_take_version [OF assms(2,4)]] ver_0 [of iv j] assms(3,6) by auto
  moreover have "createDBIfNotExist (InitialVersion opts) root = Inr root"
    using dir_ok_current [OF assms(1,2)] snapshot_metadata by (fastforce simp: createDBIfNotExist_def)
  ultimately show ?thesis
    using assms(7) by (cases "ReadOnly opts"; cases "CreateIfMissing opts") (simp_all add: Load_def Let_def word_gt_0)
qed

lemma Load_target:
  assumes "wal_contract wops view" "view w = (base, bs)" "log_of es (base, bs)" "history iv es m" "dir_ok iv es base cur root"
    and "l \<in> snapshots iv es root" "l \<le> j" "0 < j" "j \<le> length es" "snapshot_for iv es root j = j \<or> j \<le> base + length bs"
    and "TargetVersion opts = of_nat (ver iv j)" "Validate opts = Inr ()"
  defines "root' \<equiv> if ReadOnly opts then root else removeTmpDirs root"
  obtains mt mj where "history iv (take j es) mj" "mt_equiv mj mt"
    "Load ops wops False (Inr (Some w)) opts root =
      bind_res (if LoadForOverwriting opts then rollback wops (FillDefaults opts) (sname iv (snapshot_for iv es root j)) mt root' (Some w)
        else Inr (root', Some w)) (\<lambda>(root, wal). Inr (new_db (FillDefaults opts) mt root wal))"
proof -
  let ?k = "snapshot_for iv es root j"
  note k = snapshot_for [OF assms(6,7)]
  have dir: "dir_ok iv es base cur root'" and same: "snapshots iv es root' = snapshots iv es root"
    using removeTmpDirs_ok(1,3) [OF assms(5)] assms(5) by (simp_all add: root'_def snapshots_def)
  have target: "TargetVersion (FillDefaults opts) = of_nat (ver iv j)"
    using assms(11) by simp
  obtain mt mj where mt: "load_tree ops wops (FillDefaults opts) (sname iv ?k) root' (Inr (Some w)) = Inr (mt, Some w)"
    "history iv (take j es) mj" "mt_equiv mj mt"
    by (rule load_tree_target [where view = view, OF assms(1-4) dir k(1) [folded same] k(2) assms(8,9,10) target, of ops])
  have v: "ver iv j < 2 ^ 31"
    by (rule history_take_version [OF assms(4,9)])
  have "mt_Version mt = of_nat (ver iv j)"
    using history_version [OF mt(2)] mt_equiv_Version [OF mt(3)] assms(9) by simp
  then have ne: "mt_Version mt \<noteq> 0" "TargetVersion opts \<noteq> 0"
    using unat_ver [OF v] target_version(1) [OF v] ver_0 [of iv j] assms(8,11) by auto
  have seek: "seekSnapshot (ReadDir root') (TargetVersion opts) = Inr (int (ver iv ?k))"
    unfolding assms(11) by (rule seek_snapshot [OF dir assms(4,9)]) (use k same in auto)
  have "createDBIfNotExist (InitialVersion opts) root = Inr root"
    using dir_ok_current [OF assms(5,4)] snapshot_metadata by (fastforce simp: createDBIfNotExist_def)
  then have "Load ops wops False (Inr (Some w)) opts root =
      bind_res (if LoadForOverwriting opts then rollback wops (FillDefaults opts) (sname iv ?k) mt root' (Some w)
        else Inr (root', Some w)) (\<lambda>(root, wal). Inr (new_db (FillDefaults opts) mt root wal))"
    using mt(1) ne seek assms(12)
    by (cases "ReadOnly opts"; cases "CreateIfMissing opts") (simp_all add: Load_def Let_def root'_def word_gt_0 cong: if_cong)
  then show ?thesis
    using that mt(2,3) by blast
qed

section \<open>Rolling back\<close>

definition no_tmp :: "root_dir \<Rightarrow> bool" where
  "no_tmp root \<longleftrightarrow> (\<forall>name. tmp_name name \<longrightarrow> map_of (root_dirs root) name = None)"

lemma removeTmpDirs_no_tmp: "no_tmp (removeTmpDirs root)"
proof -
  have "map_of (root_dirs (removeTmpDirs root)) name = None" if "tmp_name name" for name
    unfolding removeTmpDirs_def remove_fold(1) using tmp_name_suffix [OF that] set_ReadDir(1) [of name root] by simp
  then show ?thesis
    by (simp add: no_tmp_def)
qed

lemma no_tmp_ok: "no_tmp root \<Longrightarrow> tmp_ok iv es root"
  by (auto simp: no_tmp_def tmp_ok_def)

text \<open>Without temporary directories, removing a snapshot cannot fail.\<close>

lemma atomicRemoveDir_succeeds:
  assumes "dir_ok iv es base cur root" "no_tmp root" "history iv es m" "map_of (root_dirs root) (sname iv l) = Some d" "ver iv l < 2 ^ 31"
  obtains root' where "atomicRemoveDir (sname iv l) root = Inr root'" "no_tmp root'"
proof -
  let ?tmp = "sname iv l @ TmpSuffix"
  have "map_of (root_dirs root) ?tmp = None"
    using assms(2) tmp_name_sname_tmp [OF assms(5)] by (simp add: no_tmp_def)
  moreover have "map_of (root_links root) ?tmp = None"
    using dir_okD(4) [OF assms(1)] snapshotName_other(3,4) [of "int (ver iv l)"] by (metis not_None_eq of_nat_0_le_iff)
  ultimately have "atomicRemoveDir (sname iv l) root =
      Inr (os_RemoveAll ?tmp (root\<lparr>root_dirs := AList.update ?tmp d (AList.delete (sname iv l) (root_dirs root))\<rparr>))"
    using assms(4) by (simp add: atomicRemoveDir_def os_Rename_dir_def)
  moreover have "no_tmp (os_RemoveAll ?tmp (root\<lparr>root_dirs := AList.update ?tmp d (AList.delete (sname iv l) (root_dirs root))\<rparr>))"
    using assms(2) by (auto simp: no_tmp_def os_RemoveAll_dirs map_of_alist)
  ultimately show ?thesis
    by (rule that)
qed

lemma rollback_traverse:
  assumes "sorted_wrt (\<ge>) (map fst dirs)" "list_all well_named dirs" "dir_ok iv es base k root" "no_tmp root" "history iv es m"
    "k \<le> j" "j \<le> length es" "\<And>l. l \<in> snapshots iv es root \<Longrightarrow> j < l \<Longrightarrow> (sname iv l, True) \<in> set dirs"
  obtains root' where "traverse dirs (rollback_callback (int (ver iv j))) root = Inr root'" "dir_ok iv es base k root'" "no_tmp root'"
    "\<forall>l \<in> snapshots iv es root'. l \<le> j"
proof -
  have "\<exists>root'. traverse dirs (rollback_callback (int (ver iv j))) root = Inr root' \<and> dir_ok iv es base k root' \<and> no_tmp root' \<and>
      (\<forall>l \<in> snapshots iv es root'. l \<le> j)"
    using assms(1-4,8)
  proof (induction dirs arbitrary: root)
    case Nil
    then have "\<forall>l \<in> snapshots iv es root. l \<le> j"
      by (auto simp: not_less [symmetric])
    then show ?case
      using Nil.prems(3,4) by simp
  next
    case (Cons e dirs)
    obtain name isDir where e: "e = (name, isDir)" by fastforce
    have dirs: "sorted_wrt (\<ge>) (map fst dirs)" "list_all well_named dirs"
      using Cons.prems(1,2) by simp_all
    have "well_named (name, isDir)"
      using Cons.prems(2) by (simp add: e)
    then show ?case
    proof (cases rule: well_named_cases)
      case other
      have "(sname iv l, True) \<in> set dirs" if "l \<in> snapshots iv es root" "j < l" for l
        using Cons.prems(5) [OF that] other isSnapshotName_snapshotName by (auto simp: e)
      from Cons.IH [OF dirs Cons.prems(3,4) this] other show ?thesis
        by (auto simp: e)
    next
      case (snapshot v)
      have step: "traverse (e # dirs) (rollback_callback (int (ver iv j))) root =
          (if v \<le> int (ver iv j) then Inr root
           else traverse dirs (rollback_callback (int (ver iv j)))
             (case atomicRemoveDir (snapshotName v) root of Inl _ \<Rightarrow> root | Inr root \<Rightarrow> root))"
        using snapshot isSnapshotName_snapshotName by (simp add: e parse_known rollback_callback_def)
      show ?thesis
      proof (cases "v \<le> int (ver iv j)")
        case True
        have "l \<le> j" if l: "l \<in> snapshots iv es root" for l
        proof (rule ccontr)
          assume "\<not> l \<le> j"
          then have "(sname iv l, True) \<in> set (e # dirs)" "ver iv j < ver iv l"
            using Cons.prems(5) [OF l] by (simp_all add: ver_less)
          moreover have "ver iv l < 2 ^ 31"
            using l history_take_version [OF assms(5)] by (simp add: snapshots_def)
          moreover have "sname iv l \<le> snapshotName v"
            using Cons.prems(1) calculation(1) snapshot(3) by (force simp: e)
          ultimately show False
            using snapshotName_less [of "int (ver iv l)" v] snapshot(1,2) True by simp
        qed
        then show ?thesis
          using Cons.prems(3,4) by (simp only: step True if_True) blast
      next
        case False
        show ?thesis
        proof (cases "map_of (root_dirs root) (snapshotName v)")
          case None
          then have "atomicRemoveDir (snapshotName v) root = Inl (Error ''rename: no such file or directory'')"
            by (simp add: atomicRemoveDir_def os_Rename_dir_def)
          moreover have "(sname iv l, True) \<in> set dirs" if "l \<in> snapshots iv es root" "j < l" for l
            using Cons.prems(5) [OF that] None that(1) snapshot(3) by (auto simp: e snapshots_def)
          ultimately show ?thesis
            using Cons.IH [OF dirs Cons.prems(3,4)] False by (simp add: step)
        next
          case (Some d)
          have "\<not> tmp_name (snapshotName v)"
            using snapshotName_other(5) snapshot(1) by (auto simp: tmp_name_def)
          then obtain l where l: "snapshotName v = sname iv l" "snapshot_at iv es l d"
            using dir_okD(3) [OF Cons.prems(3) Some] by blast
          then have "ver iv l < 2 ^ 31" "l \<le> length es"
            using history_take_version [OF assms(5)] by (simp_all add: snapshot_at_def)
          moreover from this(1) have "v = int (ver iv l)"
            using snapshotName_inj [OF _ _ _ _ l(1)] snapshot(1,2) by simp
          ultimately have lv: "ver iv l < 2 ^ 31" "l \<noteq> k" "j < l"
            using False assms(6) ver_less [of iv j l] by auto
          obtain root1 where root1: "atomicRemoveDir (sname iv l) root = Inr root1" "no_tmp root1"
            using atomicRemoveDir_succeeds [OF Cons.prems(3,4) assms(5) _ lv(1)] Some l(1) by metis
          note rm = atomicRemoveDir_ok [OF root1(1) Cons.prems(3) no_tmp_ok [OF Cons.prems(4)] assms(5) lv(2,1)]
          have "(sname iv l', True) \<in> set dirs" if "l' \<in> snapshots iv es root1" "j < l'" for l'
          proof -
            have "l' \<noteq> l" "l' \<le> length es"
              using that(1) rm(5) by (auto simp: snapshots_def)
            then have "l' \<in> snapshots iv es root" "sname iv l' \<noteq> snapshotName v"
              using that(1) rm(4) [of l'] l(1) sname_inject [OF history_take_version [OF assms(5)] lv(1), of l'] by (simp_all add: snapshots_def)
            then show ?thesis
              using Cons.prems(5) [of l'] that(2) snapshot(3) by (simp add: e)
          qed
          from Cons.IH [OF dirs rm(1) root1(2) this] show ?thesis
            using False l(1) root1(1) by (simp add: step)
        qed
      qed
    qed
  qed
  then show ?thesis
    using that by blast
qed

lemma dir_ok_take:
  assumes "dir_ok iv es base k root" "k \<le> j" "j \<le> length es" "\<And>l. l \<in> snapshots iv es root \<Longrightarrow> l \<le> j"
  shows "dir_ok iv (take j es) base k root"
proof -
  have "snapshot_at iv (take j es) l d" if "map_of (root_dirs root) (sname iv l) = Some d" "snapshot_at iv es l d" for l d
  proof -
    have "l \<le> j"
      using that by (intro assms(4)) (simp add: snapshots_def snapshot_at_def)
    then show ?thesis
      using that(2) assms(3) by (simp add: snapshot_at_def min_absorb1)
  qed
  then have "tmp_name name \<or> (\<exists>l. name = sname iv l \<and> base \<le> l \<and> snapshot_at iv (take j es) l d)"
    if "map_of (root_dirs root) name = Some d" for name d
    using dir_okD(3) [OF assms(1) that] that by blast
  then show ?thesis
    using dir_okD [OF assms(1)] assms(2,3) unfolding dir_ok_def by (simp add: min_absorb2) blast
qed

lemma updateCurrentSymlink_ok:
  assumes "updateCurrentSymlink (sname iv k) root = Inr root'" "dir_ok iv es base cur root" "k \<in> snapshots iv es root"
  shows "dir_ok iv es base k root'" "root_dirs root' = root_dirs root"
proof -
  have none: "map_of (root_links root) currentTmpPath = None"
    using assms(1) by (auto simp: updateCurrentSymlink_def bind_res_Inr os_Symlink_def split: if_splits)
  then have root': "root' = root\<lparr>root_links := AList.update currentPath (sname iv k) (AList.delete currentTmpPath (root_links root))\<rparr>"
    using assms(1)
    by (auto simp: updateCurrentSymlink_def bind_res_Inr os_Symlink_def os_Rename_link_def split: if_splits)
  then show "root_dirs root' = root_dirs root" by simp
  show "dir_ok iv es base k root'"
    by (rule dir_ok_change [OF assms(2)])
      (use dir_okD [OF assms(2)] assms(3) in \<open>auto simp: root' snapshots_def distinct_update distinct_delete map_of_alist split: if_splits\<close>)
qed

lemma rollback_eq:
  assumes "history iv es m" "dir_ok iv es base cur root" "0 < j" "j \<le> length es" "mt_initialVersion mt = iv" "TargetVersion opts = of_nat (ver iv j)"
  shows "unat (of_nat j :: u64) = j"
    "rollback wops opts (sname iv k) mt root (Some w) =
      bind_res (if sname iv k \<noteq> sname iv cur then updateCurrentSymlink (sname iv k) root else Inr root) (\<lambda>root.
      bind_res (w_TruncateBack wops (of_nat j) w) (\<lambda>w.
      bind_res (traverse (rev (ReadDir root)) (rollback_callback (int (ver iv j))) root) (\<lambda>root. Inr (root, Some w))))"
proof -
  have v: "ver iv j < 2 ^ 31"
    by (rule history_take_version [OF assms(1,4)])
  have "walIndex (ucast (of_nat (ver iv j) :: u32)) (mt_initialVersion mt) = of_nat j"
    using walIndex_ver [OF assms(3), of iv] target_version(2) [OF v] assms(5) by simp
  then show "rollback wops opts (sname iv k) mt root (Some w) =
      bind_res (if sname iv k \<noteq> sname iv cur then updateCurrentSymlink (sname iv k) root else Inr root) (\<lambda>root.
      bind_res (w_TruncateBack wops (of_nat j) w) (\<lambda>w.
      bind_res (traverse (rev (ReadDir root)) (rollback_callback (int (ver iv j))) root) (\<lambda>root. Inr (root, Some w))))"
    by (simp add: rollback_def dir_okD(5) [OF assms(2)] assms(6) target_version(1) [OF v] traverseSnapshots_def)
  show "unat (of_nat j :: u64) = j"
    by (rule unat_of_nat_less) (use assms(4) history_length [OF assms(1)] in simp)
qed

lemma rollback_prune:
  assumes "history iv es m" "dir_ok iv es base cur root" "no_tmp root" "k \<in> snapshots iv es root" "k \<le> j" "j \<le> length es"
    "(if sname iv k \<noteq> sname iv cur then updateCurrentSymlink (sname iv k) root else Inr root) = Inr root1"
  obtains root2 where "traverse (rev (ReadDir root1)) (rollback_callback (int (ver iv j))) root1 = Inr root2"
    "dir_ok iv (take j es) base k root2" "no_tmp root2"
proof -
  have cur: "cur \<le> length es" "k \<le> length es"
    using dir_okD(7) [OF assms(2)] assms(4) by (simp_all add: snapshots_def)
  have root1: "dir_ok iv es base k root1" "root_dirs root1 = root_dirs root"
    using updateCurrentSymlink_ok [of iv k root root1] assms(2,4,7)
      sname_inject [OF history_take_version [OF assms(1) cur(2)] history_take_version [OF assms(1) cur(1)]]
    by (auto split: if_splits)
  have dirs: "sorted_wrt (\<ge>) (map fst (rev (ReadDir root1)))" "list_all well_named (rev (ReadDir root1))" "no_tmp root1"
    using sorted_ReadDir [of root1] ReadDir_well_named [OF root1(1) assms(1)] assms(3)
    by (simp_all add: rev_map [symmetric] sorted_wrt_rev no_tmp_def root1(2))
  have "(sname iv l, True) \<in> set (rev (ReadDir root1))" if "l \<in> snapshots iv es root1" for l
    using that set_ReadDir(1) by (simp add: snapshots_def)
  then obtain root2 where root2: "traverse (rev (ReadDir root1)) (rollback_callback (int (ver iv j))) root1 = Inr root2"
    "dir_ok iv es base k root2" "no_tmp root2" "\<forall>l \<in> snapshots iv es root2. l \<le> j"
    using rollback_traverse [OF dirs(1,2) root1(1) dirs(3) assms(1,5,6)] by blast
  then show ?thesis
    using that dir_ok_take [OF root2(2) assms(5,6)] by blast
qed

lemma rollback_ok:
  assumes "wal_contract wops view" "view w = (base, bs)" "history iv es m" "dir_ok iv es base cur root" "no_tmp root"
    and "k \<in> snapshots iv es root" "k \<le> j" "0 < j" "j \<le> length es" "mt_initialVersion mt = iv" "TargetVersion opts = of_nat (ver iv j)"
    and "rollback wops opts (sname iv k) mt root (Some w) = Inr (root', wal')"
  shows "\<exists>w'. wal' = Some w' \<and> view w' = (base, take (j - base) bs) \<and> base < j \<and> j \<le> base + length bs \<and>
    dir_ok iv (take j es) base k root' \<and> no_tmp root'"
proof -
  note eq = rollback_eq [OF assms(3,4,8-11)]
  obtain root1 w1 where step: "(if sname iv k \<noteq> sname iv cur then updateCurrentSymlink (sname iv k) root else Inr root) = Inr root1"
    "w_TruncateBack wops (of_nat j) w = Inr w1" "wal' = Some w1"
    "traverse (rev (ReadDir root1)) (rollback_callback (int (ver iv j))) root1 = Inr root'"
    using assms(12) unfolding eq(2) by (auto simp: bind_res_Inr)
  have j: "base < j" "j \<le> base + length bs"
    using wal_contractD(8) [OF assms(1,2), of "of_nat j"] step(2) eq(1) by fastforce+
  then have log: "view w1 = (base, take (j - base) bs)"
    using wal_contractD(7) [OF assms(1,2), of "of_nat j"] step(2) eq(1) by auto
  obtain root2 where "traverse (rev (ReadDir root1)) (rollback_callback (int (ver iv j))) root1 = Inr root2"
    "dir_ok iv (take j es) base k root2" "no_tmp root2"
    by (rule rollback_prune [OF assms(3-7,9) step(1)])
  then show ?thesis
    using step(3,4) log j by simp
qed

lemma rollback_good:
  assumes "wal_contract wops view" "view w = (base, bs)" "log_of es (base, bs)" "history iv es m" "dir_ok iv es base cur root"
    and "l \<in> snapshots iv es root" "l \<le> j" "0 < j" "j \<le> base + length bs" "LoadForOverwriting opts" "TargetVersion opts = of_nat (ver iv j)"
    and "Load ops wops False (Inr (Some w)) opts root = Inr db"
  shows "db_good view iv (take j es) db"
proof -
  have j: "j \<le> length es"
    using assms(3,9) by (simp add: log_of_def)
  have valid: "Validate opts = Inr ()"
    using assms(12) by (cases "Validate opts") (simp_all add: Load_def)
  then have "\<not> ReadOnly opts"
    using assms(10) by (simp add: Validate_def split: if_splits)
  let ?k = "snapshot_for iv es root j" and ?root = "removeTmpDirs root"
  obtain mt mj where mt: "history iv (take j es) mj" "mt_equiv mj mt"
    "Load ops wops False (Inr (Some w)) opts root =
      bind_res (rollback wops (FillDefaults opts) (sname iv ?k) mt ?root (Some w)) (\<lambda>(root, wal). Inr (new_db (FillDefaults opts) mt root wal))"
    by (rule Load_target [where view = view, OF assms(1-8) j _ assms(11) valid, of ops]) (use assms(9,10) \<open>\<not> ReadOnly opts\<close> in auto)
  obtain root' wal' where r: "rollback wops (FillDefaults opts) (sname iv ?k) mt ?root (Some w) = Inr (root', wal')"
    "db = new_db (FillDefaults opts) mt root' wal'"
    using assms(12) mt(3) by (auto simp: bind_res_Inr)
  have k: "?k \<in> snapshots iv es ?root" "?k \<le> j"
    using snapshot_for [OF assms(6,7)] removeTmpDirs_ok(3) [OF assms(5)] by (simp_all add: snapshots_def)
  have iv: "mt_initialVersion mt = iv"
    using history_version [OF mt(1)] mt(2) by (simp add: mt_equiv_def)
  have target: "TargetVersion (FillDefaults opts) = of_nat (ver iv j)"
    using assms(11) by simp
  obtain w' where w': "wal' = Some w'" "view w' = (base, take (j - base) bs)" "base < j" "dir_ok iv (take j es) base ?k root'" "no_tmp root'"
    using rollback_ok [OF assms(1,2,4) removeTmpDirs_ok(1) [OF assms(5)] removeTmpDirs_no_tmp k assms(8) j iv target r(1)] by blast
  have log: "log_of (take j es) (base, take (j - base) bs)"
    using assms(3) w'(3) j by (auto simp: log_of_def)
  have len: "base + length (take (j - base) bs) = length (take j es)"
    using w'(3) assms(9) j by simp
  have ne: "take j es = [] \<longrightarrow> fresh mt"
    using assms(8) j by auto
  have "mt_Version mt \<noteq> 0"
    using history_version [OF mt(1)] mt_equiv_Version [OF mt(2)] unat_ver [OF history_take_version [OF assms(4) j]] ver_0 [of iv j] assms(8) j
    by auto
  then have "loaded_db ops opts mt root' (Some w') = Inr db"
    using r(2) w'(1) by (simp add: loaded_db_def Let_def)
  then show ?thesis
    by (rule loaded_db_good [where view = view, OF w'(2) log mt(1) w'(4) no_tmp_ok [OF w'(5)] len mt(2) ne \<open>\<not> ReadOnly opts\<close>])
qed

text \<open>The rollback succeeds unless a link is left over or the target is not in the log.\<close>

lemma dir_ok_no_dir:
  assumes "dir_ok iv es base cur root"
  shows "map_of (root_dirs root) currentPath = None" "map_of (root_dirs root) currentTmpPath = None"
  using dir_okD(3) [OF assms, of currentPath] dir_okD(3) [OF assms, of currentTmpPath] snapshotName_other(1-4)
  by (metis not_None_eq of_nat_0_le_iff tmp_name_def)+

lemma rollback_total:
  assumes "wal_contract wops view" "view w = (base, bs)" "history iv es m" "dir_ok iv es base cur root" "no_tmp root"
    and "k \<in> snapshots iv es root" "k \<le> j" "0 < j" "j \<le> length es" "mt_initialVersion mt = iv" "TargetVersion opts = of_nat (ver iv j)"
  shows "base < j \<Longrightarrow> j \<le> base + length bs \<Longrightarrow> map_of (root_links root) currentTmpPath = None \<Longrightarrow>
      \<exists>root' wal'. rollback wops opts (sname iv k) mt root (Some w) = Inr (root', wal')"
    and "j \<le> base \<Longrightarrow> \<exists>err. rollback wops opts (sname iv k) mt root (Some w) = Inl err"
proof -
  note eq = rollback_eq [OF assms(3,4,8-11)]
  let ?link = "if sname iv k \<noteq> sname iv cur then updateCurrentSymlink (sname iv k) root else Inr root"
  show "\<exists>err. rollback wops opts (sname iv k) mt root (Some w) = Inl err" if "j \<le> base"
    using wal_contractD(8) [OF assms(1,2), of "of_nat j"] eq(1) that unfolding eq(2) by (cases ?link) auto
  show "\<exists>root' wal'. rollback wops opts (sname iv k) mt root (Some w) = Inr (root', wal')"
    if j: "base < j" "j \<le> base + length bs" and none: "map_of (root_links root) currentTmpPath = None"
  proof -
    have "\<exists>root1. updateCurrentSymlink (sname iv k) root = Inr root1"
      using none dir_ok_no_dir [OF assms(4)] by (simp add: updateCurrentSymlink_def os_Symlink_def os_Rename_link_def)
    then obtain root1 where root1: "?link = Inr root1"
      by (cases "sname iv k = sname iv cur") auto
    obtain w1 where w1: "w_TruncateBack wops (of_nat j) w = Inr w1"
      using wal_contractD(7) [OF assms(1,2), of "of_nat j"] eq(1) j by auto
    obtain root2 where "traverse (rev (ReadDir root1)) (rollback_callback (int (ver iv j))) root1 = Inr root2"
      by (rule rollback_prune [OF assms(3-7,9) root1])
    then show ?thesis
      unfolding eq(2) by (simp add: root1 w1)
  qed
qed

end
