(* ===== verification/Db_Recovery.thy ===== *)
theory Db_Recovery
  imports Db_Load
begin

text \<open>
  The life of a database: created in an empty directory, used by any sequence of steps, closed or
  killed and loaded again, perhaps with a rollback. Every state is related to the history of the committed entries, and loading
  after a crash gives a state of that history.
\<close>

section \<open>Lives of a database\<close>

inductive db_life ::
    "'c cache_ops \<Rightarrow> 'w wal_ops \<Rightarrow> 'w \<Rightarrow> u32 \<Rightarrow> wal_entry list \<Rightarrow> ('c, 'w) db \<Rightarrow> bool" for ops wops w0 iv where
  create: "CreateIfMissing opts \<Longrightarrow> InitialVersion opts = iv \<Longrightarrow> TargetVersion opts = 0 \<Longrightarrow>
    Load ops wops False (Inr (Some w0)) opts empty_root = Inr db \<Longrightarrow> db_life ops wops w0 iv [] db"
| step: "db_life ops wops w0 iv es db \<Longrightarrow> db_step ops wops db es' db' \<Longrightarrow> db_life ops wops w0 iv (es @ es') db'"
| restart: "db_life ops wops w0 iv es db \<Longrightarrow> in_flight db = [] \<Longrightarrow> \<not> ReadOnly opts \<Longrightarrow> TargetVersion opts = 0 \<Longrightarrow>
    Load ops wops False (Inr (db_wal db)) opts (db_root db) = Inr db' \<Longrightarrow> db_life ops wops w0 iv es db'"
| rollback: "db_life ops wops w0 iv es db \<Longrightarrow> in_flight db = [] \<Longrightarrow> LoadForOverwriting opts \<Longrightarrow> 0 < j \<Longrightarrow> j \<le> length es \<Longrightarrow>
    TargetVersion opts = of_nat (ver iv j) \<Longrightarrow> Load ops wops False (Inr (db_wal db)) opts (db_root db) = Inr db' \<Longrightarrow>
    db_life ops wops w0 iv (take j es) db'"

lemma rollback_life_good:
  assumes "wal_contract wops view" "db_good view iv es db" "in_flight db = []" "LoadForOverwriting opts" "0 < j" "j \<le> length es"
    "TargetVersion opts = of_nat (ver iv j)" "Load ops wops False (Inr (db_wal db)) opts (db_root db) = Inr db'"
  shows "db_good view iv (take j es) db'"
proof -
  obtain m w base bs cur where i: "db_inv view iv es m w base bs cur db"
    using assms(2) unfolding db_good_def by blast
  note inv = db_invD [OF i]
  have load: "Load ops wops False (Inr (Some w)) opts (db_root db) = Inr db'"
    using assms(8) inv(2) by simp
  then have valid: "Validate opts = Inr ()"
    by (cases "Validate opts") (simp_all add: Load_def)
  have "\<not> (\<forall>l \<in> snapshots iv es (db_root db). j < l)"
    using Load_pruned [OF inv(6,1) assms(5,6) _ assms(7) valid, of ops wops "Inr (Some w)"] load by auto
  then obtain l where l: "l \<in> snapshots iv es (db_root db)" "l \<le> j"
    by (auto simp: not_less)
  show ?thesis
    by (rule rollback_good [where view = view, OF assms(1) inv(3,4,1,6) l assms(5) _ assms(4,7) load])
      (use flight_logged [OF i assms(3)] assms(6) in simp)
qed

lemma life_good:
  assumes "wal_contract wops view" "view w0 = (0, [])" "db_life ops wops w0 iv es db"
  shows "db_good view iv es db"
  using assms(3)
proof (induction rule: db_life.induct)
  case (create opts db)
  show ?case by (rule create_good [where view = view, OF assms(1,2) create(1-4)])
next
  case (step es db es' db')
  show ?case by (rule step_keeps_good [OF assms(1) step.IH step.hyps(2)])
next
  case (restart es db opts db')
  show ?case by (rule restart_good [OF assms(1) restart.IH restart.hyps(2-5)])
next
  case (rollback es db opts j db')
  show ?case by (rule rollback_life_good [OF assms(1) rollback.IH rollback.hyps(2-7)])
qed

section \<open>An example\<close>

text \<open>A database with synchronous commits is created with one store and commits a block.\<close>

definition example_opts :: options where
  "example_opts =
     \<lparr>CreateIfMissing = True, InitialVersion = 0, ReadOnly = False, InitialStores = [[97]], SnapshotKeepRecent = 0,
      SnapshotInterval = 1, TargetVersion = 0, AsyncCommitBuffer = -1, ZeroCopy = False, CacheSize = 0,
      LoadForOverwriting = False, SnapshotWriterLimit = 0\<rparr>"

definition example_entry :: wal_entry where
  "example_entry = WALEntry_zero\<lparr>Upgrades := [\<lparr>up_Name = [97], up_RenameFrom = [], up_Delete = False\<rparr>]\<rparr>"

definition example_mt :: "u32 \<Rightarrow> unit multi_tree" where
  "example_mt v = (genesis 0)\<lparr>mt_trees := [\<lparr>nt_Tree = \<lparr>tree_version = v, tree_root = None, tree_snap = None,
      tree_cache = NewCache no_cache 0, zeroCopy = True\<rparr>, nt_Name = [97]\<rparr>], treesByName := [[97] \<mapsto> 0]\<rparr>"

definition example_saved :: "unit multi_tree" where
  "example_saved = UpdateCommitInfo ((example_mt 1)\<lparr>lastCommitInfo := CommitInfo_zero\<lparr>ci_Version := 1\<rparr>\<rparr>)"

lemma example_commit:
  "ApplyUpgrades no_cache (Upgrades example_entry) (genesis 0) = Inr (example_mt 0)"
  "mt_SaveVersion True (example_mt 0) = Inr (1, example_saved)" "fits example_saved" "WALEntry_Size example_entry < 2 ^ 63"
  by (simp_all add: example_entry_def example_mt_def example_saved_def fits_def ApplyUpgrades_def apply_upgrade_def genesis_def
      NewEmptyMultiTree_def NewWithInitialVersion_def Let_def mt_Version_def CommitInfo_zero_def nextVersion_def tree_New_def
      NewEmptyTree_def mt_SaveVersion_def tree_SaveVersion_def UpdateCommitInfo_def buildCommitInfo_def root_writable_def
      CommitInfo_Size_def StoreInfo_Size_def CommitID_Size_def size_message_field_def size_int_field_def size_bytes_field_def
      sov_small tree_RootHash_def rootHash_def emptyHash_def WALEntry_Size_def TreeNameUpgrade_Size_def WALEntry_zero_def)

lemma example_created:
  obtains db :: "(unit, nat \<times> bytes list) db" where "db_life no_cache list_wal (0, []) 0 [] db" "mt_equiv (example_mt 0) (db_mt db)"
    "pendingLog db = example_entry" "db_pc db = Idle" "db_wal db = Some (0, [])" "walChan db = None" "walChanSize db = -1"
    "\<not> db_readOnly db" "snapshotRewrite db = None" "snapshotInterval db = 1"
    "map_of (root_links (db_root db)) currentTmpPath = None"
proof -
  obtain root where dir: "dir_ok 0 [] 0 0 root" and link: "map_of (root_links root) currentTmpPath = None"
    and root: "Load no_cache list_wal False (Inr (Some (0, []))) example_opts empty_root =
      Load no_cache list_wal False (Inr (Some (0, []))) example_opts root"
    using create_dir [of 0] by (metis (no_types) example_opts_def options.select_convs(1,2))
  have opts: "TargetVersion example_opts = 0" "Validate example_opts = Inr ()" "log_of [] (0, [])"
    by (simp_all add: example_opts_def Validate_def log_of_def)
  obtain mt mj where mt: "history 0 (take (max 0 (0 + length ([] :: bytes list))) []) mj" "mt_equiv mj mt"
    and load: "Load no_cache list_wal False (Inr (Some (0, []))) example_opts root =
      loaded_db no_cache example_opts mt (if ReadOnly example_opts then root else removeTmpDirs root) (Some (0, []))"
    by (rule Load_latest [OF list_wal_contract _ opts(3) history.start dir opts(1,2), of "(0, [])" no_cache]) auto
  then have equiv: "mt_equiv (genesis 0) mt"
    using history_unique [OF history.start] by auto
  obtain mt' where mt': "ApplyUpgrades no_cache (Upgrades example_entry) mt = Inr mt'" "mt_equiv (example_mt 0) mt'"
    using rel_res_Inr [OF ApplyUpgrades_equiv [OF equiv] example_commit(1)] by blast
  let ?db = "(new_db (FillDefaults example_opts) mt (removeTmpDirs root) (Some (0, [])))\<lparr>db_mt := mt', pendingLog := example_entry\<rparr>"
  have "mt_Version mt = 0"
    using mt_equiv_Version [OF equiv] by simp
  then have "Load no_cache list_wal False (Inr (Some (0, []))) example_opts empty_root = Inr ?db"
    using mt'(1) unfolding root load
    by (simp add: loaded_db_def db_ApplyUpgrades_def example_opts_def example_entry_def new_db_def WALEntry_zero_def FillDefaults_def Let_def)
  then have "db_life no_cache list_wal (0, []) 0 [] ?db"
    by (rule db_life.create [rotated 3]) (simp_all add: example_opts_def)
  then show ?thesis
    by (rule that) (simp_all add: mt'(2) link removeTmpDirs_ok(4) [OF dir] new_db_def example_opts_def FillDefaults_def Let_def)
qed

lemma example_life:
  obtains db :: "(unit, nat \<times> bytes list) db" and bz where "db_life no_cache list_wal (0, []) 0 [example_entry] db" "db_pc db = Idle"
    "walChan db = None" "db_wal db = Some (0, [bz])" "map_of (root_links (db_root db)) currentTmpPath = None"
proof -
  obtain db :: "(unit, nat \<times> bytes list) db" where life: "db_life no_cache list_wal (0, []) 0 [] db" and equiv: "mt_equiv (example_mt 0) (db_mt db)"
    and db: "pendingLog db = example_entry" "db_pc db = Idle" "db_wal db = Some (0, [])" "walChan db = None" "walChanSize db = -1"
      "\<not> db_readOnly db" "snapshotRewrite db = None" "snapshotInterval db = 1" "map_of (root_links (db_root db)) currentTmpPath = None"
    by (rule example_created)
  obtain mt where mt: "mt_SaveVersion True (db_mt db) = Inr (1, mt)" "mt_equiv example_saved mt"
    using rel_res_Inr [OF mt_SaveVersion_equiv [OF equiv] example_commit(2)] by (auto simp: rel_prod_sel)
  have iv: "mt_initialVersion mt = 0"
    using mt(2) by (simp add: mt_equiv_def example_saved_def example_mt_def UpdateCommitInfo_def)
  obtain bz where bz: "WALEntry_Marshal example_entry = Some bz"
    using we.marshal_ok [of example_entry] by (simp add: WALEntry_Marshal_def)
  let ?db = "db\<lparr>db_mt := mt, db_wal := Some (0, [bz]), pendingLog := WALEntry_zero, db_pc := Checking 1\<rparr>"
  have commit: "commit_begin list_wal db = Inr ?db"
    by (simp add: commit_begin_def db mt(1) iv walIndex_def write_batch_def writeEntry_def bz list_wal_simps Let_def)
  have "db_step no_cache list_wal db [pendingLog db] ?db"
  proof (rule db_step.commit [OF db(2) commit])
    show "fits (db_mt ?db)"
      using example_commit(3) fits_equiv [OF mt(2)] by simp
    show "unat (mt_next (db_mt db)) < 2 ^ 31"
      using mt_equiv_next [OF equiv] by (simp add: example_mt_def nextVersion_def mt_Version_def genesis_def NewEmptyMultiTree_def CommitInfo_zero_def)
    show "WALEntry_Size (pendingLog db) < 2 ^ 63"
      using example_commit(4) db(1) by simp
  qed
  from db_life.step [OF life this] have life1: "db_life no_cache list_wal (0, []) 0 [example_entry] ?db"
    by (simp add: db(1))
  obtain db' where db': "commit_check no_cache ?db = Some (Inr db')" "db_pc db' = Idle" "walChan db' = None" "db_wal db' = Some (0, [bz])"
    "map_of (root_links (db_root db')) currentTmpPath = None"
    by (simp add: commit_check_def checkAsyncCommit_def db commit_end_def rewriteIfApplicable_def rewriteSnapshotBackground_def)
  from db_life.step [OF life1 db_step.check [OF db'(1)]] show ?thesis
    using that db'(2-5) by simp
qed

section \<open>Crashes\<close>

text \<open>
  What a crash leaves of a database: the snapshots and links, temporary directories with anything in
  them, and a prefix of the log, as writes to it are not synced.
\<close>

definition after_crash :: "('w \<Rightarrow> nat \<times> bytes list) \<Rightarrow> ('c, 'w) db \<Rightarrow> root_dir \<Rightarrow> 'w \<Rightarrow> bool" where
  "after_crash view db root w \<longleftrightarrow>
     root_links root = root_links (db_root db) \<and> distinct (map fst (root_dirs root)) \<and>
     (\<forall>name. map_of (root_dirs root) name = map_of (root_dirs (db_root db)) name \<or> tmp_name name) \<and>
     (\<exists>w0 j. db_wal db = Some w0 \<and> view w = (fst (view w0), take j (snd (view w0))))"

lemma after_crash_dir:
  assumes "dir_ok iv es base cur (db_root db)" "after_crash view db root w"
  shows "dir_ok iv es base cur root"
proof -
  have same: "map_of (root_dirs root) (sname iv k) = map_of (root_dirs (db_root db)) (sname iv k)" for k
    using assms(2) tmp_name_sname by (auto simp: after_crash_def)
  have "map_of (root_dirs (db_root db)) name = Some d \<or> tmp_name name" if "map_of (root_dirs root) name = Some d" for name d
    using assms(2) that unfolding after_crash_def by metis
  then show ?thesis
    by (intro dir_ok_change [OF assms(1)]) (use assms dir_okD [OF assms(1)] same in \<open>auto simp: after_crash_def\<close>)
qed



text \<open>
  C2: between two calls the multi-tree in memory is the state after all commits with the pending log
  applied, and the log on disk followed by the entries in flight to it is the history of the commits
  from the point to which it was truncated.
\<close>

theorem memory_and_log_are_history:
  assumes "wal_contract wops view" "view w0 = (0, [])" "db_life ops wops w0 iv es db" "db_pc db = Idle"
  shows "\<exists>m m' w. history iv es m \<and> applyWALEntry no_cache (pendingLog db) m = Inr m' \<and> mt_equiv m' (db_mt db) \<and>
    db_wal db = Some w \<and>
    snd (view w) @ map (\<lambda>item. enc_WALEntry (wi_data item)) (in_flight db) = map enc_WALEntry (drop (fst (view w)) es)"
proof -
  obtain m w base bs cur where i: "db_inv view iv es m w base bs cur db"
    using life_good [OF assms(1-3)] unfolding db_good_def by blast
  note inv = db_invD [OF i]
  obtain m' where m': "applyWALEntry no_cache (pendingLog db) m = Inr m'" "mt_equiv m' (db_mt db)"
    using inv(8) by (auto simp: mem_ok_def assms(4) mem_log_def)
  have "bs @ map (\<lambda>i. enc_WALEntry (es ! i)) [base + length bs..<length es] = map enc_WALEntry (drop base es)"
    using inv(4) by (intro nth_equalityI) (auto simp: log_of_def nth_append)
  then have "bs @ map (\<lambda>item. enc_WALEntry (wi_data item)) (in_flight db) = map enc_WALEntry (drop base es)"
    unfolding inv(5) items_from_def by (simp add: o_def)
  then show ?thesis
    using inv(1-3) m' by (intro exI [of _ m] exI [of _ m'] exI [of _ w]) simp
qed

theorem memory_and_log_are_history_witness:
  "\<exists>(db :: (unit, nat \<times> bytes list) db) m m' w. db_life no_cache list_wal (0, []) 0 [example_entry] db \<and>
    history 0 [example_entry] m \<and> applyWALEntry no_cache (pendingLog db) m = Inr m' \<and> mt_equiv m' (db_mt db) \<and> db_wal db = Some w \<and>
    snd w @ map (\<lambda>item. enc_WALEntry (wi_data item)) (in_flight db) = map enc_WALEntry (drop (fst w) [example_entry])"
proof -
  obtain db :: "(unit, nat \<times> bytes list) db" and bz where life: "db_life no_cache list_wal (0, []) 0 [example_entry] db" "db_pc db = Idle"
    by (rule example_life)
  show ?thesis
    using memory_and_log_are_history [where view = "\<lambda>w. w", OF list_wal_contract _ life] life(1) by blast
qed

section \<open>Versions\<close>

text \<open>
  C4: a version that is in the log can be loaded whenever a snapshot at most that version is left. \<open>Load\<close>
  then gives exactly the state after the commit of that version; else it reports that the version is
  pruned.
\<close>

theorem load_version:
  assumes "wal_contract wops view" "view w0 = (0, [])" "db_life ops wops w0 iv es db" "db_wal db = Some w"
    and "0 < j" "j \<le> fst (view w) + length (snd (view w))"
    and "TargetVersion opts = of_nat (ver iv j)" "\<not> LoadForOverwriting opts" "Validate opts = Inr ()"
  shows "if snapshots iv es (db_root db) \<inter> {..j} = {} then
      Load ops wops False (Inr (Some w)) opts (db_root db) = Inl (Error ''target version is pruned'')
    else (\<exists>m db'. Load ops wops False (Inr (Some w)) opts (db_root db) = Inr db' \<and> history iv (take j es) m \<and> mt_equiv m (db_mt db'))"
proof -
  obtain m w' base bs cur where i: "db_inv view iv es m w' base bs cur db"
    using life_good [OF assms(1-3)] unfolding db_good_def by blast
  note inv = db_invD [OF i]
  have w: "w' = w"
    using inv(2) assms(4) by simp
  then have j: "j \<le> base + length bs" "j \<le> length es"
    using inv(3,4) assms(6) by (simp_all add: log_of_def)
  show ?thesis
  proof (cases "snapshots iv es (db_root db) \<inter> {..j} = {}")
    case True
    then have "j < l" if "l \<in> snapshots iv es (db_root db)" for l
      using that by (meson atMost_iff disjoint_iff not_less)
    from Load_pruned [OF inv(6,1) assms(5) j(2) this assms(7,9)] show ?thesis
      using True by simp
  next
    case False
    then obtain l where l: "l \<in> snapshots iv es (db_root db)" "l \<le> j"
      by blast
    obtain mt mj where "history iv (take j es) mj" "mt_equiv mj mt"
      "Load ops wops False (Inr (Some w)) opts (db_root db) =
        Inr (new_db (FillDefaults opts) mt (if ReadOnly opts then db_root db else removeTmpDirs (db_root db)) (Some w))"
      by (rule Load_target [where view = view, OF assms(1) inv(3) [unfolded w] inv(4,1,6) l assms(5) j(2) _ assms(7,9), of ops])
        (use j(1) assms(8) in auto)
    then show ?thesis
      using False by (auto simp: new_db_def)
  qed
qed

theorem load_version_witness:
  "\<exists>(db :: (unit, nat \<times> bytes list) db) w m db'. db_life no_cache list_wal (0, []) 0 [example_entry] db \<and>
    Load no_cache list_wal False (Inr (Some w)) (example_opts\<lparr>TargetVersion := 1\<rparr>) (db_root db) = Inr db' \<and>
    history 0 [example_entry] m \<and> mt_equiv m (db_mt db')"
proof -
  obtain db :: "(unit, nat \<times> bytes list) db" and bz where life: "db_life no_cache list_wal (0, []) 0 [example_entry] db" "db_wal db = Some (0, [bz])"
    and link: "map_of (root_links (db_root db)) currentTmpPath = None"
    by (rule example_life)
  have "db_good (\<lambda>w. w) 0 [example_entry] db"
    by (rule life_good [where view = "\<lambda>w. w", OF list_wal_contract _ life(1)]) simp
  then obtain m w base bs cur where "db_inv (\<lambda>w. w) 0 [example_entry] m w base bs cur db"
    unfolding db_good_def by blast
  then have "cur \<in> snapshots 0 [example_entry] (db_root db)"
    by (rule current_snapshot [OF db_invD(6)])
  then have ne: "snapshots 0 [example_entry] (db_root db) \<inter> {..1} \<noteq> {}"
    by (auto simp: snapshots_def)
  let ?opts = "example_opts\<lparr>TargetVersion := 1\<rparr>"
  have opts: "TargetVersion ?opts = of_nat (ver 0 1)" "\<not> LoadForOverwriting ?opts" "Validate ?opts = Inr ()"
    by (simp_all add: ver_def example_opts_def Validate_def)
  have "\<exists>m db'. Load no_cache list_wal False (Inr (Some (0, [bz]))) ?opts (db_root db) = Inr db' \<and>
      history 0 (take 1 [example_entry]) m \<and> mt_equiv m (db_mt db')"
    using load_version [where view = "\<lambda>w. w", OF list_wal_contract refl life _ _ opts] unfolding if_not_P [OF ne] by simp
  then show ?thesis
    using life(1) by (simp del: split_paired_Ex) blast
qed

text \<open>
  C5: rolling back to a version that is in the log and has a snapshot at or below it. Unless a
  temporary link is left over, \<open>Load\<close> gives the state after that commit, truncates the log after it, points
  \<open>current\<close> to the newest snapshot that is not later and leaves no later snapshot behind. When the version
  is just before the first entry of the log, as that of the oldest snapshot is after pruning, \<open>Load\<close> fails,
  although that snapshot is the state asked for.
\<close>

theorem rollback_version:
  assumes "wal_contract wops view" "view w0 = (0, [])" "db_life ops wops w0 iv es db" "db_wal db = Some w" "view w = (base, bs)"
    and "0 < j" "j \<le> base + length bs" "snapshots iv es (db_root db) \<inter> {..j} \<noteq> {}"
    and "TargetVersion opts = of_nat (ver iv j)" "LoadForOverwriting opts" "Validate opts = Inr ()"
  shows "(base < j \<and> map_of (root_links (db_root db)) currentTmpPath = None \<longrightarrow>
      (\<exists>m db' w'. Load ops wops False (Inr (Some w)) opts (db_root db) = Inr db' \<and> history iv (take j es) m \<and> mt_equiv m (db_mt db') \<and>
        db_wal db' = Some w' \<and> view w' = (base, take (j - base) bs) \<and>
        currentVersion (db_root db') = Inr (int (ver iv (snapshot_for iv es (db_root db) j))) \<and> snapshots iv es (db_root db') \<subseteq> {..j})) \<and>
    (j \<le> base \<longrightarrow> (\<exists>err. Load ops wops False (Inr (Some w)) opts (db_root db) = Inl err))"
proof -
  obtain m w' base' bs' cur where i: "db_inv view iv es m w' base' bs' cur db"
    using life_good [OF assms(1-3)] unfolding db_good_def by blast
  then have inv: "history iv es m" "log_of es (base, bs)" "dir_ok iv es base cur (db_root db)"
    using db_invD(1-6) [OF i] assms(4,5) by simp_all
  have j: "j \<le> length es"
    using inv(2) assms(7) by (simp add: log_of_def)
  obtain l where l: "l \<in> snapshots iv es (db_root db)" "l \<le> j"
    using assms(8) by blast
  have "\<not> ReadOnly opts"
    using assms(10,11) by (simp add: Validate_def split: if_splits)
  let ?k = "snapshot_for iv es (db_root db) j" and ?root = "removeTmpDirs (db_root db)"
  obtain mt mj where mt: "history iv (take j es) mj" "mt_equiv mj mt"
    "Load ops wops False (Inr (Some w)) opts (db_root db) =
      bind_res (rollback wops (FillDefaults opts) (sname iv ?k) mt ?root (Some w)) (\<lambda>(root, wal). Inr (new_db (FillDefaults opts) mt root wal))"
    by (rule Load_target [where view = view, OF assms(1,5) inv(2,1,3) l assms(6) j _ assms(9,11), of ops]) (use assms(7,10) \<open>\<not> ReadOnly opts\<close> in auto)
  have k: "?k \<in> snapshots iv es ?root" "?k \<le> j"
    using snapshot_for [OF l] removeTmpDirs_ok(3) [OF inv(3)] by (simp_all add: snapshots_def)
  have iv: "mt_initialVersion mt = iv" "TargetVersion (FillDefaults opts) = of_nat (ver iv j)"
    using history_version [OF mt(1)] mt(2) assms(9) by (simp_all add: mt_equiv_def)
  note total = rollback_total [OF assms(1,5) inv(1) removeTmpDirs_ok(1) [OF inv(3)] removeTmpDirs_no_tmp k assms(6) j iv]
    and ok = rollback_ok [OF assms(1,5) inv(1) removeTmpDirs_ok(1) [OF inv(3)] removeTmpDirs_no_tmp k assms(6) j iv]
  have "j \<le> base \<longrightarrow> (\<exists>err. Load ops wops False (Inr (Some w)) opts (db_root db) = Inl err)"
    using total(2) unfolding mt(3) by auto
  moreover have "base < j \<and> map_of (root_links (db_root db)) currentTmpPath = None \<longrightarrow>
      (\<exists>m db' w'. Load ops wops False (Inr (Some w)) opts (db_root db) = Inr db' \<and> history iv (take j es) m \<and> mt_equiv m (db_mt db') \<and>
        db_wal db' = Some w' \<and> view w' = (base, take (j - base) bs) \<and>
        currentVersion (db_root db') = Inr (int (ver iv (snapshot_for iv es (db_root db) j))) \<and> snapshots iv es (db_root db') \<subseteq> {..j})"
  proof
    assume "base < j \<and> map_of (root_links (db_root db)) currentTmpPath = None"
    then obtain root' wal' where r: "rollback wops (FillDefaults opts) (sname iv ?k) mt ?root (Some w) = Inr (root', wal')"
      using total(1) assms(7) removeTmpDirs_ok(4) [OF inv(3)] by metis
    then obtain w' where w': "wal' = Some w'" "view w' = (base, take (j - base) bs)" "dir_ok iv (take j es) base ?k root'"
      using ok by blast
    have "currentVersion root' = Inr (int (ver iv ?k))"
      using dir_okD(5) [OF w'(3)] parse_known history_take_version [OF inv(1), of ?k] k(2) j by (simp add: currentVersion_def)
    moreover have "snapshots iv es root' \<subseteq> {..j}"
    proof
      fix l assume "l \<in> snapshots iv es root'"
      then obtain d where d: "map_of (root_dirs root') (sname iv l) = Some d" "l \<le> length es"
        by (auto simp: snapshots_def)
      then have "snapshot_at iv (take j es) l d"
        using dir_ok_snapshot(2) [OF w'(3) mt(1)] history_take_version [OF inv(1)] by blast
      then show "l \<in> {..j}"
        using j by (simp add: snapshot_at_def)
    qed
    ultimately show "\<exists>m db' w'. Load ops wops False (Inr (Some w)) opts (db_root db) = Inr db' \<and> history iv (take j es) m \<and>
        mt_equiv m (db_mt db') \<and> db_wal db' = Some w' \<and> view w' = (base, take (j - base) bs) \<and>
        currentVersion (db_root db') = Inr (int (ver iv (snapshot_for iv es (db_root db) j))) \<and> snapshots iv es (db_root db') \<subseteq> {..j}"
      unfolding mt(3) using r w'(1,2) mt(1,2) by (intro exI [of _ mj]) (simp add: new_db_def)
  qed
  ultimately show ?thesis by blast
qed

theorem rollback_version_witness:
  "\<exists>(db :: (unit, nat \<times> bytes list) db) bz. db_life no_cache list_wal (0, []) 0 [example_entry] db \<and> db_wal db = Some (0, [bz]) \<and>
    (\<exists>m db' w'. Load no_cache list_wal False (Inr (Some (0, [bz]))) (example_opts\<lparr>TargetVersion := 1, LoadForOverwriting := True\<rparr>) (db_root db) =
          Inr db' \<and> history 0 [example_entry] m \<and> mt_equiv m (db_mt db') \<and> db_wal db' = Some w' \<and> w' = (0, [bz]))"
proof -
  obtain db :: "(unit, nat \<times> bytes list) db" and bz where life: "db_life no_cache list_wal (0, []) 0 [example_entry] db" "db_wal db = Some (0, [bz])"
    and link: "map_of (root_links (db_root db)) currentTmpPath = None"
    by (rule example_life)
  have "db_good (\<lambda>w. w) 0 [example_entry] db"
    by (rule life_good [where view = "\<lambda>w. w", OF list_wal_contract _ life(1)]) simp
  then obtain m w base bs cur where "db_inv (\<lambda>w. w) 0 [example_entry] m w base bs cur db"
    unfolding db_good_def by blast
  then have "cur \<in> snapshots 0 [example_entry] (db_root db)"
    by (rule current_snapshot [OF db_invD(6)])
  then have ne: "snapshots 0 [example_entry] (db_root db) \<inter> {..1} \<noteq> {}"
    by (auto simp: snapshots_def)
  let ?opts = "example_opts\<lparr>TargetVersion := 1, LoadForOverwriting := True\<rparr>"
  have opts: "TargetVersion ?opts = of_nat (ver 0 1)" "LoadForOverwriting ?opts" "Validate ?opts = Inr ()"
    by (simp_all add: ver_def example_opts_def Validate_def)
  show ?thesis
    using rollback_version [where view = "\<lambda>w. w", OF list_wal_contract refl life refl _ _ ne opts] life link by auto
qed

end
