(* ===== verification/Db_Progress.thy ===== *)
theory Db_Progress
  imports Db_Recovery
begin

text \<open>
  Progress of \<open>Commit\<close>. The call waits for the goroutine that writes the log, twice, and for the goroutine
  that prunes. In a life of the database, where the log keeps its contract, these goroutines can always
  finish their work, so that the call can return; it never returns an error. When a write to the log has
  failed, an unbuffered channel blocks the next call forever.
\<close>

abbreviation quiet :: "'c cache_ops \<Rightarrow> 'w wal_ops \<Rightarrow> ('c, 'w) db \<Rightarrow> ('c, 'w) db \<Rightarrow> bool" where
  "quiet ops wops \<equiv> (\<lambda>db db'. db_step ops wops db [] db')"

lemma quiet_good:
  assumes "wal_contract wops view" "db_good view iv es db" "(quiet ops wops)\<^sup>*\<^sup>* db db'"
  shows "db_good view iv es db'"
  using assms(3,2)
proof (induction rule: rtranclp_induct)
  case (step db1 db2)
  then show ?case
    using step_keeps_good [OF assms(1), of iv es db1 ops "[]" db2] by simp
qed

section \<open>The writer\<close>

lemma writer_writes:
  assumes "wal_contract wops view" "db_inv view iv es m w base bs cur db" "walChan db = Some queue" "walQuit db = Writing items"
  shows "\<exists>w'. writer_step wops db = Some (db\<lparr>db_wal := Some w', walQuit := Receiving\<rparr>)"
proof -
  note inv = db_invD [OF assms(2)]
  have "items_from es (base + length bs) = items @ flight (Some queue) Receiving (db_pc db)"
    using inv(5) by (simp add: flight_def assms(3,4))
  then obtain w' where "write_batch wops items w = Inr w'"
    by (rule write_batch_ok [OF assms(1) inv(3,4) history_length [OF inv(1)]])
  then have "writer_step wops db = Some (db\<lparr>db_wal := Some w', walQuit := Receiving\<rparr>)"
    using inv(2) assms(3,4) by (simp add: writer_step_def)
  then show ?thesis
    by (rule exI)
qed

lemma drain_receiving:
  assumes "wal_contract wops view" "db_good view iv es db" "walChan db = Some queue" "walQuit db = Receiving"
  shows "\<exists>w'. (quiet ops wops)\<^sup>*\<^sup>* db (db\<lparr>db_wal := Some w', walChan := Some [], walQuit := Receiving\<rparr>)"
proof -
  obtain m w base bs cur where i: "db_inv view iv es m w base bs cur db"
    using assms(2) unfolding db_good_def by blast
  note w = db_invD(2) [OF i]
  show ?thesis
  proof (cases "queue = []")
    case True
    then have "db\<lparr>db_wal := Some w, walChan := Some [], walQuit := Receiving\<rparr> = db"
      using w assms(3,4) by (cases db) simp
    then show ?thesis
      by (metis rtranclp.rtrancl_refl)
  next
    case False
    let ?db = "db\<lparr>walChan := Some [], walQuit := Writing queue\<rparr>"
    have step: "quiet ops wops db ?db"
      using False w assms(3,4) by (intro db_step.writer) (simp add: writer_step_def channelBatchRecv_def)
    then have "db_good view iv es ?db"
      using quiet_good [OF assms(1,2)] by blast
    then obtain m' w' base' bs' cur' where "db_inv view iv es m' w' base' bs' cur' ?db"
      unfolding db_good_def by blast
    from writer_writes [OF assms(1) this] obtain w1 where "writer_step wops ?db = Some (?db\<lparr>db_wal := Some w1, walQuit := Receiving\<rparr>)"
      by fastforce
    from step db_step.writer [OF this]
    have "(quiet ops wops)\<^sup>*\<^sup>* db (?db\<lparr>db_wal := Some w1, walQuit := Receiving\<rparr>)"
      by (meson converse_rtranclp_into_rtranclp rtranclp.rtrancl_refl)
    moreover have "?db\<lparr>db_wal := Some w1, walQuit := Receiving\<rparr> = db\<lparr>db_wal := Some w1, walChan := Some [], walQuit := Receiving\<rparr>"
      by simp
    ultimately show ?thesis
      by metis
  qed
qed

lemma drain:
  assumes "wal_contract wops view" "db_good view iv es db" "walChan db = Some queue"
  shows "\<exists>w'. (quiet ops wops)\<^sup>*\<^sup>* db (db\<lparr>db_wal := Some w', walChan := Some [], walQuit := Receiving\<rparr>)"
proof -
  obtain m w base bs cur where i: "db_inv view iv es m w base bs cur db"
    using assms(2) unfolding db_good_def by blast
  show ?thesis
  proof (cases "walQuit db")
    case Receiving
    then show ?thesis
      by (rule drain_receiving [OF assms])
  next
    case (Writing items)
    then obtain w1 where "writer_step wops db = Some (db\<lparr>db_wal := Some w1, walQuit := Receiving\<rparr>)"
      using writer_writes [OF assms(1) i assms(3)] by blast
    then have step: "quiet ops wops db (db\<lparr>db_wal := Some w1, walQuit := Receiving\<rparr>)"
      by (rule db_step.writer)
    then have "db_good view iv es (db\<lparr>db_wal := Some w1, walQuit := Receiving\<rparr>)"
      using quiet_good [OF assms(1,2)] by blast
    from drain_receiving [OF assms(1) this, of queue ops] obtain w'
      where "(quiet ops wops)\<^sup>*\<^sup>* (db\<lparr>db_wal := Some w1, walQuit := Receiving\<rparr>) (db\<lparr>db_wal := Some w', walChan := Some [], walQuit := Receiving\<rparr>)"
      using assms(3) by auto
    with step show ?thesis
      by (meson converse_rtranclp_into_rtranclp)
  qed (use db_invD(13) [OF i] in blast)
qed

section \<open>The pruner\<close>

lemma prune_ended:
  "(quiet ops wops)\<^sup>*\<^sup>* db db' \<Longrightarrow> db_prune db' = None \<Longrightarrow> db_pc db' = db_pc db \<Longrightarrow>
    \<exists>db'. (quiet ops wops)\<^sup>*\<^sup>* db db' \<and> db_prune db' = None \<and> db_pc db' = db_pc db"
  by blast

lemma prune_visits:
  assumes "db_wal db = Some w" "db_prune db = Some (Visiting dirs counter c)"
  shows "\<exists>db'. (quiet ops wops)\<^sup>*\<^sup>* db db' \<and> db_prune db' = None \<and> db_pc db' = db_pc db"
  using assms
proof (induction dirs arbitrary: db counter)
  case Nil
  let ?db = "db\<lparr>db_prune := Some Truncating\<rparr>"
  let ?db' = "?db\<lparr>db_wal := Some (truncate_log wops (mt_initialVersion (db_mt db)) (db_root db) w), db_prune := None\<rparr>"
  have "quiet ops wops db ?db" "quiet ops wops ?db ?db'"
    using Nil by (intro db_step.prune; simp add: prune_step_def)+
  then have "(quiet ops wops)\<^sup>*\<^sup>* db ?db'"
    by (meson converse_rtranclp_into_rtranclp rtranclp.rtrancl_refl)
  then show ?case
    by (rule prune_ended) simp_all
next
  case (Cons e dirs)
  show ?case
  proof (cases "visit e counter c (db_root db)")
    case None
    then have "quiet ops wops db (db\<lparr>db_prune := None\<rparr>)"
      using Cons.prems by (intro db_step.prune) (simp add: prune_step_def)
    then have "(quiet ops wops)\<^sup>*\<^sup>* db (db\<lparr>db_prune := None\<rparr>)"
      by blast
    then show ?thesis
      by (rule prune_ended) simp_all
  next
    case (Some x)
    obtain counter' root where x: "x = (counter', root)" by fastforce
    let ?db = "db\<lparr>db_root := root, db_prune := Some (Visiting dirs counter' c)\<rparr>"
    have step: "quiet ops wops db ?db"
      using Cons.prems Some x by (intro db_step.prune) (simp add: prune_step_def)
    obtain db' where "(quiet ops wops)\<^sup>*\<^sup>* ?db db'" "db_prune db' = None" "db_pc db' = db_pc db"
      using Cons.IH [of ?db counter'] Cons.prems(1) by auto
    with step show ?thesis
      by (meson converse_rtranclp_into_rtranclp)
  qed
qed

lemma prune_done:
  assumes "db_wal db = Some w"
  shows "\<exists>db'. (quiet ops wops)\<^sup>*\<^sup>* db db' \<and> db_prune db' = None \<and> db_pc db' = db_pc db"
proof (cases "db_prune db")
  case None
  then show ?thesis by blast
next
  case (Some p)
  show ?thesis
  proof (cases p)
    case Starting
    show ?thesis
    proof (cases "currentVersion (db_root db)")
      case (Inl err)
      then have "quiet ops wops db (db\<lparr>db_prune := None\<rparr>)"
        using Some Starting by (intro db_step.prune) (simp add: prune_step_def)
      then have "(quiet ops wops)\<^sup>*\<^sup>* db (db\<lparr>db_prune := None\<rparr>)"
        by blast
      then show ?thesis
        by (rule prune_ended) simp_all
    next
      case (Inr v)
      let ?db = "db\<lparr>db_prune := Some (Visiting (rev (ReadDir (db_root db))) (snapshotKeepRecent db) v)\<rparr>"
      have step: "quiet ops wops db ?db"
        using Some Starting Inr by (intro db_step.prune) (simp add: prune_step_def)
      obtain db' where "(quiet ops wops)\<^sup>*\<^sup>* ?db db'" "db_prune db' = None" "db_pc db' = db_pc db"
        using prune_visits [of ?db w "rev (ReadDir (db_root db))" "snapshotKeepRecent db" v] assms by auto
      with step show ?thesis
        by (meson converse_rtranclp_into_rtranclp)
    qed
  next
    case (Visiting dirs counter c)
    then show ?thesis
      using prune_visits [OF assms] Some by blast
  next
    case Truncating
    let ?db' = "db\<lparr>db_wal := Some (truncate_log wops (mt_initialVersion (db_mt db)) (db_root db) w), db_prune := None\<rparr>"
    have "quiet ops wops db ?db'"
      using Some Truncating assms by (intro db_step.prune) (simp add: prune_step_def)
    then have "(quiet ops wops)\<^sup>*\<^sup>* db ?db'"
      by blast
    then show ?thesis
      by (rule prune_ended) simp_all
  qed
qed

section \<open>The steps of the call\<close>

lemma end_progress:
  assumes "snapshotInterval db \<noteq> 0"
  shows "\<exists>db'. commit_end ops v None db = Inr db' \<and> db_pc db' = Idle"
  using assms by (simp add: commit_end_def rewriteIfApplicable_def rewriteSnapshotBackground_def)

lemma check_progress:
  assumes "db_inv view iv es m w base bs cur db" "db_pc db = Checking v"
  shows "\<exists>db'. commit_check ops db = Some (Inr db') \<and> (db_pc db' = Idle \<or> switching (db_pc db'))"
proof -
  note inv = db_invD [OF assms(1)]
  have async: "checkAsyncCommit db = None"
    using inv(13) by (auto simp: checkAsyncCommit_def split: option.splits writer.splits)
  note go = end_progress [OF inv(14), of ops v]
  have closed: "\<exists>db'. commit_end ops v None (db\<lparr>snapshotRewrite := None\<rparr>) = Inr db' \<and> db_pc db' = Idle"
    by (rule end_progress) (simp add: inv(14))
  show ?thesis
  proof (cases "snapshotRewrite db")
    case None
    then show ?thesis
      using go by (auto simp: commit_check_def assms(2) async)
  next
    case (Some r)
    show ?thesis
    proof (cases r)
      case (Result x)
      then show ?thesis
        using inv(9) [OF Some] Some by (cases x) (simp_all add: commit_check_def assms(2) async rewriter_ok_simps)
    next
      case Closed
      then show ?thesis
        using closed Some by (auto simp: commit_check_def assms(2) async)
    qed (use Some go in \<open>auto simp: commit_check_def assms(2) async\<close>)
  qed
qed

lemma committed_progress:
  assumes "wal_contract wops view" "db_inv view iv es m w base bs cur db" "db_pc db = Switching mt v err"
  shows "\<exists>k. CommittedVersion wops db = Inr k \<and> (base + length bs = length es \<longrightarrow> k = mt_Version (db_mt db))"
proof -
  note inv = db_invD [OF assms(2)]
  define n where "n = base + length bs"
  have es: "es \<noteq> []" "pendingLog db = WALEntry_zero"
    using inv(11) by (simp_all add: assms(3) pc_ok_def)
  then have equiv: "mt_equiv m (db_mt db)"
    using inv(8) by (simp add: assms(3) mem_log_def mem_ok_zero)
  then have version: "mt_Version (db_mt db) = of_nat (ver iv (length es))" "mt_initialVersion (db_mt db) = iv"
    using history_version [OF inv(1)] mt_equiv_Version [OF equiv] by (simp_all add: mt_equiv_def)
  have n: "n < 2 ^ 31" "w_LastIndex wops w = Inr (of_nat n)"
    using inv(4) history_length [OF inv(1)] wal_contractD(1) [OF assms(1) inv(3)] by (simp_all add: log_of_def n_def)
  note committed = committed_version [OF inv(2) n(2,1) version(2)]
  show ?thesis
  proof (cases "n = 0")
    case True
    then show ?thesis
      using inv(16) es(1) committed by (auto simp: fresh_def n_def split: option.splits)
  next
    case False
    then have "CommittedVersion wops db = Inr (of_nat (ver iv n))"
      using committed by simp
    then show ?thesis
      using version(1) n_def by auto
  qed
qed

lemma wait_progress:
  assumes "wal_contract wops view" "db_inv view iv es m w base bs cur db" "db_pc db = Switching mt v err"
  shows "\<exists>r. commit_wait ops wops db = r \<and> (\<forall>e. r \<noteq> Some (Inl e)) \<and>
    (base + length bs = length es \<longrightarrow> (\<exists>db' v. r = Some (Inr db') \<and> db_pc db' = Pruning v None))"
proof -
  note inv = db_invD [OF assms(2)]
  obtain k where k: "pendingLog db = WALEntry_zero" "err = None" "cur \<le> k" "at_commit iv es k mt"
    using inv(11) by (auto simp: assms(3) pc_ok_def)
  then obtain mk where mk: "history iv (take k es) mk" "mt_equiv mk mt" "k \<le> length es"
    by (auto simp: at_commit_def)
  have "base \<le> k"
    using dir_ok_current [OF inv(6,1)] k(3) by simp
  then obtain t' where t': "CatchupWAL ops (reader wops w) 0 mt = Inr t'"
    using catchup_log [OF assms(1) inv(3,4,1) mk(1,2) _ mk(3)] by blast
  obtain c where c: "CommittedVersion wops db = Inr c" "base + length bs = length es \<longrightarrow> c = mt_Version (db_mt db)"
    using committed_progress [OF assms] by blast
  show ?thesis
    using c(2) by (auto simp: commit_wait_def assms(3) c(1) inv(2) t' reloadMultiTree_def k(1,2) apply_zero)
qed

lemma lock_progress:
  assumes "db_inv view iv es m w base bs cur db" "db_pc db = Pruning v err"
  shows "\<exists>r. commit_prune ops db = r \<and> (\<forall>e. r \<noteq> Some (Inl e)) \<and>
    (db_prune db = None \<longrightarrow> (\<exists>db'. r = Some (Inr db') \<and> db_pc db' = Idle))"
proof -
  note inv = db_invD [OF assms(1)]
  have "err = None"
    using inv(11) by (simp add: assms(2) pc_ok_def)
  moreover have "\<exists>db'. commit_end ops v None (db\<lparr>db_prune := Some Starting\<rparr>) = Inr db' \<and> db_pc db' = Idle"
    by (rule end_progress) (simp add: inv(14))
  ultimately show ?thesis
    by (auto simp: commit_prune_def assms(2))
qed

section \<open>The call\<close>

lemma finish_pruning:
  assumes "wal_contract wops view" "db_good view iv es db" "db_pc db = Pruning v err"
  shows "\<exists>db'. (quiet ops wops)\<^sup>*\<^sup>* db db' \<and> db_pc db' = Idle"
proof -
  obtain w where "db_wal db = Some w"
    using assms(2) unfolding db_good_def db_inv_def by blast
  then obtain db1 where db1: "(quiet ops wops)\<^sup>*\<^sup>* db db1" "db_prune db1 = None" "db_pc db1 = Pruning v err"
    using prune_done [of db w ops wops] assms(3) by auto
  obtain m w base bs cur where "db_inv view iv es m w base bs cur db1"
    using quiet_good [OF assms(1,2) db1(1)] unfolding db_good_def by blast
  then obtain db2 where "commit_prune ops db1 = Some (Inr db2)" "db_pc db2 = Idle"
    using lock_progress [of view iv es m w base bs cur db1 v err ops] db1(2,3) by auto
  then show ?thesis
    using db1(1) db_step.lock by (metis (no_types, lifting) rtranclp.rtrancl_into_rtrancl)
qed

lemma finish_switching:
  assumes "wal_contract wops view" "db_good view iv es db" "db_pc db = Switching mt v err"
  shows "\<exists>db'. (quiet ops wops)\<^sup>*\<^sup>* db db' \<and> db_pc db' = Idle"
proof -
  obtain db1 where db1: "(quiet ops wops)\<^sup>*\<^sup>* db db1" "in_flight db1 = []" "db_pc db1 = Switching mt v err"
  proof (cases "walChan db")
    case None
    then show ?thesis
      using that [of db] assms(3) by (simp add: flight_def)
  next
    case (Some queue)
    obtain w' where "(quiet ops wops)\<^sup>*\<^sup>* db (db\<lparr>db_wal := Some w', walChan := Some [], walQuit := Receiving\<rparr>)"
      using drain [OF assms(1,2) Some] by blast
    then show ?thesis
      by (rule that) (simp_all add: flight_def assms(3))
  qed
  have good: "db_good view iv es db1"
    by (rule quiet_good [OF assms(1,2) db1(1)])
  then obtain m w base bs cur where i: "db_inv view iv es m w base bs cur db1"
    unfolding db_good_def by blast
  obtain db2 v' where db2: "commit_wait ops wops db1 = Some (Inr db2)" "db_pc db2 = Pruning v' None"
    using wait_progress [OF assms(1) i db1(3), of ops] flight_logged [OF i db1(2)] by auto
  have step: "quiet ops wops db1 db2"
    by (rule db_step.wait [OF db2(1)])
  then have "db_good view iv es db2"
    using quiet_good [OF assms(1) good] by blast
  then obtain db3 where "(quiet ops wops)\<^sup>*\<^sup>* db2 db3" "db_pc db3 = Idle"
    using finish_pruning [OF assms(1)] db2(2) by blast
  then show ?thesis
    using db1(1) step by (meson converse_rtranclp_into_rtranclp rtranclp_trans)
qed

lemma finish_checking:
  assumes "wal_contract wops view" "db_good view iv es db" "db_pc db = Checking v"
  shows "\<exists>db'. (quiet ops wops)\<^sup>*\<^sup>* db db' \<and> db_pc db' = Idle"
proof -
  obtain m w base bs cur where i: "db_inv view iv es m w base bs cur db"
    using assms(2) unfolding db_good_def by blast
  obtain db1 where db1: "commit_check ops db = Some (Inr db1)" "db_pc db1 = Idle \<or> switching (db_pc db1)"
    using check_progress [OF i assms(3)] by blast
  have step: "quiet ops wops db db1"
    by (rule db_step.check [OF db1(1)])
  then have good: "db_good view iv es db1"
    using quiet_good [OF assms(1,2)] by blast
  have "\<exists>db'. (quiet ops wops)\<^sup>*\<^sup>* db1 db' \<and> db_pc db' = Idle"
  proof (cases "db_pc db1")
    case (Switching mt v err)
    then show ?thesis
      by (rule finish_switching [OF assms(1) good])
  qed (use db1(2) in auto)
  then show ?thesis
    using step by (meson converse_rtranclp_into_rtranclp)
qed

lemma finish_sending:
  assumes "wal_contract wops view" "db_good view iv es db" "db_pc db = Sending e v"
  shows "\<exists>db'. (quiet ops wops)\<^sup>*\<^sup>* db db' \<and> db_pc db' = Idle"
proof -
  obtain m w base bs cur where i: "db_inv view iv es m w base bs cur db"
    using assms(2) unfolding db_good_def by blast
  then obtain queue where queue: "walChan db = Some queue"
    using db_invD(18) [OF i] assms(3) by auto
  then have size: "\<not> walChanSize db < 0"
    using db_invD(15) [OF i] by auto
  obtain w' where w': "(quiet ops wops)\<^sup>*\<^sup>* db (db\<lparr>db_wal := Some w', walChan := Some [], walQuit := Receiving\<rparr>)"
    using drain [OF assms(1,2) queue] by blast
  let ?db = "db\<lparr>db_wal := Some w', walChan := Some [], walQuit := Receiving\<rparr>"
  let ?db' = "?db\<lparr>walChan := Some [e], pendingLog := WALEntry_zero, db_pc := Checking v\<rparr>"
  have "commit_send ?db = Some ?db'"
    using size by (simp add: commit_send_def assms(3) chan_ready_def)
  then have "quiet ops wops ?db ?db'"
    by (rule db_step.send)
  then have run: "(quiet ops wops)\<^sup>*\<^sup>* db ?db'"
    using w' by (meson rtranclp.rtrancl_into_rtrancl)
  then have "db_good view iv es ?db'"
    by (rule quiet_good [OF assms(1,2)])
  then show ?thesis
    using finish_checking [OF assms(1), of iv es ?db' v ops] run by (simp; meson rtranclp_trans)
qed

lemma finish:
  assumes "wal_contract wops view" "db_good view iv es db"
  shows "\<exists>db'. (quiet ops wops)\<^sup>*\<^sup>* db db' \<and> db_pc db' = Idle"
proof (cases "db_pc db")
  case Idle
  then show ?thesis by blast
qed (use finish_sending [OF assms] finish_checking [OF assms] finish_switching [OF assms] finish_pruning [OF assms] in blast)+

text \<open>
  C3: \<open>Commit\<close> returns. In every state of a life in which the call has begun, there are steps of the call and
  the goroutines that bring it to its end, whatever they are doing; and none of the checks it makes on
  the way reports an error.
\<close>

theorem commit_returns:
  assumes "wal_contract wops view" "view w0 = (0, [])" "db_life ops wops w0 iv es db"
  shows "(\<exists>db'. (quiet ops wops)\<^sup>*\<^sup>* db db' \<and> db_pc db' = Idle) \<and>
    (\<forall>err. commit_check ops db \<noteq> Some (Inl err) \<and> commit_wait ops wops db \<noteq> Some (Inl err) \<and> commit_prune ops db \<noteq> Some (Inl err))"
proof -
  have good: "db_good view iv es db"
    by (rule life_good [OF assms])
  then obtain m w base bs cur where i: "db_inv view iv es m w base bs cur db"
    unfolding db_good_def by blast
  have "commit_check ops db \<noteq> Some (Inl err)" for err
    using check_progress [OF i, of _ ops] by (cases "db_pc db") (fastforce simp: commit_check_def)+
  moreover have "commit_wait ops wops db \<noteq> Some (Inl err)" for err
    using wait_progress [OF assms(1) i, of _ _ _ ops] by (cases "db_pc db") (fastforce simp: commit_wait_def)+
  moreover have "commit_prune ops db \<noteq> Some (Inl err)" for err
    using lock_progress [OF i, of _ _ ops] by (cases "db_pc db") (fastforce simp: commit_prune_def)+
  ultimately show ?thesis
    using finish [OF assms(1) good] by blast
qed

theorem commit_returns_witness:
  "\<exists>(db :: (unit, nat \<times> bytes list) db) db'. db_life no_cache list_wal (0, []) 0 [example_entry] db \<and>
    (quiet no_cache list_wal)\<^sup>*\<^sup>* db db' \<and> db_pc db' = Idle"
proof -
  obtain db :: "(unit, nat \<times> bytes list) db" where life: "db_life no_cache list_wal (0, []) 0 [example_entry] db"
    by (rule example_life)
  show ?thesis
    using commit_returns [where view = "\<lambda>w. w", OF list_wal_contract refl life] life by blast
qed

section \<open>A failed write\<close>

definition blocked :: "go_err \<Rightarrow> ('c, 'w) db \<Rightarrow> bool" where
  "blocked err db \<longleftrightarrow> sending (db_pc db) \<and> walChanSize db = 0 \<and> walChan db \<noteq> None \<and> walQuit db = Quit err"

lemma blocked_step:
  assumes "db_step ops wops db es db'" "blocked err db"
  shows "blocked err db'"
  using assms(1)
proof cases
  case send
  then show ?thesis
    using assms(2) by (auto simp: blocked_def commit_send_def chan_ready_def split: pc.splits option.splits)
next
  case check
  then show ?thesis
    using assms(2) by (auto simp: blocked_def commit_check_def split: pc.splits)
next
  case wait
  then show ?thesis
    using assms(2) by (auto simp: blocked_def commit_wait_def split: pc.splits)
next
  case lock
  then show ?thesis
    using assms(2) by (auto simp: blocked_def commit_prune_def split: pc.splits)
next
  case writer
  then show ?thesis
    using assms(2) by (auto simp: blocked_def writer_step_def split: option.splits)
next
  case rewrite
  then show ?thesis
    using assms(2) by (auto simp: blocked_def rewrite_step_def advance_def split: option.splits rewriter.splits)
next
  case (cancel mt ctx e root)
  then show ?thesis
    using assms(2) by (simp add: blocked_def advance_def)
next
  case prune
  then show ?thesis
    using assms(2) by (auto simp: blocked_def prune_step_def split: option.splits pruner.splits list.splits sum.splits)
qed (use assms(2) in \<open>auto simp: blocked_def\<close>)

text \<open>
  C31: a failed write to the log blocks the database. With the default channel without a buffer, a
  \<open>Commit\<close> that starts after the goroutine has failed waits forever to send its entry, in every continuation,
  although the error is there to be received.
\<close>

theorem failed_write_blocks_commit:
  assumes "walChanSize db = 0" "walChan db \<noteq> None" "walQuit db = Quit err" "db_wal db \<noteq> None"
    and "commit_begin wops db = Inr db1" "(\<lambda>a b. \<exists>es. db_step ops wops a es b)\<^sup>*\<^sup>* db1 db2"
  shows "sending (db_pc db2) \<and> checkAsyncCommit db2 = Some err"
proof -
  have "blocked err db1"
    using assms(1-5) by (auto simp: commit_begin_def bind_res_Inr Let_def blocked_def split: if_splits option.splits)
  with assms(6) have "blocked err db2"
    by (induction rule: rtranclp_induct) (auto dest: blocked_step)
  then show ?thesis
    by (auto simp: blocked_def checkAsyncCommit_def)
qed

theorem failed_write_blocks_commit_witness:
  "\<exists>(db :: (unit, nat \<times> bytes list) db) db1. commit_begin list_wal db = Inr db1 \<and> walChanSize db = 0 \<and>
    walQuit db = Quit (Error ''no space left on device'') \<and> sending (db_pc db1)"
proof -
  obtain db :: "(unit, nat \<times> bytes list) db" where equiv: "mt_equiv (example_mt 0) (db_mt db)"
    and db: "pendingLog db = example_entry" "db_wal db = Some (0, [])" "\<not> db_readOnly db"
    by (rule example_created)
  obtain mt where mt: "mt_SaveVersion True (db_mt db) = Inr (1, mt)"
    using rel_res_Inr [OF mt_SaveVersion_equiv [OF equiv] example_commit(2)] by (auto simp: rel_prod_sel)
  let ?db = "db\<lparr>walChanSize := 0, walChan := Some [], walQuit := Quit (Error ''no space left on device'')\<rparr>"
  obtain db1 where db1: "commit_begin list_wal ?db = Inr db1"
    by (simp add: commit_begin_def db mt Let_def)
  then have "sending (db_pc db1)"
    using failed_write_blocks_commit [of ?db "Error ''no space left on device''" list_wal db1 no_cache db1] db(2) by simp
  with db1 show ?thesis
    by (intro exI [of _ ?db] exI [of _ db1]) simp
qed

section \<open>A left-over link\<close>

definition links_of :: "root_dir \<Rightarrow> string option \<times> string option" where
  "links_of root = (map_of (root_links root) currentPath, map_of (root_links root) currentTmpPath)"

lemma RemoveAll_links: "links_of (os_RemoveAll (snapshotName v @ TmpSuffix) root) = links_of root"
  by (simp add: links_of_def os_RemoveAll_links snapshotName_def SnapshotPrefix_def currentPath_def currentTmpPath_def)

lemma write_tmp_links: "links_of (snd (write_tmp ctx mt root)) = links_of root"
  by (auto simp: write_tmp_def Let_def RemoveAll_links split: sum.split) (simp add: links_of_def write_dir_def)

lemma rename_tmp_links: "links_of (snd (rename_tmp mt root)) = links_of root"
  by (auto simp: rename_tmp_def keep_root_def os_Rename_dir_def links_of_def split: sum.splits option.splits if_splits)

lemma link_tmp_stale: "map_of (root_links root) currentTmpPath = Some target \<Longrightarrow> link_tmp mt root = (Inl (Error ''symlink: file exists''), root)"
  by (simp add: link_tmp_def keep_root_def os_Symlink_def)

lemma atomicRemoveDir_links: "atomicRemoveDir (snapshotName v) root = Inr root' \<Longrightarrow> links_of root' = links_of root"
  by (auto simp: atomicRemoveDir_def bind_res_Inr os_Rename_dir_def RemoveAll_links split: option.splits if_splits)
    (simp_all add: links_of_def)

lemma visit_links: "visit e counter c root = Some (counter', root') \<Longrightarrow> links_of root' = links_of root"
  by (auto simp: visit_def atomicRemoveDir_links split: if_splits sum.splits)

lemma then_root_eq: "then_root x f = (case fst x of Inl err \<Rightarrow> x | Inr _ \<Rightarrow> f (snd x))"
  by (cases x; cases "fst x") (simp_all add: then_root_def case_unit_Unity)

lemma then_root_links:
  assumes "\<And>root. links_of (snd (f root)) = links_of root"
  shows "links_of (snd (then_root x f)) = links_of (snd x)"
  by (cases "fst x") (simp_all add: then_root_eq assms)

definition stale :: "string option \<Rightarrow> string \<Rightarrow> ('c, 'w) db \<Rightarrow> bool" where
  "stale cur target db \<longleftrightarrow> links_of (db_root db) = (cur, Some target) \<and> (\<forall>mt. snapshotRewrite db \<noteq> Some (Linked mt))"

lemma stale_end: "commit_end ops v err db = Inr db' \<Longrightarrow> stale cur target db \<Longrightarrow> stale cur target db'"
  by (auto simp: commit_end_def rewriteIfApplicable_def rewriteSnapshotBackground_def stale_def split: option.splits if_splits)

lemma stale_rewrite:
  assumes "rewrite_step ops wops ctx db = Some db'" "stale cur target db"
  shows "stale cur target db'"
proof -
  have link: "map_of (root_links (db_root db)) currentTmpPath = Some target" and links: "links_of (db_root db) = (cur, Some target)"
    using assms(2) by (simp_all add: stale_def links_of_def)
  obtain r where r: "snapshotRewrite db = Some r"
    using assms(1) by (cases "snapshotRewrite db") (simp_all add: rewrite_step_def)
  show ?thesis
  proof (cases r)
    case (Cloned mt)
    then show ?thesis
      using assms(1) r links by (auto simp: rewrite_step_def stale_def advance_def write_tmp_links split: sum.splits)
  next
    case (Written mt)
    then show ?thesis
      using assms(1) r links by (auto simp: rewrite_step_def stale_def advance_def rename_tmp_links split: sum.splits)
  next
    case (Renamed mt)
    then show ?thesis
      using assms(1) r links by (auto simp: rewrite_step_def stale_def advance_def link_tmp_stale [OF link])
  next
    case (Linked mt)
    then show ?thesis
      using assms(2) r by (simp add: stale_def)
  qed (use assms(1) r links in \<open>auto simp: rewrite_step_def stale_def split: sum.splits option.splits\<close>)
qed

lemma stale_prune:
  assumes "prune_step wops db = Some db'" "stale cur target db"
  shows "stale cur target db'"
  using assms visit_links by (fastforce simp: prune_step_def stale_def split: option.splits pruner.splits list.splits sum.splits)

lemma stale_changes: "applyChangeSets_loop ops css db = Inr db' \<Longrightarrow> stale cur target db \<Longrightarrow> stale cur target db'"
  by (induction css arbitrary: db) (fastforce simp: bind_res_Inr applyChangeSet_def Let_def stale_def split: if_splits)+

lemma commit_begin_frame:
  assumes "commit_begin wops db = Inr db'"
  shows "db_root db' = db_root db \<and> snapshotRewrite db' = snapshotRewrite db"
proof -
  obtain v mt where "\<not> db_readOnly db" "mt_SaveVersion True (db_mt db) = Inr (v, mt)"
    using assms by (cases "mt_SaveVersion True (db_mt db)") (auto simp: commit_begin_def split: if_splits)
  then show ?thesis
    using assms by (cases "db_wal db"; cases "0 \<le> walChanSize db") (auto simp: commit_begin_def Let_def bind_res_Inr)
qed

lemma stale_step:
  assumes "db_step ops wops db es db'" "stale cur target db"
  shows "stale cur target db'"
  using assms(1)
proof cases
  case (upgrades us)
  then show ?thesis
    using assms(2) by (auto simp: db_ApplyUpgrades_def bind_res_Inr stale_def split: if_splits)
next
  case (changes css)
  show ?thesis
  proof (cases "css = [] \<or> db_readOnly db \<or> Changesets (pendingLog db) = []")
    case True
    then show ?thesis
      using changes(5) assms(2) by (auto simp: db_ApplyChangeSets_def bind_res_Inr Let_def stale_def split: if_splits)
  next
    case False
    then show ?thesis
      using changes(5) assms(2) stale_changes by (simp add: db_ApplyChangeSets_def)
  qed
next
  case (change cs name)
  then show ?thesis
    using assms(2) by (auto simp: db_ApplyChangeSet_def applyChangeSet_def bind_res_Inr Let_def stale_def split: if_splits)
next
  case commit
  then show ?thesis
    using assms(2) commit_begin_frame [OF commit(3)] by (simp add: stale_def)
next
  case send
  then show ?thesis
    using assms(2) by (auto simp: commit_send_def stale_def split: pc.splits option.splits if_splits)
next
  case check
  then obtain v where v: "db_pc db = Checking v"
    by (cases "db_pc db") (simp_all add: commit_check_def)
  have forget: "stale cur target (db\<lparr>snapshotRewrite := None\<rparr>)"
    using assms(2) by (simp add: stale_def)
  then have switch: "stale cur target (db\<lparr>snapshotRewrite := None, db_pc := p\<rparr>)" for p
    by (simp add: stale_def)
  note check' = check(2) [unfolded commit_check_def v pc.case Let_def option.inject]
  note go = stale_end [OF _ assms(2)] and closed = stale_end [OF _ forget]
  show ?thesis
  proof (cases "snapshotRewrite db")
    case None
    then show ?thesis
      using check' go by simp
  next
    case (Some r)
    show ?thesis
    proof (cases r)
      case (Result x)
      then show ?thesis
        using check' switch Some by (cases x) auto
    next
      case Closed
      then show ?thesis
        using check' closed Some by simp
    qed (use check' go Some in simp_all)
  qed
next
  case wait
  then show ?thesis
    using assms(2) by (auto simp: commit_wait_def reloadMultiTree_def bind_res_Inr stale_def split: pc.splits sum.splits option.splits if_splits)
next
  case lock
  then obtain v err where v: "commit_end ops v err (db\<lparr>db_prune := Some Starting\<rparr>) = Inr db'"
    by (cases "db_pc db") (simp_all add: commit_prune_def split: if_splits)
  show ?thesis
    by (rule stale_end [OF v]) (use assms(2) in \<open>simp add: stale_def\<close>)
next
  case background
  then show ?thesis
    using assms(2) by (auto simp: RewriteSnapshotBackground_def rewriteSnapshotBackground_def stale_def split: if_splits)
next
  case writer
  then show ?thesis
    using assms(2) by (auto simp: writer_step_def stale_def channelBatchRecv_def split: option.splits writer.splits sum.splits if_splits)
next
  case rewrite
  then show ?thesis
    using assms(2) stale_rewrite by blast
next
  case (cancel mt ctx err root)
  then show ?thesis
    using assms(2) write_tmp_links [of ctx mt "db_root db"] by (simp add: stale_def advance_def)
next
  case prune
  then show ?thesis
    using assms(2) stale_prune by blast
qed

lemma Load_links:
  assumes "links_of root = (cur, Some target)" "map_of (root_dirs root) currentTmpPath = None" "map_of (root_dirs root) currentPath = None"
    "TargetVersion opts = 0" "Load ops wops locked log opts root = Inr db"
  shows "stale cur target db"
proof -
  have tmp: "map_of (root_links root) currentTmpPath = Some target"
    using assms(1) by (simp add: links_of_def)
  have create: "createDBIfNotExist iv root = Inr root1 \<Longrightarrow> root1 = root" for iv root1
    using tmp by (auto simp: createDBIfNotExist_def initEmptyDB_def bind_res_Inr updateCurrentSymlink_def os_Symlink_def write_dir_def split: if_splits)
  have "links_of (removeTmpDirs root) = links_of root"
    using assms(2,3) set_ReadDir(1) [of _ root] unfolding links_of_def removeTmpDirs_def remove_fold(2) by simp
  then have links: "links_of (if ReadOnly opts then root else removeTmpDirs root) = (cur, Some target)"
    using assms(1) by simp
  have "createDBIfNotExist (InitialVersion opts) root = Inr root" if "CreateIfMissing opts"
    using assms(5) create that by (cases "createDBIfNotExist (InitialVersion opts) root") (auto simp: Load_def bind_res_Inr Let_def)
  then have "db_root db = (if ReadOnly opts then root else removeTmpDirs root) \<and> snapshotRewrite db = None"
    using assms(4,5)
    by (auto simp: Load_def bind_res_Inr Let_def new_db_def db_ApplyUpgrades_def split: if_splits)
  with links show ?thesis
    by (simp add: stale_def)
qed

text \<open>
  C32: a temporary link that a crash leaves behind, between making it and renaming it, is never
  removed. A database that is loaded from such a directory keeps its old \<open>current\<close> snapshot in every
  continuation: each rewriting of the snapshot fails at the link.
\<close>

theorem stale_link_blocks_rewriting:
  assumes "map_of (root_links root) currentTmpPath = Some target" "map_of (root_dirs root) currentTmpPath = None" "map_of (root_dirs root) currentPath = None"
    and "TargetVersion opts = 0" "Load ops wops locked log opts root = Inr db" "(\<lambda>a b. \<exists>es. db_step ops wops a es b)\<^sup>*\<^sup>* db db'"
  shows "map_of (root_links (db_root db')) currentTmpPath = Some target \<and>
    map_of (root_links (db_root db')) currentPath = map_of (root_links root) currentPath \<and>
    (\<exists>err. fst (RewriteSnapshotWithContext ctx_done db') = Inl err)"
proof -
  have "links_of root = (map_of (root_links root) currentPath, Some target)"
    using assms(1) by (simp add: links_of_def)
  then have "stale (map_of (root_links root) currentPath) target db"
    by (rule Load_links [OF _ assms(2-5)])
  with assms(6) have stale: "stale (map_of (root_links root) currentPath) target db'"
    by (induction rule: rtranclp_induct) (auto dest: stale_step)
  let ?x = "then_root (write_tmp ctx_done (db_mt db') (db_root db')) (rename_tmp (db_mt db'))"
  have "links_of (snd ?x) = links_of (db_root db')"
    by (simp add: then_root_links rename_tmp_links write_tmp_links)
  then have link: "map_of (root_links (snd ?x)) currentTmpPath = Some target"
    using stale by (simp add: stale_def links_of_def)
  have "\<exists>err. fst (then_root (then_root ?x (link_tmp (db_mt db'))) rename_link) = Inl err"
    by (cases "fst ?x") (simp_all only: then_root_eq [of ?x] then_root_eq [of _ rename_link] link_tmp_stale [OF link] sum.case fst_conv, blast+)
  then have "\<exists>err. fst (RewriteSnapshotWithContext ctx_done db') = Inl err"
    by (auto simp: RewriteSnapshotWithContext_def Let_def split_beta)
  with stale show ?thesis
    by (simp add: stale_def links_of_def)
qed

theorem stale_link_blocks_rewriting_witness:
  "\<exists>root (db :: (unit, nat \<times> bytes list) db). map_of (root_links root) currentTmpPath = Some (snapshotName 1) \<and>
    Load no_cache list_wal False (Inr (Some (0, []))) (example_opts\<lparr>InitialStores := []\<rparr>) root = Inr db \<and>
    map_of (root_links (db_root db)) currentTmpPath = Some (snapshotName 1) \<and>
    (\<exists>err. fst (RewriteSnapshotWithContext (\<lambda>_. False) db) = Inl err)"
proof -
  obtain root where dir: "dir_ok 0 [] 0 0 root" and none: "map_of (root_links root) currentTmpPath = None"
    by (rule create_dir [of 0])
  let ?root = "root\<lparr>root_links := (currentTmpPath, snapshotName 1) # root_links root\<rparr>" and ?opts = "example_opts\<lparr>InitialStores := []\<rparr>"
  have "currentTmpPath \<noteq> currentPath"
    by (simp add: currentTmpPath_def currentPath_def)
  moreover have "currentTmpPath \<notin> fst ` set (root_links root)"
    using none by (simp add: map_of_eq_None_iff)
  ultimately have dir': "dir_ok 0 [] 0 0 ?root"
    using dir_okD [OF dir] by (intro dir_ok_change [OF dir]) (auto split: if_splits)
  have opts: "TargetVersion ?opts = 0" "Validate ?opts = Inr ()" "log_of [] (0, [])"
    by (simp_all add: example_opts_def Validate_def log_of_def)
  obtain db :: "(unit, nat \<times> bytes list) db" where load: "Load no_cache list_wal False (Inr (Some (0, []))) ?opts ?root = Inr db"
    using Load_latest [OF list_wal_contract refl opts(3) history.start dir' opts(1,2), of no_cache] by (auto simp: loaded_db_def)
  have tmp: "map_of (root_links ?root) currentTmpPath = Some (snapshotName 1)"
    by simp
  show ?thesis
    using stale_link_blocks_rewriting [OF tmp dir_ok_no_dir(2,1) [OF dir'] opts(1) load rtranclp.rtrancl_refl] load tmp by blast
qed

end
