(* ===== verification/Wal_File.thy ===== *)
theory Wal_File
  imports Protobuf
begin

text \<open>
  \<open>src/memiavl/wal.go\<close>: the recovery of a log whose last segment ends in a corrupted entry. A segment
  file is its bytes; \<open>gjson\<close> is an argument that tells whether a line has a string under \<open>data\<close>, and
  \<open>wal.Open\<close> of \<open>tidwall/wal\<close> is an argument that opens the segments of a directory.
\<close>

section \<open>Entries of a segment\<close>

abbreviation (input) "ErrCorrupt \<equiv> Error ''log corrupt''"

datatype log_format = Binary | JSON

definition loadNextBinaryEntry :: "bytes \<Rightarrow> nat res" where
  "loadNextBinaryEntry data =
     (let (size', n) = uvarint data in
      if n \<le> 0 then Inl ErrCorrupt
      else if of_nat (length data - nat n) < size' then Inl ErrCorrupt
      else Inr (nat n + unat size'))"

text \<open>\<open>bytes.IndexByte\<close>.\<close>

fun index_byte :: "u8 \<Rightarrow> bytes \<Rightarrow> nat option" where
  "index_byte b [] = None"
| "index_byte b (x # xs) = (if x = b then Some 0 else map_option Suc (index_byte b xs))"

definition loadNextJSONEntry :: "(bytes \<Rightarrow> bool) \<Rightarrow> bytes \<Rightarrow> nat res" where
  "loadNextJSONEntry data_is_string data =
     (case index_byte 10 data of
        None \<Rightarrow> Inl ErrCorrupt
      | Some idx \<Rightarrow> if \<not> data_is_string (take idx data) then Inl ErrCorrupt else Inr (idx + 1))"

definition loadNextEntry :: "(bytes \<Rightarrow> bool) \<Rightarrow> log_format \<Rightarrow> bytes \<Rightarrow> nat res" where
  "loadNextEntry data_is_string format data =
     (if format = JSON then loadNextJSONEntry data_is_string data else loadNextBinaryEntry data)"

lemma uvarint_loop_progress: "uvarint_loop i x s buf = (y, n) \<Longrightarrow> n \<le> int i + int (length buf)"
  by (induction i x s buf rule: uvarint_loop.induct) (fastforce split: if_splits)+

lemma loadNextEntry_bounds:
  assumes "loadNextEntry g format data = Inr n"
  shows "0 < n" "length data < 2 ^ 64 \<Longrightarrow> n \<le> length data"
proof -
  have json: "index_byte b xs = Some i \<Longrightarrow> i < length xs" for b xs i
    by (induction xs arbitrary: i) (auto split: if_splits)
  show "0 < n"
    using assms by (auto simp: loadNextEntry_def loadNextJSONEntry_def loadNextBinaryEntry_def Let_def
        split: if_splits option.splits prod.splits)
  assume len: "length data < 2 ^ 64"
  show "n \<le> length data"
  proof (cases "format = JSON")
    case True
    then show ?thesis
      using assms json [of 10 data] by (auto simp: loadNextEntry_def loadNextJSONEntry_def split: if_splits option.splits)
  next
    case False
    obtain size' k where uv: "uvarint data = (size', k)" by fastforce
    then have "k \<le> int (length data)"
      using uvarint_loop_progress [of 0 0 0 data size' k] by (simp add: uvarint_def)
    moreover have "unat size' \<le> length data - nat k"
    proof -
      have "size' \<le> of_nat (length data - nat k)"
        using False assms uv by (auto simp: loadNextEntry_def loadNextBinaryEntry_def not_less split: if_splits)
      then show ?thesis
        using len by (simp add: word_le_nat_alt unat_of_nat_less)
    qed
    ultimately show ?thesis
      using False assms uv by (auto simp: loadNextEntry_def loadNextBinaryEntry_def split: if_splits)
  qed
qed

section \<open>Truncating the corrupted tail\<close>

text \<open>
  The loop skips the entries that can be read; it ends with the rest of the data and the position
  reached. A position beyond the data would panic in the slice expression.
\<close>

function truncate_loop :: "(bytes \<Rightarrow> bool) \<Rightarrow> log_format \<Rightarrow> bytes \<Rightarrow> nat \<Rightarrow> (bytes \<times> nat) res" where
  "truncate_loop g format data pos =
     (if data = [] then Inr (data, pos)
      else
        (case loadNextEntry g format data of
           Inl err \<Rightarrow> if err = ErrCorrupt then Inr (data, pos) else Inl err
         | Inr n \<Rightarrow>
             if length data < n then Inl (Panic ''slice bounds out of range'')
             else truncate_loop g format (drop n data) (pos + n)))"
  by auto
termination
  by (relation "measure (\<lambda>(g, format, data, pos). length data)") (auto dest: loadNextEntry_bounds(1))

declare truncate_loop.simps [simp del]

text \<open>The file after \<open>truncateCorruptedTail\<close>.\<close>

definition truncateCorruptedTail :: "(bytes \<Rightarrow> bool) \<Rightarrow> log_format \<Rightarrow> bytes \<Rightarrow> bytes res" where
  "truncateCorruptedTail g format file =
     bind_res (truncate_loop g format file 0) (\<lambda>(data, pos).
       if pos \<noteq> length data then Inr (take pos file) else Inr file)"

text \<open>
  \<open>OpenWAL\<close>: the directory is its entries in the order of \<open>os.ReadDir\<close>, with \<open>None\<close> for a directory;
  \<open>wal_Open\<close> is the library's \<open>Open\<close> on it.
\<close>

type_synonym 'w wal_open = "(string \<times> bytes option) list \<Rightarrow> 'w res"

text \<open>
  The result \<open>Inr None\<close> is a nil log with a nil error: the error of the first \<open>wal.Open\<close> is overwritten
  by that of \<open>os.ReadDir\<close> before it is returned.
\<close>

definition last_segment :: "(string \<times> bytes option) list \<Rightarrow> string" where
  "last_segment fis = fold (\<lambda>(name, file) lastSeg. if file = None \<or> length name < 20 then lastSeg else name) fis []"

definition OpenWAL ::
    "(bytes \<Rightarrow> bool) \<Rightarrow> log_format \<Rightarrow> 'w wal_open \<Rightarrow> (string \<times> bytes option) list \<Rightarrow> 'w option res" where
  "OpenWAL g format wal_Open dir =
     (case wal_Open dir of
        Inl err \<Rightarrow>
          if err = ErrCorrupt then
            (let lastSeg = last_segment dir in
             if length lastSeg = 0 then Inr None
             else case map_of dir lastSeg of
               Some (Some file) \<Rightarrow>
                 bind_res (truncateCorruptedTail g format file) (\<lambda>file.
                   map_res Some (wal_Open (map (\<lambda>(name, f). if name = lastSeg then (name, Some file) else (name, f)) dir)))
             | _ \<Rightarrow> Inl (Error ''open: no such file or directory''))
          else Inl err
      | Inr log \<Rightarrow> Inr (Some log))"

section \<open>What the truncation keeps\<close>

definition enc_log :: "bytes list \<Rightarrow> bytes" where
  "enc_log entries = concat (map (\<lambda>bz. putUvarint (of_nat (length bz)) @ bz) entries)"

lemma loadNextBinaryEntry_put:
  assumes "length (bz @ rest) < 2 ^ 63"
  shows "loadNextBinaryEntry (putUvarint (of_nat (length bz)) @ bz @ rest) =
    Inr (length (putUvarint (of_nat (length bz))) + length bz)"
proof -
  let ?pv = "putUvarint (of_nat (length bz))"
  have "0 < length ?pv"
    by (subst putUvarint.simps) simp
  then have pos: "\<not> int (length ?pv) \<le> 0" by simp
  have len: "length bz < 2 ^ LENGTH(64)" "length (bz @ rest) < 2 ^ LENGTH(64)"
    using assms by simp_all
  have "unat (of_nat (length (bz @ rest)) :: u64) = length (bz @ rest)" "unat (of_nat (length bz) :: u64) = length bz"
    by (rule unat_of_nat_less [OF len(2)], rule unat_of_nat_less [OF len(1)])
  then have "\<not> (of_nat (length (bz @ rest)) :: u64) < of_nat (length bz)"
    and "unat (of_nat (length bz) :: u64) = length bz"
    unfolding word_less_nat_alt by simp_all
  moreover have "length (?pv @ bz @ rest) - nat (int (length ?pv)) = length (bz @ rest)"
    by simp
  ultimately show ?thesis
    using pos by (simp only: loadNextBinaryEntry_def uvarint_put Let_def prod.case if_False nat_int)
qed

lemma truncate_loop_log:
  assumes "length (enc_log entries @ tail) < 2 ^ 63"
  shows "truncate_loop g Binary (enc_log entries @ tail) pos =
    truncate_loop g Binary tail (pos + length (enc_log entries))"
  using assms
proof (induction entries arbitrary: pos)
  case Nil
  then show ?case by (simp add: enc_log_def)
next
  case (Cons bz entries)
  let ?pv = "putUvarint (of_nat (length bz))" and ?rest = "enc_log entries @ tail"
  have ne: "?pv \<noteq> []"
    by (subst putUvarint.simps) simp
  have split: "enc_log (bz # entries) @ tail = ?pv @ bz @ ?rest"
    by (simp add: enc_log_def)
  have "length (bz @ ?rest) < 2 ^ 63"
    using Cons.prems unfolding split by simp
  from loadNextBinaryEntry_put [OF this]
  have "truncate_loop g Binary (?pv @ bz @ ?rest) pos = truncate_loop g Binary ?rest (pos + (length ?pv + length bz))"
    using ne by (subst truncate_loop.simps) (simp add: loadNextEntry_def)
  also have "\<dots> = truncate_loop g Binary tail (pos + (length ?pv + length bz) + length (enc_log entries))"
    by (rule Cons.IH) (use Cons.prems in \<open>simp add: enc_log_def\<close>)
  finally show ?case
    unfolding split by (simp add: enc_log_def add.assoc)
qed

text \<open>
  C28: recovery of a corrupted segment. Let a binary segment hold complete entries followed by a tail
  that does not start with a complete entry. The truncation ends and never panics; it cuts the tail
  off and keeps exactly the complete entries, except when the tail is as long as the entries before it:
  then the file is left as it is, still corrupted.
\<close>

theorem truncate_corrupted_tail:
  assumes "length (enc_log entries @ tail) < 2 ^ 63" "tail = [] \<or> loadNextBinaryEntry tail = Inl (Error ''log corrupt'')"
  shows "truncateCorruptedTail g Binary (enc_log entries @ tail) =
    Inr (if length tail = length (enc_log entries) then enc_log entries @ tail else enc_log entries)"
proof -
  have "truncate_loop g Binary tail p = Inr (tail, p)" for p
    using assms(2) by (auto simp: truncate_loop.simps loadNextEntry_def)
  then show ?thesis
    using truncate_loop_log [OF assms(1), of g 0] by (auto simp: truncateCorruptedTail_def)
qed

theorem truncate_corrupted_tail_witness:
  "truncateCorruptedTail (\<lambda>_. False) Binary [1, 7, 3, 9, 9] = Inr [1, 7] \<and> truncateCorruptedTail (\<lambda>_. False) Binary [1, 7, 3, 9] = Inr [1, 7, 3, 9]"
proof -
  have log: "enc_log [[7]] = [1, 7]"
    by (simp add: enc_log_def putUvarint_small)
  have corrupt: "loadNextBinaryEntry [3, 9, 9] = Inl (Error ''log corrupt'')" "loadNextBinaryEntry [3, 9] = Inl (Error ''log corrupt'')"
    by (simp_all add: loadNextBinaryEntry_def uvarint_def)
  show ?thesis
    using truncate_corrupted_tail [of "[[7]]" "[3, 9, 9]" "\<lambda>_. False"] truncate_corrupted_tail [of "[[7]]" "[3, 9]" "\<lambda>_. False"] corrupt
    by (simp add: log)
qed

end
