(* ===== verification/Go_Heap.thy ===== *)
theory Go_Heap
  imports Prelude "HOL-Library.Multiset"
begin

text \<open>
  The operations of Go's \<open>container/heap\<close> that the k-way merge uses, on the slice the
  heap is stored in: \<open>down\<close>, \<open>up\<close>, \<open>Init\<close>, \<open>Fix\<close> and \<open>Remove\<close>. The interface methods
  \<open>Less\<close>, \<open>Swap\<close> and \<open>Pop\<close> are the comparison \<open>lt\<close> of two elements, the exchange of two
  positions and the removal of the last element. The order is a strict weak order on the
  elements that satisfy a predicate, which is what \<open>sort.Slice\<close> and the heap document
  for their comparison functions.
\<close>

section \<open>Operations\<close>

definition swap :: "'a list \<Rightarrow> nat \<Rightarrow> nat \<Rightarrow> 'a list" where
  "swap h i j = h[i := h ! j, j := h ! i]"

text \<open>\<open>down(h, i0, n)\<close>: the slice, and the index the element has sunk to.\<close>

function down :: "('a \<Rightarrow> 'a \<Rightarrow> bool) \<Rightarrow> 'a list \<Rightarrow> nat \<Rightarrow> nat \<Rightarrow> 'a list \<times> nat" where
  "down lt h i n =
     (let j1 = 2 * i + 1 in
      if j1 \<ge> n then (h, i)
      else let j2 = j1 + 1; j = (if j2 < n \<and> lt (h ! j2) (h ! j1) then j2 else j1) in
      if \<not> lt (h ! j) (h ! i) then (h, i) else down lt (swap h i j) j n)"
  by auto
termination
  by (relation "measure (\<lambda>(lt, h, i, n). n - i)") (auto split: if_splits)

text \<open>\<open>up(h, j)\<close>; the parent of index 0 is 0, since Go's division rounds to zero.\<close>

function up :: "('a \<Rightarrow> 'a \<Rightarrow> bool) \<Rightarrow> 'a list \<Rightarrow> nat \<Rightarrow> 'a list" where
  "up lt h j =
     (let i = (j - 1) div 2 in
      if i = j \<or> \<not> lt (h ! j) (h ! i) then h else up lt (swap h i j) i)"
  by auto
termination
  by (relation "measure (\<lambda>(lt, h, j). j)") auto

declare down.simps [simp del] up.simps [simp del]

text \<open>\<open>Init\<close>: the loop from \<open>n/2 - 1\<close> to 0.\<close>

primrec init_from :: "('a \<Rightarrow> 'a \<Rightarrow> bool) \<Rightarrow> 'a list \<Rightarrow> nat \<Rightarrow> 'a list" where
  "init_from lt h 0 = h"
| "init_from lt h (Suc i) = init_from lt (fst (down lt h i (length h))) i"

definition heap_Init :: "('a \<Rightarrow> 'a \<Rightarrow> bool) \<Rightarrow> 'a list \<Rightarrow> 'a list" where
  "heap_Init lt h = init_from lt h (length h div 2)"

definition sift :: "('a \<Rightarrow> 'a \<Rightarrow> bool) \<Rightarrow> 'a list \<Rightarrow> nat \<Rightarrow> nat \<Rightarrow> 'a list" where
  "sift lt h i n = (let (h', i') = down lt h i n in if i' > i then h' else up lt h' i)"

definition heap_Fix :: "('a \<Rightarrow> 'a \<Rightarrow> bool) \<Rightarrow> 'a list \<Rightarrow> nat \<Rightarrow> 'a list" where
  "heap_Fix lt h i = sift lt h i (length h)"

text \<open>\<open>Remove\<close>, without the element that \<open>Pop\<close> returns.\<close>

definition heap_Remove :: "('a \<Rightarrow> 'a \<Rightarrow> bool) \<Rightarrow> 'a list \<Rightarrow> nat \<Rightarrow> 'a list" where
  "heap_Remove lt h i =
     (let n = length h - 1 in
      butlast (if n \<noteq> i then sift lt (swap h i n) i n else h))"

section \<open>Elements are kept\<close>

lemma length_swap [simp]: "length (swap h i j) = length h"
  by (simp add: swap_def)

lemma mset_swap [simp]: "i < length h \<Longrightarrow> j < length h \<Longrightarrow> mset (swap h i j) = mset h"
  by (simp add: swap_def Multiset.mset_swap)

lemma nth_swap:
  "i < length h \<Longrightarrow> j < length h \<Longrightarrow>
   swap h i j ! k = (if k = j then h ! i else if k = i then h ! j else h ! k)"
  by (simp add: swap_def nth_list_update)

lemma down_mset:
  "n \<le> length h \<Longrightarrow> i < length h \<Longrightarrow> mset (fst (down lt h i n)) = mset h"
proof (induction lt h i n rule: down.induct)
  case (1 lt h i n)
  then show ?case
    by (subst down.simps) (auto simp: Let_def)
qed

lemma down_length [simp]: "length (fst (down lt h i n)) = length h"
proof (induction lt h i n rule: down.induct)
  case (1 lt h i n)
  then show ?case
    by (subst down.simps) (auto simp: Let_def)
qed

lemma swap_append: "i < length a \<Longrightarrow> j < length a \<Longrightarrow> swap (a @ b) i j = swap a i j @ b"
  by (simp add: swap_def list_update_append nth_append)

text \<open>Only the first \<open>n\<close> positions are looked at.\<close>

lemma down_append:
  "n \<le> length a \<Longrightarrow> i < length a \<Longrightarrow> fst (down lt (a @ b) i n) = fst (down lt a i n) @ b"
proof (induction lt a i n rule: down.induct)
  case (1 lt a i n)
  then show ?case
    by (subst (1 2) down.simps) (auto simp: Let_def nth_append swap_append)
qed

lemma up_root: "up lt h 0 = h"
  by (subst up.simps) simp

lemma sift_root: "sift lt h 0 n = fst (down lt h 0 n)"
  by (simp add: sift_def up_root split: prod.split)

lemma heap_Remove_eq:
  "heap_Remove lt (x # xs) 0 = (if xs = [] then [] else fst (down lt (last xs # butlast xs) 0 (length xs)))"
proof (cases xs rule: rev_cases)
  case (snoc ys y)
  then have "swap (x # xs) 0 (length xs) = (y # ys) @ [x]"
    by (simp add: swap_def)
  then show ?thesis
    using snoc by (simp add: heap_Remove_def sift_root down_append del: append_Cons)
qed (simp add: heap_Remove_def)

lemma heap_Remove_mset: "mset (heap_Remove lt (x # xs) 0) = mset xs"
  by (cases xs rule: rev_cases) (simp_all add: heap_Remove_eq down_mset)

lemma heap_Fix_mset: "h \<noteq> [] \<Longrightarrow> mset (heap_Fix lt h 0) = mset h"
  by (simp add: heap_Fix_def sift_root down_mset)

section \<open>The heap order\<close>

locale weak_order =
  fixes lt :: "'a \<Rightarrow> 'a \<Rightarrow> bool" and ok :: "'a \<Rightarrow> bool"
  assumes asym: "ok a \<Longrightarrow> ok b \<Longrightarrow> lt a b \<Longrightarrow> \<not> lt b a"
    and neg_trans: "ok a \<Longrightarrow> ok b \<Longrightarrow> ok c \<Longrightarrow> \<not> lt a b \<Longrightarrow> \<not> lt b c \<Longrightarrow> \<not> lt a c"
begin

lemma irrefl: "ok a \<Longrightarrow> \<not> lt a a"
  using asym by blast

text \<open>Position \<open>p\<close> is not after its children among the first \<open>n\<close> positions.\<close>

definition node_ok :: "'a list \<Rightarrow> nat \<Rightarrow> nat \<Rightarrow> bool" where
  "node_ok h n p \<longleftrightarrow> (\<forall>c. (c = 2 * p + 1 \<or> c = 2 * p + 2) \<longrightarrow> c < n \<longrightarrow> \<not> lt (h ! c) (h ! p))"

definition heap_from :: "'a list \<Rightarrow> nat \<Rightarrow> nat \<Rightarrow> bool" where
  "heap_from h n k \<longleftrightarrow> (\<forall>p \<ge> k. node_ok h n p)"

text \<open>The order may fail at \<open>i\<close> only, whose children are not before its parent.\<close>

definition heap_except :: "'a list \<Rightarrow> nat \<Rightarrow> nat \<Rightarrow> nat \<Rightarrow> bool" where
  "heap_except h n k i \<longleftrightarrow> (\<forall>p \<ge> k. p \<noteq> i \<longrightarrow> node_ok h n p) \<and>
     (\<forall>p \<ge> k. (i = 2 * p + 1 \<or> i = 2 * p + 2) \<longrightarrow>
        (\<forall>c. (c = 2 * i + 1 \<or> c = 2 * i + 2) \<longrightarrow> c < n \<longrightarrow> \<not> lt (h ! c) (h ! p)))"

lemma heap_except_done: "heap_except h n k i \<Longrightarrow> node_ok h n i \<Longrightarrow> heap_from h n k"
  by (auto simp: heap_except_def heap_from_def)

lemma heap_except_start: "heap_from h n (Suc i) \<Longrightarrow> heap_except h n i i"
  by (auto simp: heap_except_def heap_from_def)

lemma heap_from_cong:
  assumes "heap_from h n (Suc 0)" and same: "\<And>c. 0 < c \<Longrightarrow> c < n' \<Longrightarrow> h' ! c = h ! c" and "n' \<le> n"
  shows "heap_from h' n' (Suc 0)"
  unfolding heap_from_def node_ok_def
proof (intro allI impI)
  fix p c assume p: "Suc 0 \<le> p" and c: "c = 2 * p + 1 \<or> c = 2 * p + 2" "c < n'"
  have "node_ok h n p"
    using assms(1) p by (simp add: heap_from_def)
  moreover have "c < n"
    using c(2) assms(3) by simp
  ultimately have "\<not> lt (h ! c) (h ! p)"
    using c(1) unfolding node_ok_def by blast
  moreover have "h' ! c = h ! c" "h' ! p = h ! p"
    using p c by (auto intro!: same)
  ultimately show "\<not> lt (h' ! c) (h' ! p)"
    by simp
qed

lemma sink_step:
  assumes h: "heap_except h n k i" and k: "k \<le> i" and n: "n \<le> length h" and el: "\<forall>x \<in> set h. ok x"
    and j: "j = 2 * i + 1 \<or> j = 2 * i + 2" "j < n"
    and least: "\<forall>c. (c = 2 * i + 1 \<or> c = 2 * i + 2) \<longrightarrow> c < n \<longrightarrow> \<not> lt (h ! c) (h ! j)"
    and lt: "lt (h ! j) (h ! i)"
  shows "heap_except (swap h i j) n k j"
proof -
  have len: "i < length h" "j < length h" "i \<noteq> j"
    using j n by auto
  note sw = nth_swap [OF len(1,2)]
  have okn: "c < n \<Longrightarrow> ok (h ! c)" for c
    using el n by auto
  have node: "p \<ge> k \<Longrightarrow> p \<noteq> i \<Longrightarrow> (c = 2 * p + 1 \<or> c = 2 * p + 2) \<Longrightarrow> c < n \<Longrightarrow> \<not> lt (h ! c) (h ! p)" for p c
    using h by (auto simp: heap_except_def node_ok_def)
  have grand: "p \<ge> k \<Longrightarrow> (i = 2 * p + 1 \<or> i = 2 * p + 2) \<Longrightarrow> \<not> lt (h ! j) (h ! p)" for p
    using h j by (auto simp: heap_except_def)
  have "node_ok (swap h i j) n p" if p: "p \<ge> k" "p \<noteq> j" for p
    unfolding node_ok_def
  proof (intro allI impI)
    fix c assume c: "c = 2 * p + 1 \<or> c = 2 * p + 2" "c < n"
    have p_n: "p < n" using c by auto
    show "\<not> lt (swap h i j ! c) (swap h i j ! p)"
    proof (cases "p = i")
      case True
      then have "swap h i j ! p = h ! j" "c \<noteq> i"
        using len c by (auto simp: sw)
      moreover have "\<not> lt (h ! c) (h ! j)" if "c \<noteq> j"
        using least c True by blast
      moreover have "\<not> lt (h ! i) (h ! j)"
        using asym [OF okn okn lt] j p_n True by simp
      ultimately show ?thesis
        by (simp add: sw)
    next
      case False
      then have "c \<noteq> j"
        using c j by auto
      moreover have "\<not> lt (h ! c) (h ! p)"
        using node [OF p(1) False c] .
      moreover have "\<not> lt (h ! j) (h ! p)" if "c = i"
        using grand [OF p(1)] c(1) that by blast
      ultimately show ?thesis
        using False p(2) by (simp add: sw)
    qed
  qed
  moreover have "\<not> lt (swap h i j ! c) (swap h i j ! p)"
    if "p \<ge> k" "j = 2 * p + 1 \<or> j = 2 * p + 2" "c = 2 * j + 1 \<or> c = 2 * j + 2" "c < n" for p c
  proof -
    have "p = i"
      using that(2) j(1) by presburger
    moreover have "\<not> lt (h ! c) (h ! j)"
      by (rule node [OF _ _ that(3,4)]) (use k j in auto)
    moreover have "c \<noteq> j" "c \<noteq> i"
      using that(3) j(1) by auto
    ultimately show ?thesis
      by (simp add: sw len)
  qed
  ultimately show ?thesis
    unfolding heap_except_def by blast
qed

lemma down_heap:
  "heap_except h n k i \<Longrightarrow> k \<le> i \<Longrightarrow> n \<le> length h \<Longrightarrow> \<forall>x \<in> set h. ok x \<Longrightarrow>
   heap_from (fst (down lt h i n)) n k"
proof (induction "n - i" arbitrary: h i rule: less_induct)
  case less
  define j where "j = (if 2 * i + 2 < n \<and> lt (h ! (2 * i + 2)) (h ! (2 * i + 1)) then 2 * i + 2 else 2 * i + 1)"
  have okn: "c < n \<Longrightarrow> ok (h ! c)" for c
    using less.prems by auto
  have d: "down lt h i n = (if 2 * i + 1 \<ge> n \<or> \<not> lt (h ! j) (h ! i) then (h, i) else down lt (swap h i j) j n)"
    by (subst down.simps) (simp add: Let_def j_def)
  show ?case
  proof (cases "2 * i + 1 \<ge> n")
    case True
    then have "node_ok h n i"
      by (auto simp: node_ok_def)
    then show ?thesis
      using less.prems(1) heap_except_done d True by simp
  next
    case False
    then have j: "j = 2 * i + 1 \<or> j = 2 * i + 2" "j < n"
      by (auto simp: j_def)
    have least: "\<forall>c. (c = 2 * i + 1 \<or> c = 2 * i + 2) \<longrightarrow> c < n \<longrightarrow> \<not> lt (h ! c) (h ! j)"
    proof (intro allI impI)
      fix c assume c: "c = 2 * i + 1 \<or> c = 2 * i + 2" "c < n"
      show "\<not> lt (h ! c) (h ! j)"
      proof (cases "c = j")
        case True
        then show ?thesis
          using irrefl [OF okn [OF c(2)]] by simp
      next
        case False
        then show ?thesis
          using c asym [OF okn okn, of "2 * i + 2" "2 * i + 1"] by (auto simp: j_def split: if_splits)
      qed
    qed
    show ?thesis
    proof (cases "lt (h ! j) (h ! i)")
      case True
      have len: "i < length h" "j < length h"
        using j less.prems(3) by auto
      have "heap_from (fst (down lt (swap h i j) j n)) n k"
        by (rule less.hyps [OF _ sink_step [OF less.prems(1-4) j least True]])
          (use j less.prems(2-4) in \<open>simp_all add: mset_eq_setD [OF mset_swap [OF len]], linarith+\<close>)
      then show ?thesis
        using d True False by simp
    next
      case no: False
      have "\<not> lt (h ! c) (h ! i)" if "c = 2 * i + 1 \<or> c = 2 * i + 2" "c < n" for c
        using neg_trans [OF okn okn okn, of c j i] least no j that by auto
      then have "node_ok h n i"
        by (simp add: node_ok_def)
      then show ?thesis
        using less.prems(1) heap_except_done d no by simp
    qed
  qed
qed

text \<open>The first position is least.\<close>

lemma heap_root:
  "heap_from h n 0 \<Longrightarrow> n \<le> length h \<Longrightarrow> \<forall>x \<in> set h. ok x \<Longrightarrow> c < n \<Longrightarrow> \<not> lt (h ! c) (h ! 0)"
proof (induction c rule: less_induct)
  case (less c)
  have okn: "c < n \<Longrightarrow> ok (h ! c)" for c
    using less.prems by auto
  show ?case
  proof (cases "c = 0")
    case True
    then show ?thesis
      using irrefl [OF okn [of 0]] less.prems(4) by simp
  next
    case False
    define p where "p = (c - 1) div 2"
    have p: "p < c" "c = 2 * p + 1 \<or> c = 2 * p + 2"
      using False by (auto simp: p_def)
    have "\<not> lt (h ! c) (h ! p)"
      using less.prems p(2) by (auto simp: heap_from_def node_ok_def)
    moreover have "\<not> lt (h ! p) (h ! 0)"
      using less.IH [OF p(1)] less.prems p(1) by simp
    ultimately show ?thesis
      using neg_trans [OF okn okn okn, of c p 0] less.prems(4) p(1) by simp
  qed
qed

text \<open>What the merge needs of the three operations.\<close>

abbreviation is_heap :: "'a list \<Rightarrow> bool" where
  "is_heap h \<equiv> heap_from h (length h) 0"

lemma init_from_heap:
  "heap_from h (length h) k \<Longrightarrow> \<forall>x \<in> set h. ok x \<Longrightarrow> k \<le> length h \<Longrightarrow>
   is_heap (init_from lt h k) \<and> mset (init_from lt h k) = mset h"
proof (induction k arbitrary: h)
  case (Suc k)
  let ?h = "fst (down lt h k (length h))"
  have m: "mset ?h = mset h"
    by (rule down_mset) (use Suc.prems(3) in simp_all)
  have "heap_from ?h (length h) k"
    by (rule down_heap [OF heap_except_start [OF Suc.prems(1)] order_refl order_refl Suc.prems(2)])
  then have "is_heap (init_from lt ?h k) \<and> mset (init_from lt ?h k) = mset ?h"
    by (intro Suc.IH) (use Suc.prems(2,3) mset_eq_setD [OF m] in simp_all)
  then show ?case
    by (simp only: init_from.simps m simp_thms)
qed simp

lemma heap_Init_correct:
  assumes "\<forall>x \<in> set h. ok x"
  shows "is_heap (heap_Init lt h)" "mset (heap_Init lt h) = mset h"
proof -
  have "heap_from h (length h) (length h div 2)"
    by (auto simp: heap_from_def node_ok_def)
  then show "is_heap (heap_Init lt h)" "mset (heap_Init lt h) = mset h"
    using init_from_heap [OF _ assms, of "length h div 2"] by (auto simp: heap_Init_def)
qed

lemma heap_Fix_correct:
  assumes "is_heap h" "h \<noteq> []" "ok x" "\<forall>y \<in> set h. ok y"
  shows "is_heap (heap_Fix lt (h[0 := x]) 0)"
proof -
  let ?h = "h[0 := x]"
  have okx: "\<forall>y \<in> set ?h. ok y"
    using assms(3,4) set_update_subset_insert [of h 0 x] by blast
  have "heap_from ?h (length h) (Suc 0)"
    by (rule heap_from_cong [of h "length h"]) (use assms(1) in \<open>simp_all add: heap_from_def\<close>)
  then have "heap_from (fst (down lt ?h 0 (length h))) (length h) 0"
    by (intro down_heap [OF heap_except_start _ _ okx]) simp_all
  then show "is_heap (heap_Fix lt ?h 0)"
    by (simp add: heap_Fix_def sift_root)
qed

lemma heap_Remove_correct:
  assumes "heap_from (x # xs) (Suc (length xs)) (Suc 0)" "\<forall>y \<in> set xs. ok y"
  shows "is_heap (heap_Remove lt (x # xs) 0)"
proof (cases xs rule: rev_cases)
  case (snoc ys y)
  have same: "(y # ys) ! c = (x # xs) ! c" if "0 < c" "c < length xs" for c
    using snoc that by (cases c) (auto simp: nth_append)
  have "heap_from (y # ys) (length xs) (Suc 0)"
    by (rule heap_from_cong [OF assms(1) same]) simp_all
  then have "heap_from (fst (down lt (y # ys) 0 (length xs))) (length xs) 0"
    by (rule down_heap [OF heap_except_start order_refl]) (use assms(2) snoc in auto)
  then show ?thesis
    using snoc by (simp add: heap_Remove_eq)
qed (simp add: heap_Remove_eq heap_from_def node_ok_def)

end

end
