(* ===== verification/Ext_Sort.thy ===== *)
theory Ext_Sort
  imports Go_Binary Go_Heap
begin

text \<open>
  The external sorter of \<open>versiondb/extsort\<close>: the delta encoding of sorted items, the
  chunk files, the k-way merge of the chunk files on a heap, and the sorter that cuts its
  input into chunks which goroutines sort and save in any order. A chunk file is its
  contents, a reader the bytes it has not read yet; the snappy codec is a parameter.
  Allocating \<open>n\<close> bytes panics above the address space of the runtime; running out of
  memory below that is not modelled, nor is a failing seek in an open temporary file.
\<close>

section \<open>Readers\<close>

definition io_EOF :: go_err where
  "io_EOF = Error ''EOF''"

definition io_ErrUnexpectedEOF :: go_err where
  "io_ErrUnexpectedEOF = Error ''unexpected EOF''"

text \<open>\<open>io.ReadFull\<close> of \<open>n\<close> bytes.\<close>

definition readFull :: "bytes \<Rightarrow> nat \<Rightarrow> (bytes \<times> bytes) res" where
  "readFull r n =
     (if n \<le> length r then Inr (take n r, drop n r)
      else Inl (if r = [] then io_EOF else io_ErrUnexpectedEOF))"

text \<open>The length of \<open>make([]byte, n)\<close>.\<close>

definition make_bytes :: "u64 \<Rightarrow> nat res" where
  "make_bytes n = (if unat n \<le> 2 ^ 48 then Inr (unat n) else Inl (Panic ''makeslice: len out of range''))"

section \<open>Delta encoding\<close>

fun diffOffset :: "bytes \<Rightarrow> bytes \<Rightarrow> nat" where
  "diffOffset (x # a) (y # b) = (if x \<noteq> y then 0 else Suc (diffOffset a b))"
| "diffOffset a b = 0"

text \<open>\<open>DeltaEncoder.Write\<close>: the bytes written; the encoder then remembers the key.\<close>

definition DeltaEncoder_Write :: "bytes \<Rightarrow> bytes \<Rightarrow> bytes" where
  "DeltaEncoder_Write prev key =
     (let shared = diffOffset prev key; nonShared = length key - shared
      in putUvarint (of_nat shared) @ putUvarint (of_nat nonShared) @ drop shared key)"

text \<open>\<open>DeltaDecoder.Read\<close>: the item, which the decoder remembers, and the rest of the stream.\<close>

definition DeltaDecoder_Read :: "bytes \<Rightarrow> bytes \<Rightarrow> (bytes \<times> bytes) res" where
  "DeltaDecoder_Read prev r =
     bind_res (readUvarint r) (\<lambda>(shared, r).
     bind_res (readUvarint r) (\<lambda>(nonShared, r).
     bind_res (make_bytes (shared + nonShared)) (\<lambda>n.
     if n < unat shared \<or> length prev < unat shared then Inl (Panic ''slice bounds out of range'')
     else bind_res (readFull r (n - unat shared)) (\<lambda>(tail, r).
       Inr (take (unat shared) prev @ tail, r)))))"

fun write_delta :: "bytes \<Rightarrow> bytes list \<Rightarrow> bytes" where
  "write_delta prev [] = []"
| "write_delta prev (key # keys) = DeltaEncoder_Write prev key @ write_delta key keys"

fun write_plain :: "bytes list \<Rightarrow> bytes" where
  "write_plain [] = []"
| "write_plain (item # items) = putUvarint (of_nat (length item)) @ item @ write_plain items"

section \<open>Chunk files\<close>

text \<open>The parameter for the writer and the reader of the snappy package.\<close>

record snappy =
  compress :: "bytes \<Rightarrow> bytes"
  decompress :: "bytes \<Rightarrow> bytes"

definition snappy_contract :: "snappy \<Rightarrow> bool" where
  "snappy_contract sn \<longleftrightarrow> (\<forall>bz. decompress sn (compress sn bz) = bz)"

record Options =
  DeltaEncoding :: bool
  SnappyCompression :: bool
  MaxChunkSize :: u64
  LesserFunc :: "bytes \<Rightarrow> bytes \<Rightarrow> bool"

text \<open>The file that \<open>sortAndSaveChunk\<close> leaves for a chunk that is sorted.\<close>

definition saveChunk :: "snappy \<Rightarrow> Options \<Rightarrow> bytes list \<Rightarrow> bytes" where
  "saveChunk sn opts chunk =
     (let bz = (if DeltaEncoding opts then write_delta [] chunk else write_plain chunk)
      in if SnappyCompression opts then compress sn bz else bz)"

text \<open>
  \<open>sort.Slice\<close> leaves some permutation that is sorted; which one, among items that the
  order does not tell apart, is not specified.
\<close>

definition slice_sorted :: "(bytes \<Rightarrow> bytes \<Rightarrow> bool) \<Rightarrow> bytes list \<Rightarrow> bytes list \<Rightarrow> bool" where
  "slice_sorted lf xs ys \<longleftrightarrow> mset ys = mset xs \<and> sorted_wrt (\<lambda>a b. \<not> lf b a) ys"

text \<open>The closures that \<open>Finalize\<close> makes for the chunk files, with what they capture.\<close>

datatype stream = Delta_stream (last_item: bytes) (unread: bytes) | Plain_stream (unread: bytes)

definition open_stream :: "snappy \<Rightarrow> Options \<Rightarrow> bytes \<Rightarrow> stream" where
  "open_stream sn opts chunkFile =
     (let r = (if SnappyCompression opts then decompress sn chunkFile else chunkFile)
      in if DeltaEncoding opts then Delta_stream [] r else Plain_stream r)"

text \<open>A call of the closure: \<open>None\<close> is the nil item at the end of the stream.\<close>

fun next_stream :: "stream \<Rightarrow> (bytes option \<times> stream) res" where
  "next_stream (Delta_stream prev r) =
     (case DeltaDecoder_Read prev r of
        Inl err \<Rightarrow> if err = io_EOF then Inr (None, Delta_stream prev []) else Inl err
      | Inr (item, r') \<Rightarrow> Inr (Some item, Delta_stream item r'))"
| "next_stream (Plain_stream r) =
     (case readUvarint r of
        Inl err \<Rightarrow> if err = io_EOF then Inr (None, Plain_stream []) else Inl err
      | Inr (sz, r') \<Rightarrow>
          bind_res (make_bytes sz) (\<lambda>n. bind_res (readFull r' n) (\<lambda>(item, r'').
            Inr (Some item, Plain_stream r''))))"

section \<open>The k-way merge\<close>

record heapEntry =
  entry_stream :: stream
  entry_value :: "bytes option"

definition newHeapEntry :: "stream \<Rightarrow> heapEntry option res" where
  "newHeapEntry st =
     bind_res (next_stream st) (\<lambda>(v, st').
       Inr (case v of None \<Rightarrow> None | Some x \<Rightarrow> Some \<lparr>entry_stream = st', entry_value = v\<rparr>))"

definition entry_update :: "heapEntry \<Rightarrow> heapEntry res" where
  "entry_update e = map_res (\<lambda>(v, st). \<lparr>entry_stream = st, entry_value = v\<rparr>) (next_stream (entry_stream e))"

text \<open>\<open>MultiWayMerge.Less\<close>; a nil value is passed on as the empty slice.\<close>

definition merge_Less :: "(bytes \<Rightarrow> bytes \<Rightarrow> bool) \<Rightarrow> heapEntry \<Rightarrow> heapEntry \<Rightarrow> bool" where
  "merge_Less lf a b =
     lf (case entry_value a of None \<Rightarrow> [] | Some v \<Rightarrow> v) (case entry_value b of None \<Rightarrow> [] | Some v \<Rightarrow> v)"

fun new_entries :: "stream list \<Rightarrow> heapEntry list res" where
  "new_entries [] = Inr []"
| "new_entries (st # sts) =
     bind_res (newHeapEntry st) (\<lambda>e. bind_res (new_entries sts) (\<lambda>es.
       Inr (case e of None \<Rightarrow> es | Some e \<Rightarrow> e # es)))"

definition NewMultiWayMerge :: "stream list \<Rightarrow> (bytes \<Rightarrow> bytes \<Rightarrow> bool) \<Rightarrow> heapEntry list res" where
  "NewMultiWayMerge streams lf = map_res (heap_Init (merge_Less lf)) (new_entries streams)"

definition merge_Next :: "(bytes \<Rightarrow> bytes \<Rightarrow> bool) \<Rightarrow> heapEntry list \<Rightarrow> (bytes option \<times> heapEntry list) res" where
  "merge_Next lf entries =
     (if entries = [] then Inr (None, [])
      else let minEntry = entries ! 0 in
        bind_res (entry_update minEntry) (\<lambda>e.
          let es = entries[0 := e] in
          Inr (entry_value minEntry,
               if entry_value e = None then heap_Remove (merge_Less lf) es 0
               else heap_Fix (merge_Less lf) es 0)))"

section \<open>The sorter\<close>

text \<open>
  \<open>chunking\<close> are the chunks of the goroutines that still run, \<open>tmpFiles\<close> is the number of
  temporary files that are in the directory.
\<close>

record ExtSorter =
  sorter_opts :: Options
  currentChunk :: "bytes list"
  currentChunkSize :: u64
  chunking :: "bytes list list"
  chunkFiles :: "bytes list"
  failures :: "string list"
  tmpFiles :: nat

definition New :: "Options \<Rightarrow> ExtSorter" where
  "New opts = \<lparr>sorter_opts = opts, currentChunk = [], currentChunkSize = 0, chunking = [],
     chunkFiles = [], failures = [], tmpFiles = 0\<rparr>"

text \<open>\<open>createErr\<close> is the error of \<open>os.CreateTemp\<close>, if it has one.\<close>

definition sortChunkAndRotate :: "string option \<Rightarrow> ExtSorter \<Rightarrow> ExtSorter \<times> go_err option" where
  "sortChunkAndRotate createErr s =
     (case createErr of
        Some msg \<Rightarrow> (s, Some (Error msg))
      | None \<Rightarrow> (s\<lparr>currentChunk := [], currentChunkSize := 0, chunking := chunking s @ [currentChunk s],
               tmpFiles := tmpFiles s + 1\<rparr>, None))"

definition Feed :: "string option \<Rightarrow> ExtSorter \<Rightarrow> bytes \<Rightarrow> ExtSorter \<times> go_err option" where
  "Feed createErr s item =
     (if length item > 0xffffffff then (s, Some (Error ''item length overflows uint32''))
      else let s = s\<lparr>currentChunkSize := currentChunkSize s + of_nat (length item) + 4,
                     currentChunk := currentChunk s @ [item]\<rparr> in
        if sint (currentChunkSize s) \<ge> sint (MaxChunkSize (sorter_opts s))
        then sortChunkAndRotate createErr s else (s, None))"

text \<open>A chunking goroutine ends, having saved its chunk or with an error.\<close>

definition remove_nth :: "nat \<Rightarrow> 'a list \<Rightarrow> 'a list" where
  "remove_nth i xs = take i xs @ drop (Suc i) xs"

inductive chunk_step :: "snappy \<Rightarrow> ExtSorter \<Rightarrow> ExtSorter \<Rightarrow> bool" for sn where
  chunk_saved: "i < length (chunking s) \<Longrightarrow> slice_sorted (LesserFunc (sorter_opts s)) (chunking s ! i) chunk \<Longrightarrow>
     chunk_step sn s (s\<lparr>chunking := remove_nth i (chunking s),
       chunkFiles := chunkFiles s @ [saveChunk sn (sorter_opts s) chunk]\<rparr>)"
| chunk_failed: "i < length (chunking s) \<Longrightarrow>
     chunk_step sn s (s\<lparr>chunking := remove_nth i (chunking s), failures := failures s @ [msg]\<rparr>)"

text \<open>
  \<open>Finalize\<close> up to the wait for the goroutines, and from there on; \<open>None\<close> while it waits.
\<close>

definition Finalize_begin :: "string option \<Rightarrow> ExtSorter \<Rightarrow> ExtSorter \<times> go_err option" where
  "Finalize_begin createErr s =
     (if sint (currentChunkSize s) > 0 then sortChunkAndRotate createErr s else (s, None))"

fun join_lines :: "string list \<Rightarrow> string" where
  "join_lines [] = ''''"
| "join_lines [x] = x"
| "join_lines (x # xs) = x @ [CHR 0x0A] @ join_lines xs"

definition Finalize_end :: "snappy \<Rightarrow> ExtSorter \<Rightarrow> heapEntry list res option" where
  "Finalize_end sn s =
     (if chunking s \<noteq> [] then None
      else if failures s \<noteq> [] then Some (Inl (Error (join_lines (failures s))))
      else Some (NewMultiWayMerge (map (open_stream sn (sorter_opts s)) (chunkFiles s)) (LesserFunc (sorter_opts s))))"

text \<open>\<open>Close\<close>: the finished chunk files are removed from the directory.\<close>

definition Close :: "ExtSorter \<Rightarrow> ExtSorter" where
  "Close s = s\<lparr>tmpFiles := tmpFiles s - length (chunkFiles s)\<rparr>"

text \<open>The input loop of \<open>Spawn\<close>, interleaved with the goroutines: the items fed so far.\<close>

inductive sorter_run :: "snappy \<Rightarrow> Options \<Rightarrow> bytes list \<Rightarrow> ExtSorter \<Rightarrow> bool" for sn opts where
  run_new: "sorter_run sn opts [] (New opts)"
| run_feed: "sorter_run sn opts fed s \<Longrightarrow> Feed createErr s item = (s', None) \<Longrightarrow> sorter_run sn opts (fed @ [item]) s'"
| run_chunk: "sorter_run sn opts fed s \<Longrightarrow> chunk_step sn s s' \<Longrightarrow> sorter_run sn opts fed s'"


section \<open>Reading consumes bytes\<close>

lemma readUvarint_consumes: "readUvarint r = Inr (x, r') \<Longrightarrow> length r' < length r"
proof -
  have "readUvarint_loop i y s r = Inr (x, r') \<Longrightarrow> length r' < length r" for i y s
    by (induction i y s r rule: readUvarint_loop.induct) (auto split: if_splits)
  then show "readUvarint r = Inr (x, r') \<Longrightarrow> length r' < length r"
    by (simp add: readUvarint_def)
qed

lemma readFull_length: "readFull r n = Inr (bz, r') \<Longrightarrow> length r' \<le> length r"
  by (auto simp: readFull_def split: if_splits)

lemma DeltaDecoder_Read_consumes: "DeltaDecoder_Read prev r = Inr (item, r') \<Longrightarrow> length r' < length r"
  by (fastforce simp: DeltaDecoder_Read_def bind_res_Inr split: if_splits
      dest!: readUvarint_consumes readFull_length)

lemma next_stream_consumes: "next_stream st = Inr (Some x, st') \<Longrightarrow> length (unread st') < length (unread st)"
  by (cases st) (fastforce simp: bind_res_Inr split: sum.splits if_splits
      dest!: DeltaDecoder_Read_consumes readUvarint_consumes readFull_length)+

text \<open>The items a stream yields before its end or its first error.\<close>

function stream_items :: "stream \<Rightarrow> bytes list" where
  "stream_items st = (case next_stream st of Inr (Some x, st') \<Rightarrow> x # stream_items st' | _ \<Rightarrow> [])"
  by auto
termination
  by (relation "measure (\<lambda>st. length (unread st))") (auto dest: next_stream_consumes)

declare stream_items.simps [simp del]

definition entry_weight :: "heapEntry \<Rightarrow> nat" where
  "entry_weight e = Suc (length (unread (entry_stream e)))"


lemma merge_Next_weight:
  assumes "merge_Next lf es = Inr (Some x, es')"
  shows "sum_list (map entry_weight es') < sum_list (map entry_weight es)"
proof -
  obtain e0 rest where es: "es = e0 # rest"
    using assms by (cases es) (auto simp: merge_Next_def)
  obtain e where e: "entry_update e0 = Inr e"
    using assms es by (auto simp: merge_Next_def bind_res_Inr Let_def)
  have w: "sum_list (map entry_weight xs) = sum_mset (image_mset entry_weight (mset xs))" for xs
    by (simp flip: sum_mset_sum_list)
  obtain v st where st: "next_stream (entry_stream e0) = Inr (v, st)" "e = \<lparr>entry_stream = st, entry_value = v\<rparr>"
    using e by (auto simp: entry_update_def bind_res_Inr)
  show ?thesis
  proof (cases v)
    case None
    then have "mset es' = mset rest"
      using assms es e st by (auto simp: merge_Next_def Let_def heap_Remove_mset)
    then show ?thesis
      using es by (simp add: w entry_weight_def)
  next
    case (Some y)
    then have "mset es' = mset (e # rest)"
      using assms es e st by (auto simp: merge_Next_def Let_def heap_Fix_mset)
    moreover have "entry_weight e < entry_weight e0"
      using next_stream_consumes [of "entry_stream e0" y st] st Some by (simp add: entry_weight_def)
    ultimately show ?thesis
      using es by (simp add: w)
  qed
qed

text \<open>The output loop of \<open>Spawn\<close>.\<close>

function drain :: "(bytes \<Rightarrow> bytes \<Rightarrow> bool) \<Rightarrow> heapEntry list \<Rightarrow> bytes list res" where
  "drain lf es =
     (case merge_Next lf es of
        Inl err \<Rightarrow> Inl err
      | Inr (None, es') \<Rightarrow> Inr []
      | Inr (Some item, es') \<Rightarrow> map_res ((#) item) (drain lf es'))"
  by auto
termination
  by (relation "measure (\<lambda>(lf, es). sum_list (map entry_weight es))") (auto dest: merge_Next_weight)

declare drain.simps [simp del]


section \<open>Chunk files yield their chunk\<close>

fun yields :: "stream \<Rightarrow> bytes list \<Rightarrow> bool" where
  "yields st [] \<longleftrightarrow> (case next_stream st of Inr (None, _) \<Rightarrow> True | _ \<Rightarrow> False)"
| "yields st (x # xs) \<longleftrightarrow> (case next_stream st of Inr (Some y, st') \<Rightarrow> x = y \<and> yields st' xs | _ \<Rightarrow> False)"

lemma yields_items: "yields st xs \<Longrightarrow> stream_items st = xs"
proof (induction st xs rule: yields.induct)
  case (1 st)
  then show ?case
    by (subst stream_items.simps) (auto split: sum.splits prod.splits option.splits)
next
  case (2 st x xs)
  then show ?case
    by (subst stream_items.simps) (auto split: sum.splits prod.splits option.splits)
qed

lemma diffOffset_le: "diffOffset a b \<le> length a" "diffOffset a b \<le> length b"
  by (induction a b rule: diffOffset.induct) auto

lemma diffOffset_prefix: "take (diffOffset a b) a = take (diffOffset a b) b"
  by (induction a b rule: diffOffset.induct) auto

abbreviation fits :: "bytes \<Rightarrow> bool" where
  "fits item \<equiv> length item \<le> 0xffffffff"

lemma delta_round_trip:
  assumes "fits key"
  shows "DeltaDecoder_Read prev (DeltaEncoder_Write prev key @ rest) = Inr (key, rest)"
proof -
  let ?k = "diffOffset prev key"
  have k: "?k \<le> length prev" "?k \<le> length key"
    by (rule diffOffset_le)+
  have u: "unat (of_nat ?k :: u64) = ?k" "unat (of_nat (length key - ?k) :: u64) = length key - ?k"
    "unat (of_nat (length key) :: u64) = length key"
    using k(2) assms by (simp_all add: unat_of_nat_less del: of_nat_diff)
  have "(of_nat ?k :: u64) + of_nat (length key - ?k) = of_nat (length key)"
    using k(2) by (simp flip: of_nat_add)
  then show ?thesis
    using assms k diffOffset_prefix [of prev key]
    by (simp add: DeltaDecoder_Read_def DeltaEncoder_Write_def Let_def readUvarint_put make_bytes_def u readFull_def)
qed

lemma readUvarint_empty: "readUvarint [] = Inl io_EOF"
  by (simp add: readUvarint_def io_EOF_def)

lemma DeltaDecoder_Read_empty: "DeltaDecoder_Read prev [] = Inl io_EOF"
  by (simp add: DeltaDecoder_Read_def readUvarint_empty)

lemma delta_yields: "\<forall>k \<in> set ks. fits k \<Longrightarrow> yields (Delta_stream prev (write_delta prev ks)) ks"
  by (induction ks arbitrary: prev) (auto simp: delta_round_trip DeltaDecoder_Read_empty)

lemma plain_yields: "\<forall>k \<in> set ks. fits k \<Longrightarrow> yields (Plain_stream (write_plain ks)) ks"
  by (induction ks)
    (auto simp: readUvarint_empty readUvarint_put make_bytes_def unat_of_nat_less readFull_def)

lemma chunk_yields:
  assumes "snappy_contract sn" "\<forall>k \<in> set chunk. fits k"
  shows "yields (open_stream sn opts (saveChunk sn opts chunk)) chunk"
  using assms delta_yields plain_yields
  by (simp add: open_stream_def saveChunk_def Let_def snappy_contract_def)

section \<open>The merge is sorted\<close>

definition entry_items :: "heapEntry \<Rightarrow> bytes list" where
  "entry_items e = (case entry_value e of None \<Rightarrow> [] | Some v \<Rightarrow> v # stream_items (entry_stream e))"

abbreviation pending :: "heapEntry list \<Rightarrow> bytes multiset" where
  "pending es \<equiv> sum_mset (image_mset (\<lambda>e. mset (entry_items e)) (mset es))"

locale item_order = weak_order lf ok for lf :: "bytes \<Rightarrow> bytes \<Rightarrow> bool" and ok :: "bytes \<Rightarrow> bool"
begin

definition sorted_items :: "bytes list \<Rightarrow> bool" where
  "sorted_items xs \<longleftrightarrow> sorted_wrt (\<lambda>a b. \<not> lf b a) xs"

definition ok_entry :: "heapEntry \<Rightarrow> bool" where
  "ok_entry e \<longleftrightarrow> entry_value e \<noteq> None \<and> yields (entry_stream e) (stream_items (entry_stream e)) \<and>
     sorted_items (entry_items e) \<and> (\<forall>x \<in> set (entry_items e). ok x)"

end

sublocale item_order \<subseteq> entries: weak_order "merge_Less lf" "ok_entry"
proof
  fix a b c assume ab: "ok_entry a" "ok_entry b"
  show "merge_Less lf a b \<Longrightarrow> \<not> merge_Less lf b a"
    using ab asym by (auto simp: merge_Less_def ok_entry_def entry_items_def)
  show "ok_entry c \<Longrightarrow> \<not> merge_Less lf a b \<Longrightarrow> \<not> merge_Less lf b c \<Longrightarrow> \<not> merge_Less lf a c"
    using ab neg_trans by (auto simp: merge_Less_def ok_entry_def entry_items_def)
qed

context item_order
begin

definition merge_inv :: "heapEntry list \<Rightarrow> bool" where
  "merge_inv es \<longleftrightarrow> entries.is_heap es \<and> (\<forall>e \<in> set es. ok_entry e)"

lemma entry_of_stream:
  assumes "yields st (x # xs)" "sorted_items (x # xs)" "\<forall>y \<in> set (x # xs). ok y"
  shows "\<exists>st'. next_stream st = Inr (Some x, st') \<and> ok_entry \<lparr>entry_stream = st', entry_value = Some x\<rparr> \<and>
    entry_items \<lparr>entry_stream = st', entry_value = Some x\<rparr> = x # xs"
proof -
  obtain st' where "next_stream st = Inr (Some x, st')" "yields st' xs"
    using assms(1) by (auto split: sum.splits prod.splits option.splits)
  then show ?thesis
    using assms(2,3) yields_items by (auto simp: ok_entry_def entry_items_def)
qed

text \<open>The merge starts with all items of its streams.\<close>

lemma new_entries_correct:
  "list_all2 yields sts chunks \<Longrightarrow> \<forall>c \<in> set chunks. sorted_items c \<and> (\<forall>x \<in> set c. ok x) \<Longrightarrow>
   \<exists>es. new_entries sts = Inr es \<and> (\<forall>e \<in> set es. ok_entry e) \<and> pending es = mset (concat chunks)"
proof (induction rule: list_all2_induct)
  case (Cons st sts chunk chunks)
  then obtain es where es: "new_entries sts = Inr es" "\<forall>e \<in> set es. ok_entry e" "pending es = mset (concat chunks)"
    by auto
  show ?case
  proof (cases chunk)
    case Nil
    then show ?thesis
      using Cons.hyps es by (auto simp: newHeapEntry_def split: sum.splits prod.splits option.splits)
  next
    case (Cons x xs)
    then obtain st' where "next_stream st = Inr (Some x, st')"
      "ok_entry \<lparr>entry_stream = st', entry_value = Some x\<rparr>"
      "entry_items \<lparr>entry_stream = st', entry_value = Some x\<rparr> = x # xs"
      using entry_of_stream [of st x xs] \<open>yields st chunk\<close> Cons.prems by auto
    then show ?thesis
      using es Cons by (auto simp: newHeapEntry_def)
  qed
qed simp

lemma NewMultiWayMerge_correct:
  assumes "list_all2 yields sts chunks" "\<forall>c \<in> set chunks. sorted_items c \<and> (\<forall>x \<in> set c. ok x)"
  shows "\<exists>es. NewMultiWayMerge sts lf = Inr es \<and> merge_inv es \<and> pending es = mset (concat chunks)"
proof -
  obtain es where es: "new_entries sts = Inr es" "\<forall>e \<in> set es. ok_entry e" "pending es = mset (concat chunks)"
    using new_entries_correct [OF assms] by auto
  note init = entries.heap_Init_correct [OF es(2)]
  show ?thesis
    using es init mset_eq_setD [OF init(2)] by (auto simp: NewMultiWayMerge_def merge_inv_def)
qed

text \<open>The next item is least among all that are left.\<close>

lemma pending_ok:
  assumes "merge_inv (e # es)" "y \<in># pending (e # es)"
  shows "ok y \<and> \<not> lf y (the (entry_value e))"
proof -
  obtain a where a: "a \<in> set (e # es)" "y \<in> set (entry_items a)"
    using assms(2) by auto
  have oka: "ok_entry a" and oke: "ok_entry e"
    using assms(1) a(1) by (auto simp: merge_inv_def)
  obtain v where v: "entry_value a = Some v" "ok v" "entry_items a = v # stream_items (entry_stream a)"
    using oka by (auto simp: ok_entry_def entry_items_def)
  obtain x where x: "entry_value e = Some x" "ok x"
    using oke by (auto simp: ok_entry_def entry_items_def)
  have y: "ok y" "\<not> lf y v"
    using oka a(2) v irrefl [OF v(2)] by (auto simp: ok_entry_def sorted_items_def)
  obtain c where "c < length (e # es)" "a = (e # es) ! c"
    using a(1) by (metis in_set_conv_nth)
  then have "\<not> merge_Less lf a e"
    using entries.heap_root [of "e # es" _ c] assms(1) unfolding merge_inv_def by (metis nth_Cons_0 order_refl)
  then have "\<not> lf v x"
    using v x by (simp add: merge_Less_def)
  then show ?thesis
    using neg_trans [OF y(1) v(2) x(2) y(2)] y(1) x(1) by simp
qed

lemma merge_Next_correct:
  assumes "merge_inv (e # es)"
  shows "\<exists>x es'. merge_Next lf (e # es) = Inr (Some x, es') \<and> merge_inv es' \<and>
    pending (e # es) = add_mset x (pending es') \<and> (\<forall>y \<in># pending (e # es). ok y \<and> \<not> lf y x)"
proof -
  have heap: "entries.heap_from (e # es) (Suc (length es)) 0" and oks: "\<forall>a \<in> set (e # es). ok_entry a"
    using assms by (auto simp: merge_inv_def)
  obtain x xs where x: "entry_value e = Some x" "entry_items e = x # xs" "yields (entry_stream e) xs"
    "sorted_items xs" "\<forall>y \<in> set xs. ok y"
    using oks by (auto simp: ok_entry_def entry_items_def sorted_items_def)
  have least: "\<forall>y \<in># pending (e # es). ok y \<and> \<not> lf y x"
    using pending_ok [OF assms] x(1) by simp
  have "\<exists>es'. merge_Next lf (e # es) = Inr (Some x, es') \<and> merge_inv es' \<and> pending es' = mset xs + pending es"
  proof (cases xs)
    case Nil
    then obtain st' where "next_stream (entry_stream e) = Inr (None, st')"
      using x(3) by (auto split: sum.splits prod.splits option.splits)
    then obtain e' where e': "merge_Next lf (e # es) = Inr (Some x, heap_Remove (merge_Less lf) (e' # es) 0)"
      using x(1) by (simp add: merge_Next_def entry_update_def)
    have "entries.heap_from (e' # es) (Suc (length es)) (Suc 0)"
      by (rule entries.heap_from_cong [of "e # es"]) (use heap in \<open>auto simp: entries.heap_from_def\<close>)
    then have "entries.is_heap (heap_Remove (merge_Less lf) (e' # es) 0)"
      by (rule entries.heap_Remove_correct) (use oks in simp)
    moreover have m: "mset (heap_Remove (merge_Less lf) (e' # es) 0) = mset es"
      by (rule heap_Remove_mset)
    ultimately show ?thesis
      using e' oks Nil mset_eq_setD [OF m] by (simp add: merge_inv_def)
  next
    case (Cons y ys)
    then obtain st' where st': "next_stream (entry_stream e) = Inr (Some y, st')"
      "ok_entry \<lparr>entry_stream = st', entry_value = Some y\<rparr>"
      "entry_items \<lparr>entry_stream = st', entry_value = Some y\<rparr> = y # ys"
      using entry_of_stream x(3-5) by blast
    define e' where "e' = \<lparr>entry_stream = st', entry_value = Some y\<rparr>"
    have e': "merge_Next lf (e # es) = Inr (Some x, heap_Fix (merge_Less lf) (e' # es) 0)"
      using x(1) st'(1) by (simp add: merge_Next_def entry_update_def e'_def)
    have "entries.is_heap (heap_Fix (merge_Less lf) ((e # es)[0 := e']) 0)"
      by (rule entries.heap_Fix_correct) (use heap oks st'(2) in \<open>simp_all add: e'_def\<close>)
    moreover have m: "mset (heap_Fix (merge_Less lf) (e' # es) 0) = mset (e' # es)"
      by (rule heap_Fix_mset) simp
    ultimately show ?thesis
      using e' oks Cons st'(2,3) mset_eq_setD [OF m] by (simp add: merge_inv_def e'_def)
  qed
  then show ?thesis
    using x(2) least by auto
qed

lemma drain_correct:
  "merge_inv es \<Longrightarrow> \<exists>out. drain lf es = Inr out \<and> mset out = pending es \<and> sorted_items out"
proof (induction "size (pending es)" arbitrary: es rule: less_induct)
  case less
  show ?case
  proof (cases es)
    case Nil
    then show ?thesis
      by (subst drain.simps) (simp add: merge_Next_def sorted_items_def)
  next
    case (Cons e rest)
    then obtain x es' where n: "merge_Next lf es = Inr (Some x, es')" "merge_inv es'"
      "pending es = add_mset x (pending es')" "\<forall>y \<in># pending es. ok y \<and> \<not> lf y x"
      using merge_Next_correct less.prems by metis
    then obtain out where out: "drain lf es' = Inr out" "mset out = pending es'" "sorted_items out"
      using less.hyps by (metis less_add_Suc2 add_Suc_right less_Suc_eq size_add_mset)
    have "\<forall>y \<in> set out. \<not> lf y x"
      using n(3,4) out(2) by (metis set_mset_mset union_iff add_mset_add_single)
    then show ?thesis
      using n out by (subst drain.simps) (auto simp: sorted_items_def)
  qed
qed

end

section \<open>Every item is in one place\<close>

text \<open>
  The items fed are in the current chunk, with a goroutine, in a chunk file, or lost with a
  goroutine that failed.
\<close>

definition sorter_inv :: "snappy \<Rightarrow> Options \<Rightarrow> bytes list \<Rightarrow> bytes list list \<Rightarrow> bytes multiset \<Rightarrow> ExtSorter \<Rightarrow> bool" where
  "sorter_inv sn opts fed chunks lost s \<longleftrightarrow>
     sorter_opts s = opts \<and> chunkFiles s = map (saveChunk sn opts) chunks \<and>
     (\<forall>c \<in> set chunks. sorted_wrt (\<lambda>a b. \<not> LesserFunc opts b a) c) \<and>
     mset fed = mset (currentChunk s) + mset (concat (chunking s)) + mset (concat chunks) + lost \<and>
     (failures s = [] \<longrightarrow> lost = {#}) \<and>
     sint (currentChunkSize s) = (\<Sum>item \<leftarrow> currentChunk s. int (length item) + 4) \<and>
     (currentChunk s \<noteq> [] \<longrightarrow> sint (currentChunkSize s) < sint (MaxChunkSize opts)) \<and>
     (\<forall>x \<in> set fed. fits x)"

lemma chunk_size_pos: "0 \<le> (\<Sum>item \<leftarrow> xs. int (length item) + 4)"
  by (induction xs) auto

lemma chunk_size_zero: "(\<Sum>item \<leftarrow> xs. int (length item) + 4) = 0 \<longleftrightarrow> xs = []"
  using chunk_size_pos [of "tl xs"] by (cases xs) auto

lemma sint_of_small: "0 \<le> k \<Longrightarrow> k < 2 ^ 63 \<Longrightarrow> sint (word_of_int k :: u64) = k"
  by (simp add: signed_of_int signed_take_bit_int_eq_self_iff)

lemma rotate_inv:
  assumes "sorter_opts s = opts" "chunkFiles s = map (saveChunk sn opts) chunks"
    "\<forall>c \<in> set chunks. sorted_wrt (\<lambda>a b. \<not> LesserFunc opts b a) c"
    "mset fed = mset (currentChunk s) + mset (concat (chunking s)) + mset (concat chunks) + lost"
    "failures s = [] \<longrightarrow> lost = {#}" "\<forall>x \<in> set fed. fits x"
    "sortChunkAndRotate createErr s = (s', None)"
  shows "sorter_inv sn opts fed chunks lost s'" "currentChunk s' = []"
  using assms by (auto simp: sortChunkAndRotate_def sorter_inv_def split: option.splits)

lemma Feed_inv:
  assumes inv: "sorter_inv sn opts fed chunks lost s" and feed: "Feed createErr s item = (s', None)"
    and max: "sint (MaxChunkSize opts) \<le> 2 ^ 62"
  shows "sorter_inv sn opts (fed @ [item]) chunks lost s'"
proof -
  define s1 where "s1 = s\<lparr>currentChunkSize := currentChunkSize s + of_nat (length item) + 4,
    currentChunk := currentChunk s @ [item]\<rparr>"
  note i = inv [unfolded sorter_inv_def]
  have fit: "fits item" and
    f: "(if sint (currentChunkSize s1) \<ge> sint (MaxChunkSize opts) then sortChunkAndRotate createErr s1 else (s1, None)) = (s', None)"
    using feed i by (auto simp: Feed_def s1_def Let_def split: if_splits)
  let ?k = "sint (currentChunkSize s)"
  have k: "0 \<le> ?k" "?k \<le> 2 ^ 62"
    using i max chunk_size_pos [of "currentChunk s"] by (cases "currentChunk s = []"; force)+
  have "currentChunkSize s1 = word_of_int (?k + int (length item) + 4)"
    by (simp add: s1_def)
  then have size: "sint (currentChunkSize s1) = ?k + int (length item) + 4"
    using sint_of_small [of "?k + int (length item) + 4"] k fit by simp
  show ?thesis
  proof (cases "sint (currentChunkSize s1) \<ge> sint (MaxChunkSize opts)")
    case True
    show ?thesis
      by (rule rotate_inv [where s = s1]) (use i f fit True in \<open>auto simp: s1_def\<close>)
  next
    case False
    then show ?thesis
      using i f fit size by (auto simp: sorter_inv_def s1_def)
  qed
qed

lemma mset_remove_nth:
  "i < length xs \<Longrightarrow> mset (concat xs) = mset (xs ! i) + mset (concat (remove_nth i xs))"
  by (subst id_take_nth_drop [of i xs]) (auto simp: remove_nth_def)

lemma chunk_step_inv:
  assumes "chunk_step sn s s'" "sorter_inv sn opts fed chunks lost s"
  shows "\<exists>chunks' lost'. sorter_inv sn opts fed chunks' lost' s'"
  using assms
proof cases
  case (chunk_saved i chunk)
  then have "sorter_inv sn opts fed (chunks @ [chunk]) lost s'"
    using assms(2) by (auto simp: sorter_inv_def slice_sorted_def mset_remove_nth [of i "chunking s"])
  then show ?thesis
    by blast
next
  case (chunk_failed i msg)
  then have "sorter_inv sn opts fed chunks (lost + mset (chunking s ! i)) s'"
    using assms(2) by (auto simp: sorter_inv_def mset_remove_nth [of i "chunking s"])
  then show ?thesis
    by blast
qed

lemma chunk_steps_inv:
  "(chunk_step sn)\<^sup>*\<^sup>* s s' \<Longrightarrow> \<exists>chunks lost. sorter_inv sn opts fed chunks lost s \<Longrightarrow>
   \<exists>chunks lost. sorter_inv sn opts fed chunks lost s'"
  by (induction rule: rtranclp_induct) (auto dest: chunk_step_inv)

lemma sorter_run_inv:
  "sorter_run sn opts fed s \<Longrightarrow> sint (MaxChunkSize opts) \<le> 2 ^ 62 \<Longrightarrow>
   \<exists>chunks lost. sorter_inv sn opts fed chunks lost s"
proof (induction rule: sorter_run.induct)
  case run_new
  have "sorter_inv sn opts [] [] {#} (New opts)"
    by (simp add: sorter_inv_def New_def)
  then show ?case
    by blast
next
  case (run_feed fed s createErr item s')
  then show ?case
    using Feed_inv by blast
next
  case (run_chunk fed s s')
  then show ?case
    using chunk_step_inv by blast
qed

lemma chunk_steps_keep_chunk:
  "(chunk_step sn)\<^sup>*\<^sup>* s s' \<Longrightarrow> currentChunk s' = currentChunk s"
  by (induction rule: rtranclp_induct) (auto elim!: chunk_step.cases)

lemma Finalize_begin_inv:
  assumes "sorter_inv sn opts fed chunks lost s" "Finalize_begin createErr s = (s', None)"
  shows "sorter_inv sn opts fed chunks lost s'" "currentChunk s' = []"
proof -
  note i = assms(1) [unfolded sorter_inv_def]
  have "sorter_inv sn opts fed chunks lost s' \<and> currentChunk s' = []"
  proof (cases "sint (currentChunkSize s) > 0")
    case True
    then have "sortChunkAndRotate createErr s = (s', None)"
      using assms(2) by (simp add: Finalize_begin_def)
    then show ?thesis
      using rotate_inv [of s opts sn chunks fed lost createErr s'] i by blast
  next
    case False
    then have "currentChunk s = []"
      using i chunk_size_pos [of "currentChunk s"] chunk_size_zero [of "currentChunk s"] by linarith
    then show ?thesis
      using assms False by (simp add: Finalize_begin_def)
  qed
  then show "sorter_inv sn opts fed chunks lost s'" "currentChunk s' = []"
    by auto
qed


text \<open>
  \<open>Close\<close> removes the files of the chunks that were saved only: the file of a goroutine
  that failed stays in the directory.
\<close>

abbreviation files_of :: "ExtSorter \<Rightarrow> nat" where
  "files_of s \<equiv> length (chunking s) + length (chunkFiles s) + length (failures s)"

lemma chunk_step_files: "chunk_step sn s s' \<Longrightarrow> tmpFiles s = files_of s \<Longrightarrow> tmpFiles s' = files_of s'"
  by (auto elim!: chunk_step.cases simp: remove_nth_def)

lemma sorter_run_files: "sorter_run sn opts fed s \<Longrightarrow> tmpFiles s = files_of s"
proof (induction rule: sorter_run.induct)
  case (run_feed fed s createErr item s')
  then show ?case
    by (auto simp: Feed_def sortChunkAndRotate_def Let_def split: if_splits option.splits)
qed (simp_all add: New_def chunk_step_files)

lemma Close_leaves_failed_files:
  assumes "sorter_run sn opts fed s" "Finalize_begin createErr s = (s1, None)" "(chunk_step sn)\<^sup>*\<^sup>* s1 s2" "chunking s2 = []"
  shows "tmpFiles (Close s2) = length (failures s2)"
proof -
  have "tmpFiles s1 = files_of s1"
    using assms(2) sorter_run_files [OF assms(1)]
    by (auto simp: Finalize_begin_def sortChunkAndRotate_def split: if_splits option.splits)
  with assms(3) have "tmpFiles s2 = files_of s2"
    by (induction rule: rtranclp_induct) (auto dest: chunk_step_files)
  then show ?thesis
    using assms(4) by (simp add: Close_def)
qed

context item_order
begin

text \<open>A chunk can always be sorted.\<close>

fun insert_item :: "bytes \<Rightarrow> bytes list \<Rightarrow> bytes list" where
  "insert_item x [] = [x]"
| "insert_item x (y # ys) = (if lf y x then y # insert_item x ys else x # y # ys)"

lemma insert_item_mset: "mset (insert_item x ys) = add_mset x (mset ys)"
  by (induction ys) auto

lemma insert_item_sorted:
  "ok x \<Longrightarrow> \<forall>y \<in> set ys. ok y \<Longrightarrow> sorted_items ys \<Longrightarrow> sorted_items (insert_item x ys)"
proof (induction ys)
  case (Cons y ys)
  have set: "set (insert_item x ys) = insert x (set ys)"
    using mset_eq_setD [of "insert_item x ys" "x # ys"] by (simp add: insert_item_mset)
  show ?case
  proof (cases "lf y x")
    case True
    then show ?thesis
      using Cons set asym [of y x] by (auto simp: sorted_items_def)
  next
    case False
    then have "\<not> lf z x" if "z \<in> set ys" for z
      using neg_trans [of z y x] Cons.prems that by (auto simp: sorted_items_def)
    then show ?thesis
      using False Cons.prems by (simp add: sorted_items_def)
  qed
qed (simp add: sorted_items_def)

lemma sorted_exists: "\<forall>x \<in> set xs. ok x \<Longrightarrow> \<exists>ys. slice_sorted lf xs ys"
proof (induction xs)
  case (Cons x xs)
  then obtain ys where ys: "mset ys = mset xs" "sorted_items ys"
    by (auto simp: slice_sorted_def sorted_items_def)
  then have "slice_sorted lf (x # xs) (insert_item x ys)"
    using insert_item_sorted [of x ys] Cons.prems mset_eq_setD [OF ys(1)]
    by (simp add: slice_sorted_def insert_item_mset sorted_items_def)
  then show ?case
    by blast
qed (rule exI [of _ "[]"], simp add: slice_sorted_def)

lemma goroutine_can_save:
  assumes "sorter_inv sn opts fed chunks lost s" "LesserFunc opts = lf" "\<forall>x \<in> set fed. ok x" "chunking s \<noteq> []"
  shows "\<exists>s'. chunk_step sn s s' \<and> failures s' = failures s \<and> length (chunking s') < length (chunking s)"
proof -
  have "\<forall>x \<in> set (chunking s ! 0). x \<in># mset fed"
    using assms(1,4) by (cases "chunking s") (auto simp: sorter_inv_def)
  then obtain chunk where "slice_sorted lf (chunking s ! 0) chunk"
    using sorted_exists [of "chunking s ! 0"] assms(3) by auto
  then show ?thesis
    using chunk_saved [of 0 s chunk sn] assms by (force simp: sorter_inv_def remove_nth_def)
qed

lemma merge_of_chunks:
  assumes "sorter_inv sn opts fed chunks lost s" "LesserFunc opts = lf" "\<forall>x \<in> set fed. ok x"
    "snappy_contract sn" "currentChunk s = []" "chunking s = []" "failures s = []"
  shows "\<exists>es out. Finalize_end sn s = Some (Inr es) \<and> drain lf es = Inr out \<and> mset out = mset fed \<and> sorted_items out"
proof -
  note i = assms(1) [unfolded sorter_inv_def]
  have m: "mset fed = mset (concat chunks)"
    using i assms(5-7) by simp
  have in_fed: "x \<in> set fed" if "c \<in> set chunks" "x \<in> set c" for c x
    using mset_eq_setD [OF m] that by auto
  have "yields (open_stream sn opts (saveChunk sn opts c)) c" if "c \<in> set chunks" for c
    using chunk_yields [OF assms(4)] in_fed [OF that] i by blast
  then have y: "list_all2 yields (map (open_stream sn opts) (chunkFiles s)) chunks"
    using i by (simp add: list_all2_conv_all_nth)
  have "\<exists>es. NewMultiWayMerge (map (open_stream sn opts) (chunkFiles s)) lf = Inr es \<and> merge_inv es \<and> pending es = mset (concat chunks)"
    by (rule NewMultiWayMerge_correct [OF y]) (use i assms(2,3) in_fed in \<open>auto simp: sorted_items_def\<close>)
  then obtain es where es: "NewMultiWayMerge (map (open_stream sn opts) (chunkFiles s)) lf = Inr es"
    "merge_inv es" "pending es = mset fed"
    using m by auto
  then show ?thesis
    using drain_correct [OF es(2)] i assms(2,6,7) by (auto simp: Finalize_end_def)
qed

end

section \<open>The sorter sorts\<close>

text \<open>
  C33: whatever the chunk size, the encodings, the interleaving of the input loop with the
  goroutines and the permutations \<open>sort.Slice\<close> chooses: \<open>Finalize\<close> waits only as long as a
  goroutine that can save its chunk still runs, it fails exactly when a goroutine failed,
  and otherwise the merge yields all items that were fed, each as often as it was fed, in
  an order in which no item is before a smaller one. The comparison is a strict weak
  order on the items, and the chunk size at most \<open>2^62\<close>, so that the size of a chunk does
  not wrap around.
\<close>

theorem sorter_sorts:
  assumes "weak_order (LesserFunc opts) ok" "\<forall>x \<in> set fed. ok x" "snappy_contract sn"
    "sint (MaxChunkSize opts) \<le> 2 ^ 62" "sorter_run sn opts fed s"
    "Finalize_begin createErr s = (s1, None)" "(chunk_step sn)\<^sup>*\<^sup>* s1 s2"
  shows "case Finalize_end sn s2 of
      None \<Rightarrow> \<exists>s3. chunk_step sn s2 s3 \<and> failures s3 = failures s2 \<and> length (chunking s3) < length (chunking s2)
    | Some (Inl err) \<Rightarrow> failures s2 \<noteq> []
    | Some (Inr es) \<Rightarrow> failures s2 = [] \<and> (\<exists>out. drain (LesserFunc opts) es = Inr out \<and>
        mset out = mset fed \<and> sorted_wrt (\<lambda>a b. \<not> LesserFunc opts b a) out)"
proof -
  have order: "item_order (LesserFunc opts) ok"
    using assms(1) by (simp add: item_order_def)
  obtain chunks0 lost0 where "sorter_inv sn opts fed chunks0 lost0 s"
    using sorter_run_inv [OF assms(5,4)] by blast
  then have "sorter_inv sn opts fed chunks0 lost0 s1" "currentChunk s1 = []"
    using Finalize_begin_inv [OF _ assms(6)] by auto
  then obtain chunks lost where inv: "sorter_inv sn opts fed chunks lost s2" "currentChunk s2 = []"
    using chunk_steps_inv [OF assms(7)] chunk_steps_keep_chunk [OF assms(7)] by metis
  show ?thesis
    using item_order.goroutine_can_save [OF order inv(1) refl assms(2)]
      item_order.merge_of_chunks [OF order inv(1) refl assms(2,3) inv(2)] inv(1)
    unfolding item_order.sorted_items_def [OF order]
    by (cases "chunking s2 = []"; cases "failures s2 = []") (auto simp: Finalize_end_def sorter_inv_def)
qed


text \<open>A run with two chunks, a framing codec in place of snappy, and the byte order.\<close>

definition bytes_less :: "bytes \<Rightarrow> bytes \<Rightarrow> bool" where
  "bytes_less a b \<longleftrightarrow> bytes_compare a b = -1"

interpretation bytewise: item_order bytes_less "\<lambda>_. True"
  by unfold_locales (auto simp: bytes_less_def)

definition example_snappy :: snappy where
  "example_snappy = \<lparr>compress = (#) 0xff, decompress = tl\<rparr>"

definition example_options :: Options where
  "example_options = \<lparr>DeltaEncoding = True, SnappyCompression = True, MaxChunkSize = 10, LesserFunc = bytes_less\<rparr>"

definition example_file :: "bytes list \<Rightarrow> bytes" where
  "example_file = saveChunk example_snappy example_options"

definition example_sorter :: "bytes list \<Rightarrow> u64 \<Rightarrow> bytes list list \<Rightarrow> bytes list \<Rightarrow> ExtSorter" where
  "example_sorter chunk n running files = \<lparr>sorter_opts = example_options, currentChunk = chunk,
     currentChunkSize = n, chunking = running, chunkFiles = files, failures = [],
     tmpFiles = length running + length files\<rparr>"

lemmas example_defs = example_sorter_def example_options_def New_def Feed_def sortChunkAndRotate_def
  Finalize_begin_def Let_def

lemma example_run:
  "sorter_run example_snappy example_options [[2], [1, 7], [1]] (example_sorter [[1]] 5 [[[2], [1, 7]]] [])"
proof -
  let ?run = "sorter_run example_snappy example_options"
  have "?run [] (New example_options)"
    by (rule run_new)
  then have "?run ([] @ [[2]]) (example_sorter [[2]] 5 [] [])"
    by (rule run_feed [where createErr = None]) (simp add: example_defs)
  then have "?run (([] @ [[2]]) @ [[1, 7]]) (example_sorter [] 0 [[[2], [1, 7]]] [])"
    by (rule run_feed [where createErr = None]) (simp add: example_defs)
  then have "?run ((([] @ [[2]]) @ [[1, 7]]) @ [[1]]) (example_sorter [[1]] 5 [[[2], [1, 7]]] [])"
    by (rule run_feed [where createErr = None]) (simp add: example_defs)
  then show ?thesis
    by simp
qed

text \<open>The goroutines end in the order opposite to that of their start.\<close>

lemma example_steps:
  "(chunk_step example_snappy)\<^sup>*\<^sup>* (example_sorter [] 0 [[[2], [1, 7]], [[1]]] [])
     (example_sorter [] 0 [] [example_file [[1]], example_file [[1, 7], [2]]])"
proof -
  let ?step = "chunk_step example_snappy"
  have "?step (example_sorter [] 0 [[[2], [1, 7]], [[1]]] []) (example_sorter [] 0 [[[2], [1, 7]]] [example_file [[1]]])"
    using chunk_saved [of 1 "example_sorter [] 0 [[[2], [1, 7]], [[1]]] []" "[[1]]" example_snappy]
    by (simp add: example_sorter_def example_options_def slice_sorted_def remove_nth_def example_file_def)
  moreover have "?step (example_sorter [] 0 [[[2], [1, 7]]] [example_file [[1]]])
      (example_sorter [] 0 [] [example_file [[1]], example_file [[1, 7], [2]]])"
    using chunk_saved [of 0 "example_sorter [] 0 [[[2], [1, 7]]] [example_file [[1]]]" "[[1, 7], [2]]" example_snappy]
    by (simp add: example_sorter_def example_options_def slice_sorted_def remove_nth_def example_file_def
        bytes_less_def add_mset_commute)
  ultimately show ?thesis
    by (rule converse_rtranclp_into_rtranclp [OF _ r_into_rtranclp])
qed

theorem sorter_sorts_witness:
  "\<exists>es out. Finalize_end example_snappy (example_sorter [] 0 [] [example_file [[1]], example_file [[1, 7], [2]]]) = Some (Inr es) \<and>
     drain bytes_less es = Inr out \<and> mset out = mset [[2], [1, 7], [1]] \<and> sorted_wrt (\<lambda>a b. \<not> bytes_less b a) out"
proof -
  have "weak_order (LesserFunc example_options) (\<lambda>_. True)"
    using bytewise.weak_order_axioms by (simp add: example_options_def)
  moreover have "snappy_contract example_snappy" "sint (MaxChunkSize example_options) \<le> 2 ^ 62"
    by (simp_all add: snappy_contract_def example_snappy_def example_options_def)
  moreover have "Finalize_begin None (example_sorter [[1]] 5 [[[2], [1, 7]]] []) = (example_sorter [] 0 [[[2], [1, 7]], [[1]]] [], None)"
    by (simp add: example_defs)
  ultimately show ?thesis
    using sorter_sorts [OF _ _ _ _ example_run _ example_steps, of "\<lambda>_. True" None]
    by (auto simp: Finalize_end_def example_sorter_def example_options_def split: sum.splits)
qed

text \<open>
  C34: with and without delta encoding and compression, the stream opened on the file of
  a chunk yields exactly the items of the chunk in their order, and then its end. Items
  are shorter than \<open>2^32\<close> bytes, as \<open>Feed\<close> demands; they need not be sorted.
\<close>

theorem chunk_file_round_trip:
  assumes "snappy_contract sn" "\<forall>item \<in> set chunk. fits item"
  shows "yields (open_stream sn opts (saveChunk sn opts chunk)) chunk"
  using assms by (rule chunk_yields)

theorem chunk_file_round_trip_witness:
  "yields (open_stream example_snappy example_options (example_file [[1, 7], [1, 7, 3], [], [2]])) [[1, 7], [1, 7, 3], [], [2]] \<and>
   example_file [[1, 7], [1, 7, 3], [], [2]] = [0xff, 0, 2, 1, 7, 2, 1, 3, 0, 0, 0, 1, 2]"
proof
  show "yields (open_stream example_snappy example_options (example_file [[1, 7], [1, 7, 3], [], [2]])) [[1, 7], [1, 7, 3], [], [2]]"
    unfolding example_file_def
    by (rule chunk_file_round_trip) (simp_all add: snappy_contract_def example_snappy_def)
  show "example_file [[1, 7], [1, 7, 3], [], [2]] = [0xff, 0, 2, 1, 7, 2, 1, 3, 0, 0, 0, 1, 2]"
    by (simp add: example_file_def saveChunk_def example_options_def example_snappy_def
        DeltaEncoder_Write_def Let_def putUvarint_small)
qed

end
