(* ===== verification/Change_Set_File.thy ===== *)
theory Change_Set_File
  imports Kv_Store Protobuf Ext_Sort "HOL-Library.Sublist"
begin

text \<open>
  The change set files of \<open>versiondb/client/changeset.go\<close>: writing a version, reading it
  with or without its payload, and iterating over a file. A reader is the bytes it has
  not read yet. A count of bytes of a file (\<open>offset\<close>, \<open>lastCompleteOffset\<close>) is an \<open>int\<close>: no
  file has \<open>2^63\<close> bytes; a version and the size in a header are words. A missing value
  (nil) is \<open>None\<close>.
\<close>

section \<open>Pairs\<close>

definition uvarintSize :: "u64 \<Rightarrow> nat" where
  "uvarintSize num =
     (let b = bits_Len64 num; q = b div 7; r = b mod 7 in if r > 0 \<or> q = 0 then q + 1 else q)"

definition encodedSizeOfKVPair :: "kv_pair \<Rightarrow> nat" where
  "encodedSizeOfKVPair pair =
     (let keyLen = length (kv_key pair); sz = 1 + uvarintSize (of_nat keyLen) + keyLen in
      if kv_delete pair then sz
      else let valueLen = length (kv_bytes pair) in sz + uvarintSize (of_nat valueLen) + valueLen)"

text \<open>\<open>copy(buf[offset:], src)\<close>, and \<open>PutUvarint(buf[offset:], x)\<close> with the offset after it.\<close>

definition copy_at :: "bytes \<Rightarrow> nat \<Rightarrow> bytes \<Rightarrow> bytes" where
  "copy_at buf offset src = take offset buf @ take (length buf - offset) src @ drop (offset + length src) buf"

definition PutUvarint_at :: "bytes \<Rightarrow> nat \<Rightarrow> u64 \<Rightarrow> (bytes \<times> nat) res" where
  "PutUvarint_at buf offset x =
     (let bz = putUvarint x in
      if offset + length bz \<le> length buf then Inr (copy_at buf offset bz, offset + length bz)
      else Inl (Panic ''index out of range''))"

definition encodeKVPair :: "kv_pair \<Rightarrow> bytes res" where
  "encodeKVPair pair =
     (let buf = replicate (encodedSizeOfKVPair pair) 0; keyLen = length (kv_key pair) in
      bind_res (PutUvarint_at buf 1 (of_nat keyLen)) (\<lambda>(buf, offset).
      let buf = copy_at buf offset (kv_key pair) in
      if kv_delete pair then Inr (buf[0 := 1])
      else
        bind_res (PutUvarint_at buf (offset + keyLen) (of_nat (length (kv_bytes pair)))) (\<lambda>(buf, offset).
        Inr (copy_at buf offset (kv_bytes pair)))))"

definition readByte :: "bytes \<Rightarrow> (u8 \<times> bytes) res" where
  "readByte r = (case r of [] \<Rightarrow> Inl io_EOF | b # r' \<Rightarrow> Inr (b, r'))"

text \<open>A length, and that many bytes.\<close>

definition readBytes :: "bytes \<Rightarrow> (bytes \<times> bytes) res" where
  "readBytes r =
     bind_res (readUvarint r) (\<lambda>(len, r). bind_res (make_bytes len) (\<lambda>n. readFull r n))"

definition readKVPair :: "bytes \<Rightarrow> (kv_pair \<times> bytes) res" where
  "readKVPair r =
     bind_res (readByte r) (\<lambda>(deletion, r).
     bind_res (readBytes r) (\<lambda>(key, r).
     if deletion = 1 then Inr (\<lparr>kv_delete = True, kv_key = key, kv_value = None\<rparr>, r)
     else bind_res (readBytes r) (\<lambda>(val, r).
       Inr (\<lparr>kv_delete = False, kv_key = key, kv_value = Some val\<rparr>, r))))"

section \<open>Versions\<close>

fun encode_pairs :: "kv_pair list \<Rightarrow> bytes list res" where
  "encode_pairs [] = Inr []"
| "encode_pairs (p # ps) = bind_res (encodeKVPair p) (\<lambda>buf. map_res ((#) buf) (encode_pairs ps))"

definition WriteChangeSet :: "u64 \<Rightarrow> kv_pair list \<Rightarrow> bytes res" where
  "WriteChangeSet version cs =
     bind_res (encode_pairs cs) (\<lambda>items.
       let sz = sum_list (map length items) in
       Inr (le_put64 version @ le_put64 (of_nat sz) @ concat items))"

lemma readByte_consumes: "readByte r = Inr (b, r') \<Longrightarrow> length r' < length r"
  by (auto simp: readByte_def split: list.splits)

lemma readBytes_consumes: "readBytes r = Inr (bz, r') \<Longrightarrow> length r' < length r"
  by (fastforce simp: readBytes_def bind_res_Inr dest!: readUvarint_consumes readFull_length)

lemma readKVPair_consumes: "readKVPair r = Inr (p, r') \<Longrightarrow> length r' < length r"
  by (fastforce simp: readKVPair_def bind_res_Inr dest!: readByte_consumes readBytes_consumes split: if_splits)

text \<open>The loop over the payload: the pairs, the offset after the last one and the rest.\<close>

function read_payload :: "int \<Rightarrow> int \<Rightarrow> bytes \<Rightarrow> (kv_pair list \<times> int \<times> bytes) res" where
  "read_payload offset sz r =
     (if offset < sz then
        case readKVPair r of
          Inl err \<Rightarrow> Inl err
        | Inr (pair, r') \<Rightarrow>
            map_res (\<lambda>(pairs, offset, r). (pair # pairs, offset, r))
              (read_payload (offset + int (encodedSizeOfKVPair pair)) sz r')
      else Inr ([], offset, r))"
  by auto
termination
  by (relation "measure (\<lambda>(offset, sz, r). length r)") (auto dest: readKVPair_consumes)

declare read_payload.simps [simp del]

text \<open>
  \<open>io.CopyN(io.Discard, reader, n)\<close>: the end of the file before \<open>n\<close> bytes is \<open>io.EOF\<close>; nothing
  is read for a negative \<open>n\<close>.
\<close>

definition discardN :: "int \<Rightarrow> bytes \<Rightarrow> bytes res" where
  "discardN n r = (if n \<le> int (length r) then Inr (drop (nat n) r) else Inl io_EOF)"

text \<open>\<open>ReadChangeSet\<close>: version, number of bytes, change set and the rest of the reader.\<close>

definition ReadChangeSet :: "bytes \<Rightarrow> bool \<Rightarrow> (u64 \<times> int \<times> kv_pair list \<times> bytes) res" where
  "ReadChangeSet r parseChangeset =
     bind_res (readFull r 16) (\<lambda>(versionHeader, r).
       let version = the (le_uint64 (take 8 versionHeader));
           sz = sint (the (le_uint64 (drop 8 versionHeader))) in
       if sz = 0 then Inr (version, 16, [], r)
       else if parseChangeset then
         bind_res (read_payload 0 sz r) (\<lambda>(pairs, offset, r).
           if offset \<noteq> sz then Inl (Error ''read beyond payload size limit'')
           else Inr (version, sz + 16, pairs, r))
       else bind_res (discardN sz r) (\<lambda>r. Inr (version, sz + 16, [], r)))"

section \<open>Files\<close>

lemma read_payload_length: "read_payload offset sz r = Inr (ps, o', r') \<Longrightarrow> length r' \<le> length r"
proof (induction offset sz r arbitrary: ps o' r' rule: read_payload.induct)
  case (1 offset sz r)
  show ?case
  proof (cases "offset < sz \<and> (\<exists>p r1. readKVPair r = Inr (p, r1))")
    case True
    then obtain p r1 where p: "readKVPair r = Inr (p, r1)"
      by blast
    with True 1(2) obtain ps1 o1 r2 where "read_payload (offset + int (encodedSizeOfKVPair p)) sz r1 = Inr (ps1, o1, r2)" "r' = r2"
      by (auto simp: read_payload.simps [of offset] bind_res_Inr)
    then show ?thesis
      using 1(1) [OF _ p refl] True readKVPair_consumes [OF p] by fastforce
  next
    case False
    then show ?thesis
      using 1(2) by (auto simp: read_payload.simps [of offset] split: if_splits sum.splits)
  qed
qed

lemma ReadChangeSet_consumes: "ReadChangeSet r b = Inr (v, n, cs, r') \<Longrightarrow> length r' < length r"
  by (fastforce simp: ReadChangeSet_def bind_res_Inr Let_def readFull_def discardN_def
      dest: read_payload_length split: if_splits)

text \<open>
  \<open>IterateChangeSets\<close> and \<open>IterateVersions\<close>, with the state \<open>s\<close> of the closure \<open>fn\<close>: the state, the
  last complete offset and the error. \<open>fn\<close> tells whether to continue. An \<open>io.EOF\<close> is not
  reported, wherever it comes from.
\<close>

definition iterate_err :: "go_err \<Rightarrow> go_err option" where
  "iterate_err err = (if err = io_EOF then None else Some err)"

function IterateChangeSets :: "('s \<Rightarrow> u64 \<Rightarrow> kv_pair list \<Rightarrow> 's \<times> bool res) \<Rightarrow> 's \<Rightarrow> int \<Rightarrow> bytes \<Rightarrow> 's \<times> int \<times> go_err option" where
  "IterateChangeSets fn s lastCompleteOffset r =
     (case ReadChangeSet r True of
        Inl err \<Rightarrow> (s, lastCompleteOffset, iterate_err err)
      | Inr (version, offset, changeSet, r') \<Rightarrow>
          (case fn s version changeSet of
             (s, Inl err) \<Rightarrow> (s, lastCompleteOffset, iterate_err err)
           | (s, Inr cont) \<Rightarrow>
               if cont then IterateChangeSets fn s (lastCompleteOffset + offset) r'
               else (s, lastCompleteOffset + offset, None)))"
  by auto
termination
  by (relation "measure (\<lambda>(fn, s, o', r). length r)") (auto dest: ReadChangeSet_consumes)

function IterateVersions :: "('s \<Rightarrow> u64 \<Rightarrow> 's \<times> bool res) \<Rightarrow> 's \<Rightarrow> int \<Rightarrow> bytes \<Rightarrow> 's \<times> int \<times> go_err option" where
  "IterateVersions fn s lastCompleteOffset r =
     (case ReadChangeSet r False of
        Inl err \<Rightarrow> (s, lastCompleteOffset, iterate_err err)
      | Inr (version, offset, _, r') \<Rightarrow>
          (case fn s version of
             (s, Inl err) \<Rightarrow> (s, lastCompleteOffset, iterate_err err)
           | (s, Inr cont) \<Rightarrow>
               if cont then IterateVersions fn s (lastCompleteOffset + offset) r'
               else (s, lastCompleteOffset + offset, None)))"
  by auto
termination
  by (relation "measure (\<lambda>(fn, s, o', r). length r)") (auto dest: ReadChangeSet_consumes)

declare IterateChangeSets.simps [simp del] IterateVersions.simps [simp del]


text \<open>
  Opening a file: its directory, the standard input, and the two decompressors, which are
  parameters.
\<close>

record file_env =
  env_files :: "string \<rightharpoonup> bytes"
  env_stdin :: bytes
  env_zlib :: "bytes \<Rightarrow> bytes res"
  env_snappy :: snappy

definition openChangeSetFile :: "file_env \<Rightarrow> string \<Rightarrow> bytes res" where
  "openChangeSetFile env fileName =
     (if fileName = ''-'' then Inr (env_stdin env)
      else case env_files env fileName of
        None \<Rightarrow> Inl (Error ''no such file or directory'')
      | Some fp \<Rightarrow>
          if suffix ''.zz'' fileName then env_zlib env fp
          else if suffix ''.snappy'' fileName then Inr (decompress (env_snappy env) fp)
          else Inr fp)"

definition ReadFirstVersion :: "file_env \<Rightarrow> string \<Rightarrow> u64 res" where
  "ReadFirstVersion env fileName =
     bind_res (openChangeSetFile env fileName) (\<lambda>fp.
     bind_res (readFull fp 8) (\<lambda>(versionBuf, _). Inr (the (le_uint64 versionBuf))))"

fun first_versions :: "file_env \<Rightarrow> string list \<Rightarrow> (string \<times> u64) list res" where
  "first_versions env [] = Inr []"
| "first_versions env (fileName # files) =
     (case ReadFirstVersion env fileName of
        Inl err \<Rightarrow> if err = io_EOF then first_versions env files else Inl err
      | Inr version \<Rightarrow> map_res ((#) (fileName, version)) (first_versions env files))"

text \<open>
  \<open>SortFilesByFirstVerson\<close>: the non-empty files in some order that is sorted by first version;
  \<open>sort.Slice\<close> leaves open how it orders files with the same one.
\<close>

definition SortFilesByFirstVerson :: "file_env \<Rightarrow> string list \<Rightarrow> (string \<times> u64) list res \<Rightarrow> bool" where
  "SortFilesByFirstVerson env files result =
     (case first_versions env files of
        Inl err \<Rightarrow> result = Inl err
      | Inr nonEmptyFiles \<Rightarrow>
          (case result of Inl err \<Rightarrow> False
           | Inr xs \<Rightarrow> mset xs = mset nonEmptyFiles \<and> sorted (map snd xs)))"

section \<open>Pairs are read back\<close>

text \<open>The bytes of a pair, and what is read from them.\<close>

definition sized :: "bytes \<Rightarrow> bytes" where
  "sized bz = putUvarint (of_nat (length bz)) @ bz"

definition pair_bytes :: "kv_pair \<Rightarrow> bytes" where
  "pair_bytes p = (if kv_delete p then 1 # sized (kv_key p) else 0 # sized (kv_key p) @ sized (kv_bytes p))"

definition norm_kv :: "kv_pair \<Rightarrow> kv_pair" where
  "norm_kv p = (if kv_delete p then p\<lparr>kv_value := None\<rparr> else p\<lparr>kv_value := Some (kv_bytes p)\<rparr>)"

definition pairs_bytes :: "kv_pair list \<Rightarrow> bytes" where
  "pairs_bytes ps = concat (map pair_bytes ps)"

abbreviation pair_fits :: "kv_pair \<Rightarrow> bool" where
  "pair_fits p \<equiv> length (kv_key p) \<le> 2 ^ 48 \<and> length (kv_bytes p) \<le> 2 ^ 48"

lemma ceil_div_7: "b \<noteq> 0 \<Longrightarrow> (if b mod 7 > 0 \<or> b div 7 = 0 then b div 7 + 1 else b div 7) = (b + 6) div (7 :: nat)"
proof -
  assume b: "b \<noteq> 0"
  have "(b + 6) div 7 = ((b mod 7 + 6) + 7 * (b div 7)) div 7"
    by (metis add.assoc add.commute mult.commute div_mult_mod_eq)
  also have "\<dots> = b div 7 + (b mod 7 + 6) div 7"
    by (subst div_mult_self2) simp_all
  also have "(b mod 7 + 6) div 7 = (if b mod 7 > 0 then 1 else 0)"
    using mod_less_divisor [of 7 b] by (auto simp: div_if)
  finally show ?thesis
    using b by auto
qed

lemma uvarintSize_correct: "uvarintSize x = length (putUvarint x)"
proof (cases "x = 0")
  case True
  then show ?thesis
    by (simp add: uvarintSize_def bits_Len64.simps [of 0] putUvarint_small)
next
  case False
  then have "bits_Len64 x \<noteq> 0"
    by (simp add: bits_Len64.simps [of x])
  then show ?thesis
    using False ceil_div_7 [of "bits_Len64 x"]
    by (simp add: uvarintSize_def Let_def length_putUvarint_sov sov_def bits_Len64_or1)
qed

lemma copy_at_middle:
  "length b = length src \<Longrightarrow> n = length a \<Longrightarrow> copy_at (a @ b @ c) n src = a @ src @ c"
  by (simp add: copy_at_def)

lemma PutUvarint_at_middle:
  "length b = length (putUvarint x) \<Longrightarrow> n = length a \<Longrightarrow>
   PutUvarint_at (a @ b @ c) n x = Inr (a @ putUvarint x @ c, n + length (putUvarint x))"
  by (simp add: PutUvarint_at_def copy_at_middle Let_def)

lemma encodeKVPair_correct: "encodeKVPair p = Inr (pair_bytes p)"
proof -
  let ?k = "kv_key p" and ?v = "kv_bytes p"
  let ?uk = "putUvarint (of_nat (length ?k))" and ?uv = "putUvarint (of_nat (length ?v))"
  let ?z = "\<lambda>n. replicate n (0 :: u8)"
  define tail where "tail = (if kv_delete p then [] else ?z (length ?uv) @ ?z (length ?v))"
  have buf: "?z (encodedSizeOfKVPair p) = [0] @ ?z (length ?uk) @ ?z (length ?k) @ tail"
    by (simp add: encodedSizeOfKVPair_def Let_def uvarintSize_correct tail_def replicate_add)
  have put: "PutUvarint_at (?z (encodedSizeOfKVPair p)) 1 (of_nat (length ?k)) = Inr ([0] @ ?uk @ ?z (length ?k) @ tail, 1 + length ?uk)"
    unfolding buf by (rule PutUvarint_at_middle) simp_all
  have key: "copy_at ([0] @ ?uk @ ?z (length ?k) @ tail) (1 + length ?uk) ?k = [0] @ ?uk @ ?k @ tail"
    using copy_at_middle [of "?z (length ?k)" ?k "1 + length ?uk" "[0] @ ?uk" tail] by simp
  show ?thesis
  proof (cases "kv_delete p")
    case True
    then show ?thesis
      using put key by (simp add: encodeKVPair_def pair_bytes_def sized_def tail_def Let_def)
  next
    case False
    have val: "PutUvarint_at ([0] @ ?uk @ ?k @ tail) (1 + length ?uk + length ?k) (of_nat (length ?v)) =
        Inr ([0] @ ?uk @ ?k @ ?uv @ ?z (length ?v), 1 + length ?uk + length ?k + length ?uv)"
      using PutUvarint_at_middle [of "?z (length ?uv)" "of_nat (length ?v)" "1 + length ?uk + length ?k" "[0] @ ?uk @ ?k" "?z (length ?v)"]
        False by (simp add: tail_def)
    have "copy_at ([0] @ ?uk @ ?k @ ?uv @ ?z (length ?v)) (1 + length ?uk + length ?k + length ?uv) ?v = [0] @ ?uk @ ?k @ ?uv @ ?v"
      using copy_at_middle [of "?z (length ?v)" ?v "1 + length ?uk + length ?k + length ?uv" "[0] @ ?uk @ ?k @ ?uv" "[]"]
      by simp
    then show ?thesis
      using False put key val by (simp add: encodeKVPair_def pair_bytes_def sized_def Let_def)
  qed
qed

lemma encodedSize_norm: "encodedSizeOfKVPair (norm_kv p) = length (pair_bytes p)"
  by (simp add: encodedSizeOfKVPair_def norm_kv_def pair_bytes_def sized_def uvarintSize_correct Let_def)

lemma readBytes_sized: "length bz \<le> 2 ^ 48 \<Longrightarrow> readBytes (sized bz @ rest) = Inr (bz, rest)"
  by (simp add: readBytes_def sized_def readUvarint_put make_bytes_def readFull_def unat_of_nat_less)

lemma readKVPair_bytes: "pair_fits p \<Longrightarrow> readKVPair (pair_bytes p @ rest) = Inr (norm_kv p, rest)"
  by (cases p) (simp add: readKVPair_def pair_bytes_def readByte_def readBytes_sized norm_kv_def)

lemma pairs_bytes_simps [simp]: "pairs_bytes [] = []" "pairs_bytes (p # ps) = pair_bytes p @ pairs_bytes ps"
  by (simp_all add: pairs_bytes_def)

lemma pair_bytes_pos: "0 < int (length (pair_bytes p)) + int n"
  by (simp add: pair_bytes_def)

lemma read_payload_bytes:
  "\<forall>p \<in> set ps. pair_fits p \<Longrightarrow>
   read_payload offset (offset + int (length (pairs_bytes ps))) (pairs_bytes ps @ rest) =
     Inr (map norm_kv ps, offset + int (length (pairs_bytes ps)), rest)"
proof (induction ps arbitrary: offset)
  case Nil
  then show ?case
    by (simp add: read_payload.simps)
next
  case (Cons p ps)
  show ?case
    using Cons.IH [of "offset + int (length (pair_bytes p))"] Cons.prems pair_bytes_pos [of p "length (pairs_bytes ps)"]
    by (subst read_payload.simps) (simp add: readKVPair_bytes encodedSize_norm add.assoc)
qed

section \<open>Truncated pairs\<close>

definition short_read :: "go_err \<Rightarrow> bool" where
  "short_read err \<longleftrightarrow> err = io_EOF \<or> err = io_ErrUnexpectedEOF"

definition fails_short :: "'a res \<Rightarrow> bool" where
  "fails_short x \<longleftrightarrow> (case x of Inl err \<Rightarrow> short_read err | Inr _ \<Rightarrow> False)"

lemma fails_short_bind [simp]: "fails_short x \<Longrightarrow> fails_short (bind_res x f)"
  by (cases x) (simp_all add: fails_short_def)

lemma take_append_cases:
  "n < length (a @ b) \<Longrightarrow> n < length a \<and> take n (a @ b) = take n a \<or>
   length a \<le> n \<and> n - length a < length b \<and> take n (a @ b) = a @ take (n - length a) b"
  by auto

lemma readFull_short: "length r < n \<Longrightarrow> fails_short (readFull r n)"
  by (simp add: fails_short_def readFull_def short_read_def)

lemma high_bits_short:
  "\<forall>b \<in> set bs. \<not> b < 0x80 \<Longrightarrow> i + length bs < 10 \<Longrightarrow> fails_short (readUvarint_loop i x s bs)"
  by (induction i x s bs rule: readUvarint_loop.induct)
    (auto simp: fails_short_def short_read_def io_EOF_def io_ErrUnexpectedEOF_def)

lemma putUvarint_butlast: "b \<in> set (butlast (putUvarint x)) \<Longrightarrow> \<not> b < 0x80"
proof (induction x rule: putUvarint.induct)
  case (1 x)
  then show ?case
    by (cases "x \<ge> 0x80") (auto simp: putUvarint.simps [of x] high_bit_set split: if_splits)
qed

lemma readUvarint_short: "n < length (putUvarint x) \<Longrightarrow> fails_short (readUvarint (take n (putUvarint x)))"
proof -
  assume n: "n < length (putUvarint x)"
  have "take n (putUvarint x) = take n (butlast (putUvarint x))"
    using n by (auto simp: butlast_conv_take min_def)
  then have "\<forall>b \<in> set (take n (putUvarint x)). \<not> b < 0x80"
    using putUvarint_butlast [of _ x] set_take_subset [of n "butlast (putUvarint x)"] by auto
  then show ?thesis
    using high_bits_short [of "take n (putUvarint x)" 0] n length_putUvarint [of x]
    by (simp add: readUvarint_def)
qed

lemma readBytes_short:
  assumes "length bz \<le> 2 ^ 48" "n < length (sized bz)"
  shows "fails_short (readBytes (take n (sized bz)))"
  using take_append_cases [OF assms(2) [unfolded sized_def]] assms(1)
  by (auto simp: sized_def readBytes_def readUvarint_short readUvarint_put make_bytes_def
      unat_of_nat_less readFull_short)


lemma readKVPair_short:
  assumes "pair_fits p" "n < length (pair_bytes p)"
  shows "fails_short (readKVPair (take n (pair_bytes p)))"
proof (cases n)
  case 0
  then show ?thesis
    by (simp add: readKVPair_def readByte_def fails_short_def short_read_def)
next
  case (Suc m)
  show ?thesis
  proof (cases "kv_delete p")
    case True
    then show ?thesis
      using Suc assms readBytes_short [of "kv_key p" m]
      by (simp add: pair_bytes_def readKVPair_def readByte_def)
  next
    case False
    then have "m < length (sized (kv_key p) @ sized (kv_bytes p))"
      using Suc assms(2) by (simp add: pair_bytes_def)
    then show ?thesis
      using take_append_cases [of m "sized (kv_key p)" "sized (kv_bytes p)"] Suc False assms(1)
        readBytes_short [of "kv_key p" m] readBytes_short [of "kv_bytes p" "m - length (sized (kv_key p))"]
      by (auto simp: pair_bytes_def readKVPair_def readByte_def readBytes_sized)
  qed
qed

lemma read_payload_short:
  "\<forall>p \<in> set ps. pair_fits p \<Longrightarrow> n < length (pairs_bytes ps) \<Longrightarrow>
   fails_short (read_payload offset (offset + int (length (pairs_bytes ps))) (take n (pairs_bytes ps)))"
proof (induction ps arbitrary: offset n)
  case (Cons p ps)
  let ?rest = "pairs_bytes ps"
  note pos = pair_bytes_pos [of p]
  from take_append_cases [of n "pair_bytes p" ?rest] Cons.prems(2)
  consider "n < length (pair_bytes p)" "take n (pair_bytes p @ ?rest) = take n (pair_bytes p)"
    | "n - length (pair_bytes p) < length ?rest" "take n (pair_bytes p @ ?rest) = pair_bytes p @ take (n - length (pair_bytes p)) ?rest"
    by auto
  then show ?case
  proof cases
    case 1
    then have "fails_short (readKVPair (take n (pair_bytes p @ ?rest)))"
      using readKVPair_short [of p n] Cons.prems(1) by simp
    then show ?thesis
      using pos by (subst read_payload.simps) (auto simp: fails_short_def split: sum.splits)
  next
    case 2
    then show ?thesis
      using Cons.IH [of "n - length (pair_bytes p)" "offset + int (length (pair_bytes p))"] Cons.prems(1) pos
      by (subst read_payload.simps) (simp add: readKVPair_bytes encodedSize_norm add.assoc)
  qed
qed simp

section \<open>Versions are read back\<close>

definition set_bytes :: "u64 \<times> kv_pair list \<Rightarrow> bytes" where
  "set_bytes = (\<lambda>(v, cs). le_put64 v @ le_put64 (of_nat (length (pairs_bytes cs))) @ pairs_bytes cs)"

definition set_fits :: "u64 \<times> kv_pair list \<Rightarrow> bool" where
  "set_fits = (\<lambda>(v, cs). (\<forall>p \<in> set cs. pair_fits p) \<and> sum_list (map encodedSizeOfKVPair cs) < 2 ^ 63)"

lemma encodedSize_bytes: "encodedSizeOfKVPair p = length (pair_bytes p)"
  by (simp add: encodedSizeOfKVPair_def pair_bytes_def sized_def uvarintSize_correct Let_def)

lemma WriteChangeSet_correct: "WriteChangeSet v cs = Inr (set_bytes (v, cs))"
proof -
  have "encode_pairs cs = Inr (map pair_bytes cs)"
    by (induction cs) (simp_all add: encodeKVPair_correct)
  then show ?thesis
    by (simp add: WriteChangeSet_def set_bytes_def Let_def length_concat pairs_bytes_def)
qed

lemma sint_size: "n < 2 ^ 63 \<Longrightarrow> sint (of_nat n :: u64) = int n"
  using sint_of_small [of "int n"] by simp

lemma set_fitsD:
  assumes "set_fits (v, cs)"
  shows "\<forall>p \<in> set cs. pair_fits p"
    "sint (of_nat (length (pairs_bytes cs)) :: u64) = int (length (pairs_bytes cs))"
proof -
  have "length (pairs_bytes cs) = sum_list (map encodedSizeOfKVPair cs)"
    by (induction cs) (simp_all add: encodedSize_bytes)
  then show "\<forall>p \<in> set cs. pair_fits p"
    "sint (of_nat (length (pairs_bytes cs)) :: u64) = int (length (pairs_bytes cs))"
    using assms by (auto simp: set_fits_def intro!: sint_size)
qed

lemma pairs_bytes_empty: "pairs_bytes cs = [] \<longleftrightarrow> cs = []"
  by (cases cs) (auto simp: pair_bytes_def)

lemma length_set_bytes: "length (set_bytes (v, cs)) = 16 + length (pairs_bytes cs)"
  by (simp add: set_bytes_def)

lemma ReadChangeSet_bytes:
  assumes "set_fits (v, cs)"
  shows "ReadChangeSet (set_bytes (v, cs) @ rest) parse =
    Inr (v, int (length (set_bytes (v, cs))), if parse then map norm_kv cs else [], rest)"
proof -
  note fits = set_fitsD [OF assms]
  have read: "readFull (set_bytes (v, cs) @ rest) 16 =
      Inr (le_put64 v @ le_put64 (of_nat (length (pairs_bytes cs))), pairs_bytes cs @ rest)"
    by (simp add: readFull_def set_bytes_def)
  show ?thesis
  proof (cases "cs = []")
    case True
    then show ?thesis
      using read by (simp add: ReadChangeSet_def length_set_bytes)
  next
    case False
    then have "int (length (pairs_bytes cs)) \<noteq> 0"
      using pairs_bytes_empty by (metis length_0_conv of_nat_eq_0_iff)
    then show ?thesis
      using read fits(2) read_payload_bytes [OF fits(1), of 0 rest]
      by (simp add: ReadChangeSet_def length_set_bytes discardN_def)
  qed
qed

lemma ReadChangeSet_short:
  assumes "set_fits (v, cs)" "n < length (set_bytes (v, cs))"
  shows "fails_short (ReadChangeSet (take n (set_bytes (v, cs))) parse)"
proof (cases "n < 16")
  case True
  then show ?thesis
    by (simp add: ReadChangeSet_def readFull_short)
next
  case False
  let ?bz = "pairs_bytes cs"
  note fits = set_fitsD [OF assms(1)]
  have n: "n - 16 < length ?bz"
    using False assms(2) by (simp add: length_set_bytes)
  have "take n (set_bytes (v, cs)) = (le_put64 v @ le_put64 (of_nat (length ?bz))) @ take (n - 16) ?bz"
    using False by (simp add: set_bytes_def)
  then have read: "readFull (take n (set_bytes (v, cs))) 16 = Inr (le_put64 v @ le_put64 (of_nat (length ?bz)), take (n - 16) ?bz)"
    by (simp add: readFull_def)
  have "fails_short (discardN (int (length ?bz)) (take (n - 16) ?bz))"
    using n by (simp add: discardN_def fails_short_def short_read_def)
  moreover have "int (length ?bz) \<noteq> 0"
    using n by linarith
  ultimately show ?thesis
    using read fits(2) read_payload_short [OF fits(1) n, of 0]
    by (simp add: ReadChangeSet_def Let_def)
qed


section \<open>Iteration\<close>

text \<open>
  Both iterations repeat a read and go on with the state of the closure; on a prefix of a
  file they see the versions that are complete.
\<close>

lemma iterate_prefix:
  assumes step: "\<And>s n r. it s n r = (case rd r of Inl err \<Rightarrow> (s, n, iterate_err err) | Inr (v, k, cs, r') \<Rightarrow> it (g s v cs) (n + k) r')"
    and full: "\<And>v cs rest. set_fits (v, cs) \<Longrightarrow> rd (set_bytes (v, cs) @ rest) = Inr (v, int (length (set_bytes (v, cs))), h cs, rest)"
    and short: "\<And>v cs n. set_fits (v, cs) \<Longrightarrow> n < length (set_bytes (v, cs)) \<Longrightarrow> fails_short (rd (take n (set_bytes (v, cs))))"
    and empty: "rd [] = Inl io_EOF"
  shows "\<forall>x \<in> set sets. set_fits x \<Longrightarrow> n \<le> length (concat (map set_bytes sets)) \<Longrightarrow>
    \<exists>k err. k \<le> length sets \<and> length (concat (map set_bytes (take k sets))) \<le> n \<and>
      (k < length sets \<longrightarrow> n < length (concat (map set_bytes (take (Suc k) sets)))) \<and>
      it s m (take n (concat (map set_bytes sets))) =
        (fold (\<lambda>(v, cs) s. g s v (h cs)) (take k sets) s, m + int (length (concat (map set_bytes (take k sets)))), err) \<and>
      (err = None \<or> err = Some io_ErrUnexpectedEOF) \<and>
      (n = length (concat (map set_bytes (take k sets))) \<longrightarrow> err = None)"
proof (induction sets arbitrary: n s m)
  case Nil
  then show ?case
    using step [of s m "[]"] by (simp add: empty iterate_err_def)
next
  case (Cons x sets)
  obtain v cs where x: "x = (v, cs)"
    by (cases x)
  let ?b = "set_bytes x"
  show ?case
  proof (cases "n < length ?b")
    case True
    then have "fails_short (rd (take n (concat (map set_bytes (x # sets)))))"
      using short [of v cs n] Cons.prems(1) x by simp
    then obtain err where err: "rd (take n (concat (map set_bytes (x # sets)))) = Inl err" "short_read err"
      by (auto simp: fails_short_def split: sum.splits)
    then have it: "it s m (take n (concat (map set_bytes (x # sets)))) = (s, m, iterate_err err)"
      by (simp add: step [of s m])
    have "n = 0 \<Longrightarrow> err = io_EOF"
      using err(1) empty by simp
    then show ?thesis
      using True it err(2)
      by (intro exI [of _ 0] exI [of _ "iterate_err err"]) (auto simp: iterate_err_def short_read_def)
  next
    case False
    have t: "take n (concat (map set_bytes (x # sets))) = ?b @ take (n - length ?b) (concat (map set_bytes sets))"
      using False by simp
    have it: "it s m (take n (concat (map set_bytes (x # sets)))) =
        it (g s v (h cs)) (m + int (length ?b)) (take (n - length ?b) (concat (map set_bytes sets)))"
      unfolding t using full [of v cs] Cons.prems(1) x by (subst step) simp
    have le: "n - length ?b \<le> length (concat (map set_bytes sets))"
      using Cons.prems(2) by simp
    obtain k err where k: "k \<le> length sets" "length (concat (map set_bytes (take k sets))) \<le> n - length ?b"
        "k < length sets \<longrightarrow> n - length ?b < length (concat (map set_bytes (take (Suc k) sets)))"
        "it (g s v (h cs)) (m + int (length ?b)) (take (n - length ?b) (concat (map set_bytes sets))) =
           (fold (\<lambda>(v, cs) s. g s v (h cs)) (take k sets) (g s v (h cs)), m + int (length ?b) + int (length (concat (map set_bytes (take k sets)))), err)"
        "err = None \<or> err = Some io_ErrUnexpectedEOF"
        "n - length ?b = length (concat (map set_bytes (take k sets))) \<longrightarrow> err = None"
      using Cons.IH [OF _ le, of "g s v (h cs)" "m + int (length ?b)"] Cons.prems(1) by (auto simp: le)
    show ?thesis
      using k False x unfolding it
      by (intro exI [of _ "Suc k"] exI [of _ err]) auto
  qed
qed

lemma ReadChangeSet_empty: "ReadChangeSet [] parse = Inl io_EOF"
  by (simp add: ReadChangeSet_def readFull_def)


lemma IterateChangeSets_step:
  "IterateChangeSets (\<lambda>s v cs. (f s v cs, Inr True)) s n r =
     (case ReadChangeSet r True of Inl err \<Rightarrow> (s, n, iterate_err err)
      | Inr (v, k, cs, r') \<Rightarrow> IterateChangeSets (\<lambda>s v cs. (f s v cs, Inr True)) (f s v cs) (n + k) r')"
  by (subst IterateChangeSets.simps) (auto split: sum.splits)

lemma IterateVersions_step:
  "IterateVersions (\<lambda>s v. (f s v, Inr True)) s n r =
     (case ReadChangeSet r False of Inl err \<Rightarrow> (s, n, iterate_err err)
      | Inr (v, k, cs, r') \<Rightarrow> IterateVersions (\<lambda>s v. (f s v, Inr True)) (f s v) (n + k) r')"
  by (subst IterateVersions.simps) (auto split: sum.splits)

lemma IterateChangeSets_prefix:
  "\<forall>x \<in> set sets. set_fits x \<Longrightarrow> n \<le> length (concat (map set_bytes sets)) \<Longrightarrow>
    \<exists>k err. k \<le> length sets \<and> length (concat (map set_bytes (take k sets))) \<le> n \<and>
      (k < length sets \<longrightarrow> n < length (concat (map set_bytes (take (Suc k) sets)))) \<and>
      IterateChangeSets (\<lambda>s v cs. (f s v cs, Inr True)) s m (take n (concat (map set_bytes sets))) =
        (fold (\<lambda>(v, cs) s. f s v (map norm_kv cs)) (take k sets) s, m + int (length (concat (map set_bytes (take k sets)))), err) \<and>
      (err = None \<or> err = Some io_ErrUnexpectedEOF) \<and>
      (n = length (concat (map set_bytes (take k sets))) \<longrightarrow> err = None)"
  by (rule iterate_prefix [where it = "IterateChangeSets (\<lambda>s v cs. (f s v cs, Inr True))" and rd = "\<lambda>r. ReadChangeSet r True" and g = "f" and h = "map norm_kv"])
    (simp_all add: IterateChangeSets_step [symmetric] ReadChangeSet_bytes ReadChangeSet_short ReadChangeSet_empty)

lemma IterateVersions_prefix:
  "\<forall>x \<in> set sets. set_fits x \<Longrightarrow> n \<le> length (concat (map set_bytes sets)) \<Longrightarrow>
    \<exists>k err. k \<le> length sets \<and> length (concat (map set_bytes (take k sets))) \<le> n \<and>
      (k < length sets \<longrightarrow> n < length (concat (map set_bytes (take (Suc k) sets)))) \<and>
      IterateVersions (\<lambda>s v. (f s v, Inr True)) s m (take n (concat (map set_bytes sets))) =
        (fold (\<lambda>(v, cs) s. f s v) (take k sets) s, m + int (length (concat (map set_bytes (take k sets)))), err) \<and>
      (err = None \<or> err = Some io_ErrUnexpectedEOF) \<and>
      (n = length (concat (map set_bytes (take k sets))) \<longrightarrow> err = None)"
  by (rule iterate_prefix [where it = "IterateVersions (\<lambda>s v. (f s v, Inr True))" and rd = "\<lambda>r. ReadChangeSet r False" and g = "\<lambda>s v cs. f s v" and h = "\<lambda>_. []"])
    (simp_all add: IterateVersions_step [symmetric] ReadChangeSet_bytes ReadChangeSet_short ReadChangeSet_empty)

text \<open>The parts of a file are determined by the first offset that is beyond the prefix.\<close>

lemma complete_unique:
  assumes "k \<le> length xs" "length (concat (map f (take k xs))) \<le> n"
    "k < length xs \<longrightarrow> n < length (concat (map f (take (Suc k) xs)))"
    "k' \<le> length xs" "length (concat (map f (take k' xs))) \<le> n"
    "k' < length xs \<longrightarrow> n < length (concat (map f (take (Suc k') xs)))"
  shows "k = k'"
proof -
  have mono: "length (concat (map f (take i xs))) \<le> length (concat (map f (take j xs)))" if "i \<le> j" for i j
  proof -
    have "take j xs = take i xs @ take (j - i) (drop i xs)"
      using that by (metis le_add_diff_inverse take_add)
    then show ?thesis
      by simp
  qed
  have "\<not> k < k'"
    using assms(3-5) mono [of "Suc k" k'] by (meson Suc_leI leD le_trans less_le_trans)
  moreover have "\<not> k' < k"
    using assms(1,2,6) mono [of "Suc k'" k] by (meson Suc_leI leD le_trans less_le_trans)
  ultimately show ?thesis
    by simp
qed

text \<open>
  C35: any sequence of versions with their change sets can be written, and on every prefix
  of the file, of any length \<open>n\<close>, both iterations see the same complete versions, all that fit
  in the prefix: \<open>IterateChangeSets\<close> calls its closure with their change sets, in which a
  missing value has become the empty one, \<open>IterateVersions\<close> with their numbers. Both return the
  offset where the last complete version ends, and no other error than an unexpected end of
  the file; at the end of a version, in particular of the whole file, they return none.
\<close>

theorem change_set_file_prefix:
  assumes fits: "\<forall>x \<in> set sets. set_fits x"
  shows "\<exists>parts. map (\<lambda>(v, cs). WriteChangeSet v cs) sets = map Inr parts \<and>
    (\<forall>n. n \<le> length (concat parts) \<longrightarrow> (\<exists>k err err'.
      k \<le> length parts \<and> length (concat (take k parts)) \<le> n \<and>
      (k < length parts \<longrightarrow> n < length (concat (take (Suc k) parts))) \<and>
      IterateChangeSets (\<lambda>s v cs. (f s v cs, Inr True)) s 0 (take n (concat parts)) =
        (fold (\<lambda>(v, cs) s. f s v (map norm_kv cs)) (take k sets) s, int (length (concat (take k parts))), err) \<and>
      IterateVersions (\<lambda>s v. (g s v, Inr True)) s' 0 (take n (concat parts)) =
        (fold (\<lambda>(v, cs) s. g s v) (take k sets) s', int (length (concat (take k parts))), err') \<and>
      {err, err'} \<subseteq> {None, Some io_ErrUnexpectedEOF} \<and>
      (n = length (concat (take k parts)) \<longrightarrow> err = None \<and> err' = None)))"
proof (intro exI [of _ "map set_bytes sets"] conjI allI impI)
  show "map (\<lambda>(v, cs). WriteChangeSet v cs) sets = map Inr (map set_bytes sets)"
    by (auto simp: WriteChangeSet_correct)
  fix n assume n: "n \<le> length (concat (map set_bytes sets))"
  obtain k err where k: "k \<le> length sets" "length (concat (map set_bytes (take k sets))) \<le> n"
      "k < length sets \<longrightarrow> n < length (concat (map set_bytes (take (Suc k) sets)))"
    and change_sets: "IterateChangeSets (\<lambda>s v cs. (f s v cs, Inr True)) s 0 (take n (concat (map set_bytes sets))) =
        (fold (\<lambda>(v, cs) s. f s v (map norm_kv cs)) (take k sets) s, 0 + int (length (concat (map set_bytes (take k sets)))), err)"
      "err = None \<or> err = Some io_ErrUnexpectedEOF" "n = length (concat (map set_bytes (take k sets))) \<longrightarrow> err = None"
    using IterateChangeSets_prefix [OF fits n, of f s 0] by blast
  obtain k' err' where k': "k' \<le> length sets" "length (concat (map set_bytes (take k' sets))) \<le> n"
      "k' < length sets \<longrightarrow> n < length (concat (map set_bytes (take (Suc k') sets)))"
    and versions: "IterateVersions (\<lambda>s v. (g s v, Inr True)) s' 0 (take n (concat (map set_bytes sets))) =
        (fold (\<lambda>(v, cs) s. g s v) (take k' sets) s', 0 + int (length (concat (map set_bytes (take k' sets)))), err')"
      "err' = None \<or> err' = Some io_ErrUnexpectedEOF" "n = length (concat (map set_bytes (take k' sets))) \<longrightarrow> err' = None"
    using IterateVersions_prefix [OF fits n, of g s' 0] by blast
  have "k' = k"
    by (rule complete_unique [OF k' k])
  then show "\<exists>k err err'. k \<le> length (map set_bytes sets) \<and> length (concat (take k (map set_bytes sets))) \<le> n \<and>
      (k < length (map set_bytes sets) \<longrightarrow> n < length (concat (take (Suc k) (map set_bytes sets)))) \<and>
      IterateChangeSets (\<lambda>s v cs. (f s v cs, Inr True)) s 0 (take n (concat (map set_bytes sets))) =
        (fold (\<lambda>(v, cs) s. f s v (map norm_kv cs)) (take k sets) s, int (length (concat (take k (map set_bytes sets)))), err) \<and>
      IterateVersions (\<lambda>s v. (g s v, Inr True)) s' 0 (take n (concat (map set_bytes sets))) =
        (fold (\<lambda>(v, cs) s. g s v) (take k sets) s', int (length (concat (take k (map set_bytes sets)))), err') \<and>
      {err, err'} \<subseteq> {None, Some io_ErrUnexpectedEOF} \<and>
      (n = length (concat (take k (map set_bytes sets))) \<longrightarrow> err = None \<and> err' = None)"
    using k change_sets versions
    by (intro exI [of _ k] exI [of _ err] exI [of _ err']) (simp add: take_map)
qed


definition example_sets :: "(u64 \<times> kv_pair list) list" where
  "example_sets = [(7, [\<lparr>kv_delete = False, kv_key = [1], kv_value = Some [2]\<rparr>, \<lparr>kv_delete = True, kv_key = [3], kv_value = None\<rparr>]), (8, [])]"

lemma example_sets_fit: "\<forall>x \<in> set example_sets. set_fits x"
  by (simp add: example_sets_def set_fits_def encodedSize_bytes pair_bytes_def sized_def putUvarint_small)

theorem change_set_file_prefix_witness:
  "\<exists>parts. map (\<lambda>(v, cs). WriteChangeSet v cs) example_sets = map Inr parts \<and> length (concat parts) = 40 \<and>
     IterateVersions (\<lambda>s v. (s @ [v], Inr True)) [] 0 (take 40 (concat parts)) = ([7, 8], 40, None) \<and>
     (\<exists>err. IterateVersions (\<lambda>s v. (s @ [v], Inr True)) [] 0 (take 39 (concat parts)) = ([7], 24, err))"
proof -
  from change_set_file_prefix [OF example_sets_fit, of "\<lambda>s v cs. s" "()" "\<lambda>s v. s @ [v]" "[]"]
  show ?thesis
  proof (elim exE conjE, goal_cases)
    case (1 parts)
    note parts = 1(1) and all = 1(2)
    have p: "parts = map set_bytes example_sets"
      using parts by (auto simp: example_sets_def WriteChangeSet_correct)
    obtain a b where ab: "parts = [a, b]" "length a = 24" "length b = 16"
      by (simp add: p example_sets_def length_set_bytes pair_bytes_def sized_def putUvarint_small)
    have folds: "fold (\<lambda>(v, cs) s. s @ [v]) (take 1 example_sets) [] = [7]"
      "fold (\<lambda>(v, cs) s. s @ [v]) (take 2 example_sets) [] = [7, 8]"
      by (simp_all add: example_sets_def)
    have complete: "k = (if n < 24 then 0 else if n < 40 then 1 else 2)"
      if "k \<le> length parts" "length (concat (take k parts)) \<le> n" "k < length parts \<longrightarrow> n < length (concat (take (Suc k) parts))" for k n
    proof -
      have "k = 0 \<or> k = 1 \<or> k = 2"
        using that(1) ab(1) by auto
      then show ?thesis
        using that(2,3) ab by auto
    qed
    have len: "length (concat parts) = 40" and le39: "39 \<le> (40 :: nat)"
      using ab by simp_all
    obtain k err where k: "k \<le> length parts" "length (concat (take k parts)) \<le> 40"
        "k < length parts \<longrightarrow> 40 < length (concat (take (Suc k) parts))"
      and it: "IterateVersions (\<lambda>s v. (s @ [v], Inr True)) [] 0 (take 40 (concat parts)) =
        (fold (\<lambda>(v, cs) s. s @ [v]) (take k example_sets) [], int (length (concat (take k parts))), err)"
        "40 = length (concat (take k parts)) \<longrightarrow> err = None"
      using all [rule_format, of 40, unfolded len, OF order_refl]
      by (elim exE conjE) (rule that, assumption+, blast)
    have "k = 2"
      using complete [OF k] by simp
    then have full: "IterateVersions (\<lambda>s v. (s @ [v], Inr True)) [] 0 (take 40 (concat parts)) = ([7, 8], 40, None)"
      using it folds(2) ab by simp
    obtain j err where j: "j \<le> length parts" "length (concat (take j parts)) \<le> 39"
        "j < length parts \<longrightarrow> 39 < length (concat (take (Suc j) parts))"
      and cut: "IterateVersions (\<lambda>s v. (s @ [v], Inr True)) [] 0 (take 39 (concat parts)) =
        (fold (\<lambda>(v, cs) s. s @ [v]) (take j example_sets) [], int (length (concat (take j parts))), err)"
        "39 = length (concat (take j parts)) \<longrightarrow> err = None"
      using all [rule_format, of 39, unfolded len, OF le39]
      by (elim exE conjE) (rule that, assumption+, blast)
    have "j = 1"
      using complete [OF j] by simp
    then have "IterateVersions (\<lambda>s v. (s @ [v], Inr True)) [] 0 (take 39 (concat parts)) = ([7], 24, err)"
      using cut(1) folds(1) ab by simp
    then show ?thesis
      using parts len full by (intro exI [of _ parts]) simp
  qed
qed

end
