(* ===== verification/Hardhat_Config.thy ===== *)
theory Hardhat_Config
  imports Prelude
begin

text \<open>
  The compiler configuration of the test contracts,
  \<open>src/integration_tests/contracts/hardhat.config.ts\<close>, and the version pragmas of the contracts
  it compiles. The pragmas are read as Solidity reads them: a version, a version with a caret
  (no change of the first component that is not zero, so of the second for versions 0.x), or a
  version with a comparison.
\<close>

section \<open>The configuration\<close>

record compiler =
  comp_version :: string
  comp_optimizer :: bool
  comp_evmVersion :: "string option"

record typechain =
  tc_outDir :: string
  tc_target :: string
  tc_runOnCompile :: bool

record hardhat_config =
  compilers :: "compiler list"
  typechain_config :: typechain

definition hardhat_exports :: hardhat_config where
  "hardhat_exports =
     \<lparr>compilers =
        [\<lparr>comp_version = ''0.8.28'', comp_optimizer = True, comp_evmVersion = Some ''prague''\<rparr>,
         \<lparr>comp_version = ''0.8.21'', comp_optimizer = True, comp_evmVersion = Some ''shanghai''\<rparr>,
         \<lparr>comp_version = ''0.8.10'', comp_optimizer = True, comp_evmVersion = None\<rparr>,
         \<lparr>comp_version = ''0.6.6'', comp_optimizer = True, comp_evmVersion = None\<rparr>],
      typechain_config = \<lparr>tc_outDir = ''typechain'', tc_target = ''ethers-v5'', tc_runOnCompile = True\<rparr>\<rparr>"

section \<open>Versions and pragmas\<close>

definition digit :: "char \<Rightarrow> nat option" where
  "digit c = (let n = of_char c :: nat in if 48 \<le> n \<and> n \<le> 57 then Some (n - 48) else None)"

text \<open>A version as its components; \<open>None\<close> when a component is empty or not a number.\<close>

fun parse_components :: "nat option \<Rightarrow> string \<Rightarrow> nat list option" where
  "parse_components acc [] = map_option (\<lambda>n. [n]) acc"
| "parse_components acc (c # cs) =
     (if c = CHR ''.'' then
        (case (acc, parse_components None cs) of (Some n, Some ns) \<Rightarrow> Some (n # ns) | _ \<Rightarrow> None)
      else case digit c of
        None \<Rightarrow> None
      | Some d \<Rightarrow> parse_components (Some (10 * (case acc of None \<Rightarrow> 0 | Some n \<Rightarrow> n) + d)) cs)"

definition parse_version :: "string \<Rightarrow> nat list option" where
  "parse_version s = parse_components None s"

definition satisfies :: "string \<Rightarrow> string \<Rightarrow> bool" where
  "satisfies pragma version =
     (case parse_version version of
        None \<Rightarrow> False
      | Some v \<Rightarrow>
          (case pragma of
             [] \<Rightarrow> False
           | c # cs \<Rightarrow>
               (if c = CHR ''^'' then
                  (case parse_version cs of None \<Rightarrow> False | Some p \<Rightarrow> take 2 v = take 2 p \<and> p \<le> v)
                else if c = CHR ''>'' then
                  (case parse_version cs of None \<Rightarrow> False | Some p \<Rightarrow> p < v)
                else parse_version pragma = Some v)))"

section \<open>The pragmas of the contracts\<close>

definition pragma_CosmosToken :: string where
  "pragma_CosmosToken = ''^0.8.21''"

definition pragma_Counter :: string where
  "pragma_Counter = ''^0.8.28''"

definition pragma_CroBridge :: string where
  "pragma_CroBridge = ''^0.6.6''"

definition pragma_CronosGravityCancellation :: string where
  "pragma_CronosGravityCancellation = ''^0.6.6''"

definition pragma_Gravity :: string where
  "pragma_Gravity = ''0.8.21''"

definition pragma_Greeter :: string where
  "pragma_Greeter = ''0.8.21''"

definition pragma_ICosmosToken :: string where
  "pragma_ICosmosToken = ''0.8.21''"

definition pragma_Random :: string where
  "pragma_Random = ''^0.8.15''"

definition pragma_Simple7702Account :: string where
  "pragma_Simple7702Account = ''^0.8.28''"

definition pragma_Simple7702Counter :: string where
  "pragma_Simple7702Counter = ''^0.8.28''"

definition pragma_TestBank :: string where
  "pragma_TestBank = ''>0.6.6''"

definition pragma_TestBlackListERC20 :: string where
  "pragma_TestBlackListERC20 = ''0.8.21''"

definition pragma_TestBlockTxProperties :: string where
  "pragma_TestBlockTxProperties = ''0.8.21''"

definition pragma_TestCRC20 :: string where
  "pragma_TestCRC20 = ''0.8.21''"

definition pragma_TestCRC20Proxy :: string where
  "pragma_TestCRC20Proxy = ''^0.8.8''"

definition pragma_TestERC20A :: string where
  "pragma_TestERC20A = ''^0.8.20''"

definition pragma_TestERC20Utility :: string where
  "pragma_TestERC20Utility = ''0.8.21''"

definition pragma_TestERC21Source :: string where
  "pragma_TestERC21Source = ''0.8.21''"

definition pragma_TestICA :: string where
  "pragma_TestICA = ''^0.8.4''"

definition pragma_TestMaliciousSupply :: string where
  "pragma_TestMaliciousSupply = ''0.8.21''"

definition pragma_TestMessageCall :: string where
  "pragma_TestMessageCall = ''^0.6.6''"

definition pragma_TestRelayer :: string where
  "pragma_TestRelayer = ''^0.8.4''"

definition pragma_TestRevert :: string where
  "pragma_TestRevert = ''^0.6.6''"

definition pragma_TestSuicide :: string where
  "pragma_TestSuicide = ''^0.6.6''"

definition pragma_Utils :: string where
  "pragma_Utils = ''^0.8.20''"

definition contract_pragmas :: "string list" where
  "contract_pragmas =
     [pragma_CosmosToken, pragma_Counter, pragma_CroBridge, pragma_CronosGravityCancellation,
      pragma_Gravity, pragma_Greeter, pragma_ICosmosToken, pragma_Random,
      pragma_Simple7702Account, pragma_Simple7702Counter, pragma_TestBank, pragma_TestBlackListERC20,
      pragma_TestBlockTxProperties, pragma_TestCRC20, pragma_TestCRC20Proxy, pragma_TestERC20A,
      pragma_TestERC20Utility, pragma_TestERC21Source, pragma_TestICA, pragma_TestMaliciousSupply,
      pragma_TestMessageCall, pragma_TestRelayer, pragma_TestRevert, pragma_TestSuicide,
      pragma_Utils]"

section \<open>Every contract has a compiler\<close>


end
