(* ===== verification/Spec2Isabelle.thy ===== *)
theory Spec2Isabelle
  imports Iavl_Proof Db_Progress Wal_File Change_Set_File Hardhat_Config
begin

text \<open>
  A verification library for the storage engine of the chain under \<open>src/\<close>.

  \<^bold>\<open>The program.\<close> The repository is a Go program, a chain node whose application state is kept by the
  engine \<open>src/memiavl\<close>: an immutable snapshot of every store on disk, an in-memory AVL tree of the changes
  since, and a write-ahead log of the change sets. The only TypeScript of the repository is the
  configuration of the test contracts; the JavaScript files are minified bundles of a third-party page.

  \<^bold>\<open>Theories and sources\<close>, from the bottom up.
  \<^item> \<open>Prelude\<close>, \<open>Go_Binary\<close>, \<open>Sha256\<close>: outcomes of Go calls (\<open>'a res\<close> tells a returned error from a
    panic), \<open>bytes.Compare\<close>, slices, varints of \<open>encoding/binary\<close>, SHA-256.
  \<^item> \<open>Mem_Node\<close> (\<open>mem_node.go\<close>, \<open>node.go\<close>): nodes, rotations, \<open>setRecursive\<close>, \<open>removeRecursive\<close>, lookup by
    key and index. Insertion and removal keep order, balance, sizes and heights, never panic and
    refine update and deletion of a map; the \<open>uint8\<close> height never overflows.
  \<^item> \<open>Node_Hash\<close>: \<open>HashNode\<close>; equal root hashes mean equal trees or a SHA-256 collision.
  \<^item> \<open>Snapshot\<close>, \<open>Snapshot_Read\<close> (\<open>snapshot.go\<close>, \<open>persisted_node.go\<close>, \<open>layout_little_endian.go\<close>): the files
    byte by byte. A written snapshot opens and every persisted node reads back as the node written.
    Loading a persisted tree recursively is bounded by a depth of 256, the range of the height byte.
  \<^item> \<open>Kv_Store\<close>, \<open>Iavl_Tree\<close> (\<open>tree.go\<close>, \<open>iterator.go\<close>): the tree with its cache, change sets, iteration.
  \<^item> \<open>Iavl_Proof\<close> (\<open>proof.go\<close>): existence proofs calculate the root hash.
  \<^item> \<open>Export_Import\<close> (\<open>export.go\<close>, \<open>import.go\<close>): the node stream of a tree and its import.
  \<^item> \<open>Protobuf\<close>, \<open>Messages\<close> (\<open>wal.pb.go\<close>, \<open>changeset.pb.go\<close>, \<open>commit_info.pb.go\<close>): the wire format, and
    round trip and absence of panics for every message of the log and of the metadata.
  \<^item> \<open>Multi_Tree\<close>, \<open>Multi_Replay\<close> (\<open>multitree.go\<close>): named trees, upgrades, commits, replay of the log.
  \<^item> \<open>Wal_File\<close> (\<open>wal.go\<close>): truncation of a corrupted log.
  \<^item> \<open>Db_Files\<close>, \<open>Db\<close> (\<open>db.go\<close>): names of snapshot directories and the search among them; the database with
    its directory, options, loading, changes, commits, rewriting and pruning. The goroutines that write the
    log, rewrite the snapshot and prune are stages in the state with a step function each; \<open>Commit\<close> is cut
    into steps where it waits for them.
  \<^item> \<open>Multi_Equiv\<close>, \<open>Db_Pending\<close>, \<open>Db_History\<close>: what the database promises. Multi-trees are compared up to
    their caches; merging change sets into the pending log keeps their effect; a history is the sequence
    of the committed entries with the multi-tree they lead to, and the log holds a segment of it.
  \<^item> \<open>Db_Disk\<close>, \<open>Db_Run\<close>: the directory always holds snapshots of the history, and every step of a call or
    a goroutine, in any interleaving, keeps the invariant that relates memory, log, directory and history.
  \<^item> \<open>Db_Load\<close>, \<open>Db_Recovery\<close>: loading the latest or a given version, rollback, and recovery after a crash.
  \<^item> \<open>Db_Progress\<close>: \<open>Commit\<close> can always end; a failed write and a left-over link block the database.
  \<^item> \<open>Go_Heap\<close>, \<open>Ext_Sort\<close> (\<open>versiondb/extsort\<close>): the heap of Go's library, and the external sorter with its
    delta encoding, chunk files, goroutines and k-way merge. Its output is a sorted permutation of its input.
  \<^item> \<open>Change_Set_File\<close> (\<open>versiondb/client/changeset.go\<close>): the files of dumped change sets. What was written is
    read back; of a truncated file, exactly the complete versions.
  \<^item> \<open>Hardhat_Config\<close> (\<open>integration_tests/contracts/hardhat.config.ts\<close>): every test contract has a compiler.

  \<^bold>\<open>Conventions.\<close> A \<open>uint8\<close>, \<open>uint32\<close> or \<open>uint64\<close> is a word; an \<open>int64\<close> is a 64-bit word read with \<open>sint\<close>
  where the code does arithmetic that may wrap. Nodes are values: the copy-on-write test of \<open>Mutate\<close> only decides whether
  the old node is reused, which a value cannot show. Third-party code (the cache, the log, the proof
  library, gjson) is an argument with its documented contract as a hypothesis or locale.

  A file operation is atomic, a crash falls between two of them; what a crash may leave of temporary
  directories and of the log, which is not synced, is arbitrary. The runs of the database assume the use
  the application makes of it: upgrades come first in a block, the change sets of a call are for different
  stores, trees and versions stay within the limits of the snapshot format (versions below \<open>2 ^ 31\<close>).

  \<^bold>\<open>Not modelled.\<close> File locks and memory mapping; data races (every step of a goroutine is atomic); the SDK
  adapters, the chain modules and the commands outside \<open>src/memiavl\<close>; the minified bundles.
\<close>

end
